(* ===== verification/Prelude.thy ===== *)
theory Prelude
  imports Main "HOL-Library.Word"
begin

unbundle bit_operations_syntax

text \<open>
  Shared vocabulary of the development: the machine types of the 32-bit targets, the faults a
  Rust kernel function can end in, and programs over persistent memory. A value of type
  \<open>('s, 'a) prog\<close> is a piece of kernel code written out write by write: every \<open>Write\<close> is
  one store that reaches the persistent memory, every \<open>Read\<close> inspects the current state, and
  \<open>Fail\<close> is a panic or an undefined operation. The same program is run to its end by
  \<open>exec\<close> and cut off after \<open>k\<close> stores by \<open>crash\<close>, which is how a power failure is
  modelled throughout. Stores are taken in program order: the compiler fences of the source
  (\<open>compiler_pm_fence\<close>) ask for exactly that.
\<close>

section \<open>Machine types and faults\<close>

type_synonym usize = "32 word"
type_synonym u16 = "16 word"
type_synonym byte = "8 word"
type_synonym addr = nat

datatype fault = Panic | Undefined | Diverges

named_theorems prog_simps \<open>evaluation of programs over persistent memory\<close>
named_theorems upd_simps \<open>reading a field after a store\<close>
named_theorems op_defs \<open>definitions of kernel operations, for evaluation\<close>

section \<open>Programs over persistent memory\<close>

datatype ('s, 'a) prog =
    Return 'a
  | Fail fault
  | Write "'s \<Rightarrow> 's" "('s, 'a) prog"
  | Read "'s \<Rightarrow> ('s, 'a) prog"

primrec bind :: "('s, 'a) prog \<Rightarrow> ('a \<Rightarrow> ('s, 'b) prog) \<Rightarrow> ('s, 'b) prog" where
  "bind (Return a) f = f a"
| "bind (Fail e) f = Fail e"
| "bind (Write w p) f = Write w (bind p f)"
| "bind (Read g) f = Read (\<lambda>s. bind (g s) f)"

primrec exec :: "('s, 'a) prog \<Rightarrow> 's \<Rightarrow> fault + 'a \<times> 's" where
  "exec (Return a) = (\<lambda>s. Inr (a, s))"
| "exec (Fail e) = (\<lambda>s. Inl e)"
| "exec (Write w p) = (\<lambda>s. exec p (w s))"
| "exec (Read g) = (\<lambda>s. exec (g s) s)"

primrec crash :: "('s, 'a) prog \<Rightarrow> nat \<Rightarrow> 's \<Rightarrow> 's" where
  "crash (Return a) = (\<lambda>k s. s)"
| "crash (Fail e) = (\<lambda>k s. s)"
| "crash (Write w p) = (\<lambda>k s. case k of 0 \<Rightarrow> s | Suc k' \<Rightarrow> crash p k' (w s))"
| "crash (Read g) = (\<lambda>k s. crash (g s) k s)"

abbreviation Halt :: "('s, unit) prog" where
  "Halt \<equiv> Return ()"

definition seq :: "('s, 'a) prog \<Rightarrow> ('s, 'b) prog \<Rightarrow> ('s, 'b) prog" where
  "seq p q = bind p (\<lambda>_. q)"

primrec writes :: "('s \<Rightarrow> 's) list \<Rightarrow> ('s, unit) prog" where
  "writes [] = Halt"
| "writes (w # ws) = Write w (writes ws)"

primrec lift :: "('t \<Rightarrow> 's) \<Rightarrow> ('s \<Rightarrow> 't \<Rightarrow> 't) \<Rightarrow> ('s, 'a) prog \<Rightarrow> ('t, 'a) prog" where
  "lift gt pt (Return a) = Return a"
| "lift gt pt (Fail e) = Fail e"
| "lift gt pt (Write w p) = Write (\<lambda>t. pt (w (gt t)) t) (lift gt pt p)"
| "lift gt pt (Read g) = Read (\<lambda>t. lift gt pt (g (gt t)))"

text \<open>The number of stores a program performs, and the state it leaves (the last state reached
  when it faults).\<close>

primrec nwrites :: "('s, 'a) prog \<Rightarrow> 's \<Rightarrow> nat" where
  "nwrites (Return a) = (\<lambda>s. 0)"
| "nwrites (Fail e) = (\<lambda>s. 0)"
| "nwrites (Write w p) = (\<lambda>s. Suc (nwrites p (w s)))"
| "nwrites (Read g) = (\<lambda>s. nwrites (g s) s)"

primrec final :: "('s, 'a) prog \<Rightarrow> 's \<Rightarrow> 's" where
  "final (Return a) = (\<lambda>s. s)"
| "final (Fail e) = (\<lambda>s. s)"
| "final (Write w p) = (\<lambda>s. final p (w s))"
| "final (Read g) = (\<lambda>s. final (g s) s)"

text \<open>All memory contents a program goes through, the last one included: a power failure leaves
  one of them.\<close>

primrec states :: "('s, 'a) prog \<Rightarrow> 's \<Rightarrow> 's list" where
  "states (Return a) = (\<lambda>s. [s])"
| "states (Fail e) = (\<lambda>s. [s])"
| "states (Write w p) = (\<lambda>s. s # states p (w s))"
| "states (Read g) = (\<lambda>s. states (g s) s)"

declare exec.simps [prog_simps] states.simps [prog_simps] crash.simps [prog_simps] bind.simps [prog_simps]
  writes.simps [prog_simps] nwrites.simps [prog_simps] final.simps [prog_simps]

subsection \<open>Sequencing\<close>

lemma exec_bind:
  "exec (bind p f) s = (case exec p s of Inl e \<Rightarrow> Inl e | Inr (a, t) \<Rightarrow> exec (f a) t)"
  by (induction p arbitrary: s) auto

lemma exec_seq:
  "exec (seq p q) s = (case exec p s of Inl e \<Rightarrow> Inl e | Inr (a, t) \<Rightarrow> exec q t)"
  by (simp add: seq_def exec_bind)

lemma bind_assoc: "bind (bind p f) g = bind p (\<lambda>a. bind (f a) g)"
  by (induction p) auto

lemma seq_simps [prog_simps]:
  "seq (Return a) q = q"
  "seq (Fail e) q = Fail e"
  "seq (Write w p) q = Write w (seq p q)"
  "seq (Read g) q = Read (\<lambda>s. seq (g s) q)"
  by (simp_all add: seq_def)

lemma crash_0 [simp]: "crash p 0 s = s"
  by (induction p arbitrary: s) auto

lemma crash_all: "nwrites p s \<le> k \<Longrightarrow> crash p k s = final p s"
  by (induction p arbitrary: k s) (auto split: nat.split)

lemma exec_final: "exec p s = Inr (a, t) \<Longrightarrow> final p s = t"
  by (induction p arbitrary: s) auto

lemma crash_complete: "exec p s = Inr (a, t) \<Longrightarrow> nwrites p s \<le> k \<Longrightarrow> crash p k s = t"
  by (simp add: crash_all exec_final)

lemma crash_before:
  "exec p s = Inr (a, t) \<Longrightarrow> k \<le> nwrites p s \<Longrightarrow> crash (bind p f) k s = crash p k s"
  by (induction p arbitrary: k s) (auto split: nat.split)

lemma crash_after:
  "exec p s = Inr (a, t) \<Longrightarrow> nwrites p s \<le> k \<Longrightarrow>
   crash (bind p f) k s = crash (f a) (k - nwrites p s) t"
  by (induction p arbitrary: k s) (auto split: nat.split)

lemma exec_writes: "exec (writes ws) s = Inr ((), fold (\<lambda>w. w) ws s)"
  by (induction ws arbitrary: s) auto

lemma crash_writes: "crash (writes ws) k s = fold (\<lambda>w. w) (take k ws) s"
  by (induction ws arbitrary: k s) (auto simp: take_Cons split: nat.split)

lemma nwrites_writes [simp]: "nwrites (writes ws) s = length ws"
  by (induction ws arbitrary: s) auto

lemma length_states [simp]: "length (states p s) = Suc (nwrites p s)"
  by (induction p arbitrary: s) auto

lemma crash_states: "k \<le> nwrites p s \<Longrightarrow> crash p k s = states p s ! k"
  by (induction p arbitrary: k s) (auto split: nat.split)

lemma final_states: "final p s = states p s ! nwrites p s"
  by (induction p arbitrary: s) auto

lemma crash_in_states: "crash p k s \<in> set (states p s)"
  by (induction p arbitrary: k s) (auto split: nat.split)

lemma states_not_Nil [simp]: "states p s \<noteq> []"
  by (metis length_states length_0_conv nat.distinct(1))

lemma last_state: "last (states p s) = final p s"
  by (simp add: final_states last_conv_nth)

lemma crash_in_drop:
  assumes "i \<le> k" "i \<le> nwrites p s"
  shows "crash p k s \<in> set (drop i (states p s))"
proof -
  have "crash p k s = states p s ! min k (nwrites p s)"
    by (cases "k \<le> nwrites p s") (simp_all add: crash_states crash_all final_states)
  also have "\<dots> = drop i (states p s) ! (min k (nwrites p s) - i)"
    using assms by simp
  also have "\<dots> \<in> set (drop i (states p s))"
    by (rule nth_mem) (use assms in simp)
  finally show ?thesis .
qed

lemma drop_in_crash:
  assumes "t \<in> set (drop i (states p s))"
  shows "\<exists>k\<ge>i. k \<le> nwrites p s \<and> t = crash p k s"
proof -
  obtain j where j: "j < length (drop i (states p s))" "t = drop i (states p s) ! j"
    using assms by (metis in_set_conv_nth)
  then have "i + j \<le> nwrites p s" "t = states p s ! (i + j)" by auto
  then show ?thesis using crash_states [of "i + j" p s] by (intro exI [of _ "i + j"]) simp
qed

subsection \<open>Lifting a program to a larger state\<close>

locale lens =
  fixes gt :: "'t \<Rightarrow> 's" and pt :: "'s \<Rightarrow> 't \<Rightarrow> 't"
  assumes get_put: "gt (pt s t) = s"
    and put_put: "pt s (pt s' t) = pt s t"
    and put_get: "pt (gt t) t = t"
begin

lemma exec_lift:
  "exec (lift gt pt p) t =
     (case exec p (gt t) of Inl e \<Rightarrow> Inl e | Inr (a, s) \<Rightarrow> Inr (a, pt s t))"
proof (induction p arbitrary: t)
  case (Write w p)
  then show ?case by (simp add: get_put put_put split: sum.split prod.split)
qed (auto simp: put_get)

lemma crash_lift: "crash (lift gt pt p) k t = pt (crash p k (gt t)) t"
  by (induction p arbitrary: k t) (auto simp: get_put put_put put_get split: nat.split)

lemma nwrites_lift: "nwrites (lift gt pt p) t = nwrites p (gt t)"
  by (induction p arbitrary: t) (auto simp: get_put)

lemma states_lift: "states (lift gt pt p) t = map (\<lambda>s. pt s t) (states p (gt t))"
  by (induction p arbitrary: t) (auto simp: get_put put_put put_get)

end

section \<open>Repeated power failures\<close>

fun reboots :: "('s, 'b) prog \<Rightarrow> nat list \<Rightarrow> 's \<Rightarrow> 's" where
  "reboots r [] s = s"
| "reboots r (k # ks) s = reboots r ks (crash r k s)"

text \<open>From memory \<open>t\<close> the recovery \<open>r\<close> ends in \<open>t'\<close> and stays within \<open>ss\<close> on the way.\<close>

definition recovers :: "('s, 'b) prog \<Rightarrow> 's \<Rightarrow> 's list \<Rightarrow> 's \<Rightarrow> bool" where
  "recovers r t' ss t \<longleftrightarrow> (\<exists>b. exec r t = Inr (b, t')) \<and> set (states r t) \<subseteq> set ss"

text \<open>How a recovery is followed piece by piece.\<close>

lemma recovers_Return: "t \<in> set ss \<Longrightarrow> recovers (Return a) t ss t"
  by (simp add: recovers_def)

lemma recovers_Write: "t \<in> set ss \<Longrightarrow> recovers p t' ss (w t) \<Longrightarrow> recovers (Write w p) t' ss t"
  by (simp add: recovers_def)

lemma recovers_Read: "recovers (g t) t' ss t \<Longrightarrow> recovers (Read g) t' ss t"
  by (simp add: recovers_def)

lemma states_bind:
  "set (states (bind p f) s) \<subseteq> set (states p s) \<union>
     (case exec p s of Inl e \<Rightarrow> {} | Inr (a, t) \<Rightarrow> set (states (f a) t))"
proof (induction p arbitrary: s)
  case (Write w p)
  show ?case using Write.IH [of "w s"] by auto
qed auto

lemma states_bind_cases:
  assumes "t \<in> set (states (bind p f) s)"
  obtains "t \<in> set (states p s)" | a u where "exec p s = Inr (a, u)" "t \<in> set (states (f a) u)"
  using assms states_bind [of p f s] by (auto split: sum.splits)

lemma recovers_bind:
  assumes "recovers p u ss t" "\<And>a. exec p t = Inr (a, u) \<Longrightarrow> recovers (f a) t' ss u"
  shows "recovers (bind p f) t' ss t"
proof -
  obtain a where a: "exec p t = Inr (a, u)" using assms(1) by (auto simp: recovers_def)
  then have "recovers (f a) t' ss u" by (rule assms(2))
  then show ?thesis using assms(1) a states_bind [of p f t]
    by (auto simp: recovers_def exec_bind)
qed

lemma recovers_seq: "recovers p u ss t \<Longrightarrow> recovers q t' ss u \<Longrightarrow> recovers (seq p q) t' ss t"
  unfolding seq_def by (rule recovers_bind)

lemma recovers_mono: "recovers p t' ss t \<Longrightarrow> set ss \<subseteq> set ss' \<Longrightarrow> recovers p t' ss' t"
  by (auto simp: recovers_def)

lemmas recovers_intros = recovers_Return recovers_Write recovers_Read

text \<open>
  An operation whose recovery rolls forward: \<open>opr x\<close> is the operation started in state
  \<open>start x\<close>, \<open>rcv x\<close> the recovery the reboot runs, \<open>first x\<close> the number of stores after
  which the operation's log entry is valid, and \<open>ss x\<close> lists the memory contents the recovery
  is prepared for. The provider shows that the operation's own crash states are among them, and
  that a recovery from any of them reaches the state the operation would have reached and stays
  among them when it is itself cut off. Then any number of power failures is survived.
\<close>

locale roll_forward =
  fixes pre :: "'x \<Rightarrow> bool"
    and opr :: "'x \<Rightarrow> ('s, 'a) prog"
    and rcv :: "'x \<Rightarrow> ('s, 'b) prog"
    and start :: "'x \<Rightarrow> 's"
    and first :: "'x \<Rightarrow> nat"
    and ss :: "'x \<Rightarrow> 's list"
  assumes first_le: "pre x \<Longrightarrow> first x \<le> nwrites (opr x) (start x)"
    and covers: "pre x \<Longrightarrow> set (drop (first x) (states (opr x) (start x))) \<subseteq> set (ss x)"
    and recovers_all: "pre x \<Longrightarrow> t \<in> set (ss x) \<Longrightarrow>
      recovers (rcv x) (final (opr x) (start x)) (ss x) t"
begin

lemma crash_covered: "pre x \<Longrightarrow> first x \<le> k \<Longrightarrow> crash (opr x) k (start x) \<in> set (ss x)"
  using covers first_le crash_in_drop [of "first x" k "opr x" "start x"] by blast

lemma recover_cut: "pre x \<Longrightarrow> t \<in> set (ss x) \<Longrightarrow> crash (rcv x) j t \<in> set (ss x)"
  using recovers_all crash_in_states [of "rcv x" j t] unfolding recovers_def by blast

lemma reboots_covered: "pre x \<Longrightarrow> t \<in> set (ss x) \<Longrightarrow> reboots (rcv x) ks t \<in> set (ss x)"
  by (induction ks arbitrary: t) (auto intro: recover_cut)

lemma survives_reboots:
  assumes "pre x" and "first x \<le> k"
  shows "\<exists>b. exec (rcv x) (reboots (rcv x) ks (crash (opr x) k (start x))) =
    Inr (b, final (opr x) (start x))"
  using recovers_all [OF assms(1) reboots_covered [OF assms(1) crash_covered [OF assms]]]
  unfolding recovers_def by blast

end

text \<open>
  An operation whose recovery rolls back: \<open>inv x\<close> holds of every memory content the operation
  and the recovery go through, and from each of them a complete recovery ends in a state that
  satisfies \<open>goal x\<close>.
\<close>

locale roll_back =
  fixes inv :: "'x \<Rightarrow> 's \<Rightarrow> bool"
    and rcv :: "'x \<Rightarrow> ('s, 'b) prog"
    and goal :: "'x \<Rightarrow> 's \<Rightarrow> bool"
  assumes recovery_states: "inv x s \<Longrightarrow> t \<in> set (states (rcv x) s) \<Longrightarrow> inv x t"
    and recovery_ends: "inv x s \<Longrightarrow> \<exists>b t. exec (rcv x) s = Inr (b, t) \<and> goal x t"
begin

lemma reboots_inv: "inv x s \<Longrightarrow> inv x (reboots (rcv x) ks s)"
  using recovery_states crash_in_states by (induction ks arbitrary: s) (simp, fastforce)

lemma survives_reboots:
  assumes "\<And>t. t \<in> set (states p s) \<Longrightarrow> inv x t"
  shows "\<exists>b t. exec (rcv x) (reboots (rcv x) ks (crash p k s)) = Inr (b, t) \<and> goal x t"
  by (intro recovery_ends reboots_inv assms crash_in_states)

end

section \<open>Lists\<close>

lemma ends_cases [case_names Nil One More]:
  obtains "xs = []" | x where "xs = [x]" | x ys y where "xs = x # ys @ [y]"
  by (metis neq_Nil_conv rev_exhaust)

section \<open>Words\<close>

lemma of_nat_usize_eq_iff:
  "m < 4096 \<Longrightarrow> n < 4096 \<Longrightarrow> (of_nat m :: usize) = of_nat n \<longleftrightarrow> m = n"
  by (simp add: word_of_nat_eq_iff take_bit_nat_eq_self)

lemma of_nat_usize_eq_0: "n < 4096 \<Longrightarrow> (of_nat n :: usize) = 0 \<longleftrightarrow> n = 0"
  using of_nat_usize_eq_iff [of n 0] by simp

lemma of_nat_usize_eq_1: "n < 4096 \<Longrightarrow> (of_nat n :: usize) = 1 \<longleftrightarrow> n = 1"
  using of_nat_usize_eq_iff [of n 1] by simp

lemma usize_pred: "(of_nat (Suc k) :: usize) - 1 = of_nat k"
  by simp

lemma usize_is_1: "k < 4095 \<Longrightarrow> (of_nat (Suc k) :: usize) = 1 \<longleftrightarrow> k = 0"
  using of_nat_usize_eq_1 [of "Suc k"] by (simp del: of_nat_Suc)

lemma take_bit_usize:
  fixes l :: usize
  assumes "l < 4096"
  shows "take_bit 12 l = l"
proof -
  have "unat l < 4096" using assms by (simp add: word_less_nat_alt)
  then show ?thesis
    by (simp add: word_unat_eq_iff unsigned_take_bit_eq take_bit_nat_eq_self)
qed

text \<open>A tag of at most four bits packed above twelve bits of payload.\<close>

lemma packed_tag:
  fixes l c :: usize
  assumes "l < 4096" "c < 16"
  shows "drop_bit 12 (push_bit 12 c OR l) = c" "(push_bit 12 c OR l) AND 0xfff = l"
proof -
  have l: "bit l n \<Longrightarrow> n < 12" for n
    using take_bit_usize [OF assms(1)] by (metis bit_take_bit_iff)
  have "take_bit 4 c = c" using assms(2)
    by (simp add: word_unat_eq_iff unsigned_take_bit_eq take_bit_nat_eq_self word_less_nat_alt)
  then have c: "bit c n \<Longrightarrow> n < 4" for n by (metis bit_take_bit_iff)
  have m: "(0xfff :: usize) = mask 12" by (simp add: mask_eq_exp_minus_1)
  show "(push_bit 12 c OR l) AND 0xfff = l" unfolding m
    by (rule bit_word_eqI) (auto simp: bit_simps dest: l)
  show "drop_bit 12 (push_bit 12 c OR l) = c"
    by (rule bit_word_eqI) (auto simp: bit_simps dest: l c)
qed

end
