(* ===== verification/Util.thy ===== *)
theory Util
  imports Prelude
begin

text \<open>
  The arithmetic helpers of \<open>src/util.rs\<close> on 32-bit words: rounding an address up to an
  alignment. Rust's \<open>+\<close> and \<open>-\<close> wrap in the release build that runs on the device.
\<close>

definition align_up :: "usize \<Rightarrow> usize \<Rightarrow> usize" where
  "align_up addr align = (addr + align - 1) AND NOT (align - 1)"

definition ARCH_ALIGN :: usize where
  "ARCH_ALIGN = 4"

definition arch_addr_align_up :: "usize \<Rightarrow> usize" where
  "arch_addr_align_up addr = (addr + ARCH_ALIGN - 1) AND NOT (ARCH_ALIGN - 1)"

lemma arch_align_up: "arch_addr_align_up x = align_up x ARCH_ALIGN"
  by (simp add: arch_addr_align_up_def align_up_def)

lemma and_not_mask: "x AND NOT (mask n) = push_bit n (drop_bit n x)" for x :: usize
  by (rule bit_word_eqI) (auto simp: bit_simps)

lemma unat_push_drop:
  fixes x :: usize
  shows "unat (push_bit n (drop_bit n x)) = 2 ^ n * (unat x div 2 ^ n)"
proof -
  have "2 ^ n * (unat x div 2 ^ n) \<le> unat x" by simp
  also have "\<dots> < 2 ^ 32" using unsigned_less [of x] by simp
  finally have l: "2 ^ n * (unat x div 2 ^ n) < (2 :: nat) ^ 32" .
  have "unat (push_bit n (drop_bit n x)) = take_bit 32 (push_bit n (drop_bit n (unat x)))"
    using unsigned_less [of x, where ?'a = nat]
    by (simp only: unsigned_push_bit_eq unsigned_drop_bit_eq) (simp add: take_bit_nat_eq_self)
  also have "\<dots> = take_bit 32 (2 ^ n * (unat x div 2 ^ n))"
    by (simp only: push_bit_eq_mult drop_bit_eq_div mult.commute)
  also have "\<dots> = 2 ^ n * (unat x div 2 ^ n)" using l by (rule take_bit_nat_eq_self)
  finally show ?thesis .
qed

lemma pow2_word_minus_1: "(2 ^ n :: usize) - 1 = mask n"
  by (simp add: mask_eq_exp_minus_1)

text \<open>As long as the sum does not leave the address space, the result is the least multiple of
  the alignment that is not below the address.\<close>

lemma unat_align_up:
  assumes "n < 32" "unat x + 2 ^ n \<le> 2 ^ 32"
  shows "unat (align_up x (2 ^ n)) = 2 ^ n * ((unat x + 2 ^ n - 1) div 2 ^ n)"
proof -
  have "unat (x + 2 ^ n - 1) = unat x + 2 ^ n - 1"
  proof -
    have "(of_nat (unat x + 2 ^ n - 1) :: usize) = of_nat (unat x + 2 ^ n) - of_nat 1"
      by (rule of_nat_diff) (simp add: Suc_le_eq)
    then have "x + 2 ^ n - 1 = (of_nat (unat x + 2 ^ n - 1) :: usize)" by simp
    moreover have "unat x + 2 ^ n - 1 < 2 ^ 32" using assms(2) by (simp add: less_eq_Suc_le)
    ultimately show ?thesis by (simp add: unat_of_nat take_bit_nat_eq_self)
  qed
  then show ?thesis
    unfolding align_up_def pow2_word_minus_1 and_not_mask unat_push_drop by simp
qed

lemma align_up_bounds:
  assumes "n < 32" "unat x + 2 ^ n \<le> 2 ^ 32"
  shows "x \<le> align_up x (2 ^ n)" "unat (align_up x (2 ^ n)) < unat x + 2 ^ n"
    "2 ^ n dvd unat (align_up x (2 ^ n))"
proof -
  let ?y = "unat x + 2 ^ n - 1"
  have m: "?y = 2 ^ n * (?y div 2 ^ n) + ?y mod 2 ^ n" by simp
  have "?y mod 2 ^ n < 2 ^ n" by simp
  then have "unat x \<le> 2 ^ n * (?y div 2 ^ n)" using m by linarith
  then show "x \<le> align_up x (2 ^ n)" using unat_align_up [OF assms] by (simp add: word_le_nat_alt)
  have "0 < (2 :: nat) ^ n" by simp
  then show "unat (align_up x (2 ^ n)) < unat x + 2 ^ n"
    unfolding unat_align_up [OF assms] using m by linarith
  show "2 ^ n dvd unat (align_up x (2 ^ n))" unfolding unat_align_up [OF assms] by simp
qed

lemma unat_arch_align_up:
  assumes "unat x + 4 \<le> 2 ^ 32"
  shows "unat (arch_addr_align_up x) = 4 * ((unat x + 3) div 4)"
  using unat_align_up [of 2 x] assms by (simp add: arch_align_up ARCH_ALIGN_def)

end
