(* ===== verification/Pmem.thy ===== *)
theory Pmem
  imports Util
begin

text \<open>
  The undo journal of \<open>src/pmem.rs\<close>, byte by byte. \<open>append_log_of\<close> copies an object into
  the log, then its address and its size, and only then moves the tail; \<open>recover\<close> walks the
  records from the tail down and copies every object back. The data memory is a map from
  addresses to bytes, the log a byte array indexed from 0. Every byte of a copy is a store of
  its own, so a power failure may leave an object half copied.
\<close>

section \<open>The journal\<close>

definition JOURNAL_SIZE :: nat where
  "JOURNAL_SIZE = 1024"

record pm =
  pm_mem :: "usize \<Rightarrow> byte"
  j_logs :: "nat \<Rightarrow> byte"
  j_tail :: nat

definition byte_of :: "usize \<Rightarrow> nat \<Rightarrow> byte" where
  "byte_of w i = ucast (drop_bit (8 * i) w)"

definition get_word :: "(nat \<Rightarrow> byte) \<Rightarrow> nat \<Rightarrow> usize" where
  "get_word f p = ucast (f p) OR push_bit 8 (ucast (f (p + 1))) OR
     push_bit 16 (ucast (f (p + 2))) OR push_bit 24 (ucast (f (p + 3)))"

definition put_word :: "nat \<Rightarrow> usize \<Rightarrow> pm \<Rightarrow> pm" where
  "put_word p w s = s\<lparr>j_logs := (j_logs s)(p := byte_of w 0, p + 1 := byte_of w 1,
     p + 2 := byte_of w 2, p + 3 := byte_of w 3)\<rparr>"

definition aligned_size :: "usize \<Rightarrow> nat" where
  "aligned_size sz = unat (arch_addr_align_up sz)"

definition copy_to_log :: "nat \<Rightarrow> usize \<Rightarrow> nat \<Rightarrow> (pm, unit) prog" where
  "copy_to_log tail obj n =
     writes (map (\<lambda>i s. s\<lparr>j_logs := (j_logs s)(tail + i := pm_mem s (obj + of_nat i))\<rparr>) [0..<n])"

definition append_log_of :: "usize \<Rightarrow> usize \<Rightarrow> (pm, unit) prog" where
  "append_log_of obj obj_sz = Read (\<lambda>s.
     let tail = j_tail s; al = aligned_size obj_sz; record_sz = al + 4 + 4 in
     if \<not> tail + record_sz \<le> JOURNAL_SIZE then Fail Panic
     else seq (copy_to_log tail obj (unat obj_sz))
       (writes [put_word (tail + al) obj, put_word (tail + al + 4) obj_sz,
                \<lambda>s. s\<lparr>j_tail := tail + record_sz\<rparr>]))"

definition clear :: "pm \<Rightarrow> pm" where
  "clear s = s\<lparr>j_tail := 0\<rparr>"

definition is_empty :: "pm \<Rightarrow> bool" where
  "is_empty s \<longleftrightarrow> j_tail s = 0"

definition copy_back :: "nat \<Rightarrow> usize \<Rightarrow> nat \<Rightarrow> (pm, unit) prog" where
  "copy_back src obj n =
     writes (map (\<lambda>i s. s\<lparr>pm_mem := (pm_mem s)(obj + of_nat i := j_logs s (src + i))\<rparr>) [0..<n])"

text \<open>An index below zero wraps around and fails the bounds check of the array.\<close>

function recover_loop :: "nat \<Rightarrow> (pm, unit) prog" where
  "recover_loop ptr = (if ptr = 0 then Halt else if ptr < 8 then Fail Panic
     else Read (\<lambda>s.
       let sz = get_word (j_logs s) (ptr - 4); al = aligned_size sz;
           obj = get_word (j_logs s) (ptr - 8) in
       if ptr < 8 + al then Fail Panic
       else seq (copy_back (ptr - 8 - al) obj (unat sz)) (recover_loop (ptr - (8 + al)))))"
  by pat_completeness auto
termination
  by (relation "measure id") auto

declare recover_loop.simps [simp del]

definition recover :: "(pm, unit) prog" where
  "recover = Read (\<lambda>s. seq (recover_loop (j_tail s)) (writes [\<lambda>s. s\<lparr>j_tail := 0\<rparr>]))"

definition init_journal :: "pm \<Rightarrow> pm" where
  "init_journal s = s\<lparr>j_tail := 0\<rparr>"

section \<open>What a transaction body does to memory\<close>

text \<open>Persistent pointers and variables: a mutable reference is handed out after the object is logged.\<close>

definition create_log :: "usize \<Rightarrow> usize \<Rightarrow> (pm, unit) prog" where
  "create_log addr sz = append_log_of addr sz"

definition borrow_mut :: "usize \<Rightarrow> usize \<Rightarrow> (pm, unit) prog" where
  "borrow_mut addr sz = append_log_of addr sz"

definition set_var :: "usize \<Rightarrow> byte list \<Rightarrow> (pm, unit) prog" where
  "set_var addr new_val = seq (append_log_of addr (of_nat (length new_val)))
     (writes (map (\<lambda>i s. s\<lparr>pm_mem := (pm_mem s)(addr + of_nat i := new_val ! i)\<rparr>) [0..<length new_val]))"

text \<open>A body asks for mutable references, each of which logs its object first
  (\<open>PMPtr::as_mut\<close>, \<open>PMVar::borrow_mut\<close>), and stores bytes.\<close>

datatype action = AsMut usize usize | Store usize byte

primrec act :: "action \<Rightarrow> (pm, unit) prog" where
  "act (AsMut obj sz) = append_log_of obj sz"
| "act (Store x b) = writes [\<lambda>s. s\<lparr>pm_mem := (pm_mem s)(x := b)\<rparr>]"

primrec body :: "action list \<Rightarrow> (pm, unit) prog" where
  "body [] = Halt"
| "body (a # as) = seq (act a) (body as)"

definition in_object :: "usize \<Rightarrow> usize \<Rightarrow> usize \<Rightarrow> bool" where
  "in_object x obj sz \<longleftrightarrow> unat (x - obj) < unat sz"

text \<open>The discipline Rust imposes on a body: a byte is stored only inside an object that a mutable
  reference has been taken to, and no object has more than \<open>isize::MAX\<close> bytes.\<close>

primrec disciplined :: "(usize \<times> usize) set \<Rightarrow> action list \<Rightarrow> bool" where
  "disciplined R [] \<longleftrightarrow> True"
| "disciplined R (a # as) \<longleftrightarrow> (case a of
     AsMut obj sz \<Rightarrow> unat sz < 2 ^ 31 \<and> disciplined (insert (obj, sz) R) as
   | Store x b \<Rightarrow> (\<exists>(obj, sz)\<in>R. in_object x obj sz) \<and> disciplined R as)"

section \<open>Words in the log\<close>

lemma join_bytes:
  "(ucast (byte_of w 0) OR push_bit 8 (ucast (byte_of w 1)) OR
    push_bit 16 (ucast (byte_of w 2)) OR push_bit 24 (ucast (byte_of w 3)) :: usize) = w"
proof (rule bit_word_eqI)
  fix n
  assume "n < LENGTH(32)"
  then consider "n < 8" | "8 \<le> n" "n < 16" | "16 \<le> n" "n < 24" | "24 \<le> n" "n < 32"
    by (cases "n < 8"; cases "n < 16"; cases "n < 24") auto
  then show "bit (ucast (byte_of w 0) OR push_bit 8 (ucast (byte_of w 1)) OR
      push_bit 16 (ucast (byte_of w 2)) OR push_bit 24 (ucast (byte_of w 3)) :: usize) n = bit w n"
    by cases (auto simp: byte_of_def bit_simps)
qed

lemma get_put_word: "get_word (j_logs (put_word p w s)) p = w"
  using join_bytes [of w] by (simp add: get_word_def put_word_def)

lemma put_word_frame:
  "i < p \<or> p + 4 \<le> i \<Longrightarrow> j_logs (put_word p w s) i = j_logs s i"
  "pm_mem (put_word p w s) = pm_mem s" "j_tail (put_word p w s) = j_tail s"
  by (auto simp: put_word_def)

lemma get_word_cong: "(\<And>i. p \<le> i \<Longrightarrow> i < p + 4 \<Longrightarrow> f i = g i) \<Longrightarrow> get_word f p = get_word g p"
  by (simp add: get_word_def)

section \<open>The records of a journal\<close>

text \<open>\<open>enc f p es\<close>: below \<open>p\<close> the log \<open>f\<close> holds exactly the records \<open>es\<close>, newest first.\<close>

fun enc :: "(nat \<Rightarrow> byte) \<Rightarrow> nat \<Rightarrow> (usize \<times> byte list) list \<Rightarrow> bool" where
  "enc f p [] \<longleftrightarrow> p = 0"
| "enc f p ((a, bs) # es) \<longleftrightarrow> length bs < 2 ^ 31 \<and> (let al = aligned_size (of_nat (length bs)) in
     8 + al \<le> p \<and> get_word f (p - 4) = of_nat (length bs) \<and> get_word f (p - 8) = a \<and>
     (\<forall>i<length bs. f (p - 8 - al + i) = bs ! i) \<and> enc f (p - (8 + al)) es)"

primrec write_bytes :: "(usize \<Rightarrow> byte) \<Rightarrow> usize \<Rightarrow> byte list \<Rightarrow> usize \<Rightarrow> byte" where
  "write_bytes m a [] = m"
| "write_bytes m a (b # bs) = write_bytes (m(a := b)) (a + 1) bs"

text \<open>What undoing a list of records, newest first, makes of a memory.\<close>

fun undo :: "(usize \<times> byte list) list \<Rightarrow> (usize \<Rightarrow> byte) \<Rightarrow> usize \<Rightarrow> byte" where
  "undo [] m = m"
| "undo ((a, bs) # es) m = undo es (write_bytes m a bs)"

lemma unat_of_nat_small: "n < 2 ^ 32 \<Longrightarrow> unat (of_nat n :: usize) = n"
  by (simp add: unat_of_nat take_bit_nat_eq_self)

lemma aligned_size_ge: "n < 2 ^ 31 \<Longrightarrow> n \<le> aligned_size (of_nat n)"
proof -
  assume "n < 2 ^ 31"
  then have "unat (of_nat n :: usize) = n" by (intro unat_of_nat_small) simp
  with \<open>n < 2 ^ 31\<close> show ?thesis
    unfolding aligned_size_def by (subst unat_arch_align_up) simp_all
qed

lemma enc_cong: "(\<And>i. i < p \<Longrightarrow> f i = g i) \<Longrightarrow> enc f p es = enc g p es"
proof (induction es arbitrary: p)
  case (Cons e es)
  obtain a bs where e: "e = (a, bs)" by fastforce
  let ?al = "aligned_size (of_nat (length bs))"
  show ?case
  proof (cases "length bs < 2 ^ 31 \<and> 8 + ?al \<le> p")
    case True
    then have "get_word f (p - 4) = get_word g (p - 4)" "get_word f (p - 8) = get_word g (p - 8)"
      using Cons.prems by (auto intro!: get_word_cong)
    moreover have "\<forall>i<length bs. f (p - 8 - ?al + i) = g (p - 8 - ?al + i)"
      using True aligned_size_ge [of "length bs"] Cons.prems by auto
    moreover have "enc f (p - (8 + ?al)) es = enc g (p - (8 + ?al)) es"
      using Cons.prems by (intro Cons.IH) simp
    ultimately show ?thesis by (simp add: e Let_def)
  qed (auto simp: e Let_def)
qed simp

lemma write_bytes_apply:
  "length bs < 2 ^ 32 \<Longrightarrow>
   write_bytes m a bs x = (if unat (x - a) < length bs then bs ! unat (x - a) else m x)"
proof (induction bs arbitrary: m a)
  case (Cons b bs)
  show ?case
  proof (cases "x = a")
    case True
    have "x - (a + 1) = - 1" using True by simp
    moreover have "unat (- 1 :: usize) = 2 ^ 32 - 1" by (simp add: unsigned_minus_1_eq_mask mask_eq_exp_minus_1)
    ultimately have "\<not> unat (x - (a + 1)) < length bs" using Cons.prems by simp
    then show ?thesis using Cons True by simp
  next
    case False
    then have ne: "x - a \<noteq> 0" by simp
    then have "unat (x - a) \<noteq> 0" by (simp only: unat_eq_0 simp_thms)
    moreover have "unat (x - a - 1) = unat (x - a) - 1" by (rule unat_minus_one [OF ne])
    moreover have "x - a - 1 = x - (a + 1)" by simp
    ultimately have "unat (x - a) = Suc (unat (x - (a + 1)))" by (simp only: Suc_pred' neq0_conv)
    then show ?thesis using Cons False by simp
  qed
qed simp

lemma write_bytes_snoc:
  "write_bytes m a (bs @ [b]) = (write_bytes m a bs)(a + of_nat (length bs) := b)"
  by (induction bs arbitrary: m a) (auto simp: add.commute add.left_commute)

definition covers :: "(usize \<times> byte list) list \<Rightarrow> usize \<Rightarrow> bool" where
  "covers es x \<longleftrightarrow> (\<exists>(a, bs)\<in>set es. unat (x - a) < length bs)"

definition small :: "(usize \<times> byte list) list \<Rightarrow> bool" where
  "small es \<longleftrightarrow> (\<forall>(a, bs)\<in>set es. length bs < 2 ^ 32)"

text \<open>A store to a logged byte is invisible after undoing.\<close>

lemma undo_store: "small es \<Longrightarrow> covers es x \<Longrightarrow> undo es (m(x := b)) = undo es m"
proof (induction es arbitrary: m)
  case (Cons e es)
  obtain a bs where e: "e = (a, bs)" by fastforce
  have len: "length bs < 2 ^ 32" and small: "small es" using Cons.prems e by (auto simp: small_def)
  show ?case
  proof (cases "unat (x - a) < length bs")
    case True
    have "write_bytes (m(x := b)) a bs = write_bytes m a bs"
      by (rule ext) (use True in \<open>auto simp: write_bytes_apply [OF len]\<close>)
    then show ?thesis unfolding e undo.simps by (simp only:)
  next
    case False
    then have "covers es x" using Cons.prems e by (auto simp: covers_def)
    moreover have "write_bytes (m(x := b)) a bs = (write_bytes m a bs)(x := b)"
      by (rule ext) (use False in \<open>auto simp: write_bytes_apply [OF len]\<close>)
    ultimately show ?thesis unfolding e undo.simps using Cons.IH [OF small] by (simp only:)
  qed
qed (simp add: covers_def)

lemma undo_write_part:
  assumes "small es" "(a, bs) \<in> set es" "k \<le> length bs"
  shows "undo es (write_bytes m a (take k bs)) = undo es m"
  using assms(3)
proof (induction k)
  case (Suc k)
  have len: "length bs < 2 ^ 32" using assms(1,2) by (auto simp: small_def)
  have "take (Suc k) bs = take k bs @ [bs ! k]" using Suc.prems by (simp add: take_Suc_conv_app_nth)
  then have "write_bytes m a (take (Suc k) bs) = (write_bytes m a (take k bs))(a + of_nat k := bs ! k)"
    using Suc.prems write_bytes_snoc [of m a "take k bs" "bs ! k"] by (simp add: min_def)
  moreover have "covers es (a + of_nat k)"
    using assms(2) Suc.prems len unat_of_nat_small [of k] by (auto simp: covers_def intro!: bexI [of _ "(a, bs)"])
  ultimately have "undo es (write_bytes m a (take (Suc k) bs)) = undo es (write_bytes m a (take k bs))"
    using undo_store [OF assms(1)] by (simp only:)
  then show ?case using Suc by simp
qed simp

lemma write_own_bytes: "write_bytes m a (map (\<lambda>i. m (a + of_nat i)) [0..<n]) = m"
  by (induction n) (simp_all add: write_bytes_snoc)

lemma enc_small: "enc f p es \<Longrightarrow> small es"
  by (induction f p es rule: enc.induct) (auto simp: small_def Let_def)

section \<open>Recovery undoes the records\<close>

lemma states_writes: "t \<in> set (states (writes ws) s) \<Longrightarrow> \<exists>k\<le>length ws. t = fold (\<lambda>w. w) (take k ws) s"
  using drop_in_crash [of t 0 "writes ws" s] by (auto simp: crash_writes)

lemma copy_to_log_fold:
  "fold (\<lambda>w. w) (map (\<lambda>i s. s\<lparr>j_logs := (j_logs s)(tail + i := pm_mem s (obj + of_nat i))\<rparr>) [0..<k]) s =
   s\<lparr>j_logs := \<lambda>i. if tail \<le> i \<and> i < tail + k then pm_mem s (obj + of_nat (i - tail)) else j_logs s i\<rparr>"
proof (induction k)
  case 0
  have "(\<lambda>i. if tail \<le> i \<and> i < tail + 0 then pm_mem s (obj + of_nat (i - tail)) else j_logs s i) = j_logs s"
    by (auto simp: fun_eq_iff)
  then show ?case by simp
next
  case (Suc k)
  have "(\<lambda>i. if tail \<le> i \<and> i < tail + k then pm_mem s (obj + of_nat (i - tail)) else j_logs s i)(tail + k := pm_mem s (obj + of_nat k))
    = (\<lambda>i. if tail \<le> i \<and> i < tail + Suc k then pm_mem s (obj + of_nat (i - tail)) else j_logs s i)"
    by (auto simp: fun_eq_iff)
  then show ?case using Suc by (simp del: fun_upd_apply)
qed

lemma copy_back_fold:
  "fold (\<lambda>w. w) (map (\<lambda>i s. s\<lparr>pm_mem := (pm_mem s)(obj + of_nat i := j_logs s (src + i))\<rparr>) [0..<k]) s =
   s\<lparr>pm_mem := write_bytes (pm_mem s) obj (map (\<lambda>i. j_logs s (src + i)) [0..<k])\<rparr>"
  by (induction k) (simp_all add: write_bytes_snoc del: fun_upd_apply)

lemma exec_copy_back: "exec (copy_back src obj n) s =
   Inr ((), s\<lparr>pm_mem := write_bytes (pm_mem s) obj (map (\<lambda>i. j_logs s (src + i)) [0..<n])\<rparr>)"
  by (simp add: copy_back_def exec_writes copy_back_fold del: fun_upd_apply)

lemma states_copy_back:
  assumes "t \<in> set (states (copy_back src obj n) s)"
  shows "\<exists>k\<le>n. t = s\<lparr>pm_mem := write_bytes (pm_mem s) obj (take k (map (\<lambda>i. j_logs s (src + i)) [0..<n]))\<rparr>"
proof -
  obtain k where "k \<le> n" "t = fold (\<lambda>w. w) (take k (map (\<lambda>i s. s\<lparr>pm_mem := (pm_mem s)(obj + of_nat i := j_logs s (src + i))\<rparr>) [0..<n])) s"
    using states_writes assms unfolding copy_back_def by fastforce
  then show ?thesis using copy_back_fold [of obj src k s]
    by (intro exI [of _ k]) (simp add: take_map del: fun_upd_apply)
qed

lemma recover_loop_step:
  assumes "enc (j_logs s) p ((a, bs) # es)"
  shows "exec (recover_loop p) s = exec (recover_loop (p - (8 + aligned_size (of_nat (length bs))))) 
      (s\<lparr>pm_mem := write_bytes (pm_mem s) a bs\<rparr>)"
    and "t \<in> set (states (recover_loop p) s) \<Longrightarrow>
      (\<exists>k\<le>length bs. t = s\<lparr>pm_mem := write_bytes (pm_mem s) a (take k bs)\<rparr>) \<or>
      t \<in> set (states (recover_loop (p - (8 + aligned_size (of_nat (length bs)))))
        (s\<lparr>pm_mem := write_bytes (pm_mem s) a bs\<rparr>))"
proof -
  let ?al = "aligned_size (of_nat (length bs))"
  have f: "8 + ?al \<le> p" "unat (get_word (j_logs s) (p - 4)) = length bs"
     "aligned_size (get_word (j_logs s) (p - 4)) = ?al" "get_word (j_logs s) (p - 8) = a"
     "map (\<lambda>i. j_logs s (p - 8 - ?al + i)) [0..<length bs] = bs"
    using assms unat_of_nat_small [of "length bs"] by (auto simp: Let_def intro!: nth_equalityI)
  have loop: "recover_loop p = Read (\<lambda>s.
       let sz = get_word (j_logs s) (p - 4); al = aligned_size sz;
           obj = get_word (j_logs s) (p - 8) in
       if p < 8 + al then Fail Panic
       else seq (copy_back (p - 8 - al) obj (unat sz)) (recover_loop (p - (8 + al))))"
    using f(1) by (subst recover_loop.simps) auto
  let ?q = "seq (copy_back (p - 8 - ?al) a (length bs)) (recover_loop (p - (8 + ?al)))"
  have "exec (recover_loop p) s = exec ?q s" unfolding loop using f by (simp add: Let_def)
  then show "exec (recover_loop p) s = exec (recover_loop (p - (8 + ?al))) 
      (s\<lparr>pm_mem := write_bytes (pm_mem s) a bs\<rparr>)"
    using f(5) by (simp add: exec_seq exec_copy_back)
  assume "t \<in> set (states (recover_loop p) s)"
  then have "t \<in> set (states ?q s)" unfolding loop using f by (simp add: Let_def)
  then have "t \<in> set (states (copy_back (p - 8 - ?al) a (length bs)) s) \<or>
      t \<in> set (states (recover_loop (p - (8 + ?al))) (s\<lparr>pm_mem := write_bytes (pm_mem s) a bs\<rparr>))"
    using states_bind [of "copy_back (p - 8 - ?al) a (length bs)" "\<lambda>_. recover_loop (p - (8 + ?al))" s] f(5)
    by (auto simp: seq_def exec_copy_back)
  then show "(\<exists>k\<le>length bs. t = s\<lparr>pm_mem := write_bytes (pm_mem s) a (take k bs)\<rparr>) \<or>
      t \<in> set (states (recover_loop (p - (8 + ?al))) (s\<lparr>pm_mem := write_bytes (pm_mem s) a bs\<rparr>))"
    using states_copy_back [of t "p - 8 - ?al" a "length bs" s] f(5) by auto
qed

lemma enc_tail: "enc f p ((a, bs) # es) \<Longrightarrow> enc f (p - (8 + aligned_size (of_nat (length bs)))) es"
  by (simp add: Let_def)

lemma exec_recover_loop:
  "enc (j_logs s) p es \<Longrightarrow> exec (recover_loop p) s = Inr ((), s\<lparr>pm_mem := undo es (pm_mem s)\<rparr>)"
proof (induction es arbitrary: p s)
  case Nil
  then show ?case by (simp add: recover_loop.simps)
next
  case (Cons e es)
  obtain a bs where e: "e = (a, bs)" by fastforce
  note enc = Cons.prems [unfolded e]
  show ?case unfolding recover_loop_step(1) [OF enc] e
    using Cons.IH [of "s\<lparr>pm_mem := write_bytes (pm_mem s) a bs\<rparr>"] enc_tail [OF enc] by simp
qed

lemma states_recover_loop:
  assumes "enc (j_logs s) p es" "small rs" "set es \<subseteq> set rs" "t \<in> set (states (recover_loop p) s)"
  shows "\<exists>m. t = s\<lparr>pm_mem := m\<rparr> \<and> undo rs m = undo rs (pm_mem s)"
  using assms
proof (induction es arbitrary: p s)
  case Nil
  then show ?case by (auto simp: recover_loop.simps intro!: exI [of _ "pm_mem s"])
next
  case (Cons e es)
  obtain a bs where e: "e = (a, bs)" by fastforce
  note enc = Cons.prems(1) [unfolded e]
  have part: "undo rs (write_bytes (pm_mem s) a (take k bs)) = undo rs (pm_mem s)" if "k \<le> length bs" for k
    using undo_write_part [OF Cons.prems(2) _ that] Cons.prems(3) e by simp
  from recover_loop_step(2) [OF enc Cons.prems(4)] show ?case
  proof
    assume "t \<in> set (states (recover_loop (p - (8 + aligned_size (of_nat (length bs)))))
        (s\<lparr>pm_mem := write_bytes (pm_mem s) a bs\<rparr>))"
    then show ?thesis
      using Cons.IH [of "s\<lparr>pm_mem := write_bytes (pm_mem s) a bs\<rparr>"] enc_tail [OF enc] Cons.prems(2,3) 
        part [of "length bs"] by auto
  qed (use part in auto)
qed

section \<open>The invariant of the journal\<close>

text \<open>Undoing what is in the journal leads back to \<open>m0\<close>.\<close>

definition undo_inv :: "(usize \<Rightarrow> byte) \<Rightarrow> pm \<Rightarrow> bool" where
  "undo_inv m0 s \<longleftrightarrow> (\<exists>es. enc (j_logs s) (j_tail s) es \<and> undo es (pm_mem s) = m0)"

interpretation journal: roll_back undo_inv "\<lambda>_. recover" "\<lambda>m0 s. pm_mem s = m0 \<and> is_empty s"
proof
  fix m0 s t
  assume "undo_inv m0 s" and t: "t \<in> set (states recover s)"
  then obtain es where es: "enc (j_logs s) (j_tail s) es" "undo es (pm_mem s) = m0"
    by (auto simp: undo_inv_def)
  let ?s = "s\<lparr>pm_mem := undo es (pm_mem s)\<rparr>"
  have "t \<in> set (states (recover_loop (j_tail s)) s) \<or> t = ?s \<or> t = ?s\<lparr>j_tail := 0\<rparr>"
    using t states_bind [of "recover_loop (j_tail s)" "\<lambda>_. writes [\<lambda>s. s\<lparr>j_tail := 0\<rparr>]" s]
    by (auto simp: recover_def seq_def exec_recover_loop [OF es(1)])
  moreover have "?s = last (states (recover_loop (j_tail s)) s)"
    using exec_final [OF exec_recover_loop [OF es(1)]] by (simp add: last_state)
  ultimately have "t \<in> set (states (recover_loop (j_tail s)) s) \<or> t = ?s\<lparr>j_tail := 0\<rparr>" by auto
  then show "undo_inv m0 t"
  proof
    assume "t \<in> set (states (recover_loop (j_tail s)) s)"
    then obtain m where "t = s\<lparr>pm_mem := m\<rparr>" "undo es m = undo es (pm_mem s)"
      using states_recover_loop [OF es(1) enc_small [OF es(1)] subset_refl] by blast
    then show ?thesis using es by (auto simp: undo_inv_def)
  next
    assume "t = ?s\<lparr>j_tail := 0\<rparr>"
    then show ?thesis using es(2) by (auto simp: undo_inv_def intro!: exI [of _ "[]"])
  qed
next
  fix m0 s
  assume "undo_inv m0 s"
  then obtain es where es: "enc (j_logs s) (j_tail s) es" "undo es (pm_mem s) = m0"
    by (auto simp: undo_inv_def)
  then show "\<exists>b t. exec recover s = Inr (b, t) \<and> pm_mem t = m0 \<and> is_empty t"
    by (simp add: recover_def exec_seq exec_recover_loop is_empty_def)
qed

section \<open>Appending a record\<close>

lemma exec_copy_to_log: "exec (copy_to_log tail obj n) s = Inr ((), s\<lparr>j_logs := \<lambda>i. if tail \<le> i \<and> i < tail + n
    then pm_mem s (obj + of_nat (i - tail)) else j_logs s i\<rparr>)"
  by (simp add: copy_to_log_def exec_writes copy_to_log_fold del: fun_upd_apply)

lemma states_copy_to_log:
  assumes "t \<in> set (states (copy_to_log tail obj n) s)"
  shows "pm_mem t = pm_mem s" "j_tail t = j_tail s" "i < tail \<Longrightarrow> j_logs t i = j_logs s i"
proof -
  obtain k where "k \<le> n" "t = fold (\<lambda>w. w) (take k (map (\<lambda>i s. s\<lparr>j_logs := (j_logs s)(tail + i := pm_mem s (obj + of_nat i))\<rparr>) [0..<n])) s"
    using states_writes assms unfolding copy_to_log_def by fastforce
  then have "t = s\<lparr>j_logs := \<lambda>i. if tail \<le> i \<and> i < tail + k then pm_mem s (obj + of_nat (i - tail)) else j_logs s i\<rparr>"
    using copy_to_log_fold [of tail obj k s] by (simp add: take_map del: fun_upd_apply)
  then show "pm_mem t = pm_mem s" "j_tail t = j_tail s" "i < tail \<Longrightarrow> j_logs t i = j_logs s i" by simp_all
qed

abbreviation object_bytes :: "pm \<Rightarrow> usize \<Rightarrow> usize \<Rightarrow> byte list" where
  "object_bytes s obj sz \<equiv> map (\<lambda>i. pm_mem s (obj + of_nat i)) [0..<unat sz]"

text \<open>A record that fits is appended in front of the others; until the tail moves, the journal
  keeps its old records whatever has been written above the tail.\<close>

lemma append_log_of_spec:
  assumes "enc (j_logs s) (j_tail s) es" "unat sz < 2 ^ 31"
    and "j_tail s + (aligned_size sz + 4 + 4) \<le> JOURNAL_SIZE"
  shows "\<exists>t. exec (append_log_of obj sz) s = Inr ((), t) \<and> pm_mem t = pm_mem s \<and>
    enc (j_logs t) (j_tail t) ((obj, object_bytes s obj sz) # es)"
proof -
  let ?al = "aligned_size sz" and ?tl = "j_tail s" and ?bs = "object_bytes s obj sz"
  let ?f = "\<lambda>i. if ?tl \<le> i \<and> i < ?tl + unat sz then pm_mem s (obj + of_nat (i - ?tl)) else j_logs s i"
  let ?s1 = "s\<lparr>j_logs := ?f\<rparr>"
  let ?s2 = "put_word (?tl + ?al) obj ?s1"
  let ?s3 = "put_word (?tl + ?al + 4) sz ?s2"
  have al: "unat sz \<le> ?al" using aligned_size_ge [OF assms(2)] by simp
  have len: "of_nat (length ?bs) = sz" by simp
  have w1: "get_word (j_logs ?s3) (?tl + ?al) = obj"
    using get_put_word [of "?tl + ?al" obj ?s1] get_word_cong [of "?tl + ?al" "j_logs ?s3" "j_logs ?s2"]
    by (simp add: put_word_frame(1))
  have w2: "get_word (j_logs ?s3) (?tl + ?al + 4) = sz" by (rule get_put_word)
  have frame: "j_logs ?s3 i = ?f i" if "i < ?tl + ?al" for i
    using that by (simp add: put_word_frame(1))
  have "enc (j_logs ?s3) ?tl es"
    using assms(1) enc_cong [of ?tl "j_logs s" "j_logs ?s3" es] frame by auto
  moreover have "\<forall>i<unat sz. j_logs ?s3 (?tl + i) = ?bs ! i" using frame al by auto
  ultimately have "enc (j_logs ?s3) (?tl + (?al + 8)) ((obj, ?bs) # es)"
    using w1 w2 len assms(2) by (simp add: Let_def add.commute add.left_commute)
  then show ?thesis using assms(3)
    by (simp add: append_log_of_def Let_def exec_seq exec_copy_to_log put_word_frame)
qed

lemma append_log_of_states:
  assumes "enc (j_logs s) (j_tail s) es" "unat sz < 2 ^ 31" "t \<in> set (states (append_log_of obj sz) s)"
  shows "pm_mem t = pm_mem s \<and> (enc (j_logs t) (j_tail t) es \<or>
    enc (j_logs t) (j_tail t) ((obj, object_bytes s obj sz) # es))"
proof (cases "j_tail s + (aligned_size sz + 4 + 4) \<le> JOURNAL_SIZE")
  case False
  then show ?thesis using assms(1,3) by (simp add: append_log_of_def Let_def)
next
  case True
  let ?al = "aligned_size sz" and ?tl = "j_tail s"
  let ?ws = "[put_word (?tl + ?al) obj, put_word (?tl + ?al + 4) sz, \<lambda>s. s\<lparr>j_tail := ?tl + (?al + 4 + 4)\<rparr>]"
  let ?c = "copy_to_log ?tl obj (unat sz)"
  have keep: "enc (j_logs u) (j_tail u) es" if "j_tail u = ?tl" "\<And>i. i < ?tl \<Longrightarrow> j_logs u i = j_logs s i" for u
    using that enc_cong [of ?tl "j_logs u" "j_logs s" es] assms(1) by simp
  obtain f where f: "exec (append_log_of obj sz) s = Inr ((), f)" "pm_mem f = pm_mem s"
     "enc (j_logs f) (j_tail f) ((obj, object_bytes s obj sz) # es)"
    using append_log_of_spec [OF assms(1,2) True, of obj] by blast
  obtain u where u: "exec ?c s = Inr ((), u)" by (simp add: exec_copy_to_log)
  then have "u \<in> set (states ?c s)" using last_state [of ?c s] exec_final [OF u] last_in_set [of "states ?c s"] by simp
  note uc = states_copy_to_log [OF this]
  have "t \<in> set (states (seq ?c (writes ?ws)) s)" using assms(3) True by (simp add: append_log_of_def Let_def)
  then have "t \<in> set (states ?c s) \<or> t \<in> set (states (writes ?ws) u)"
    using states_bind [of ?c "\<lambda>_. writes ?ws" s] u by (auto simp: seq_def)
  moreover have "exec (append_log_of obj sz) s = exec (writes ?ws) u"
    using True u by (simp add: append_log_of_def Let_def exec_seq)
  then have "f = (put_word (?tl + ?al + 4) sz (put_word (?tl + ?al) obj u))\<lparr>j_tail := ?tl + (?al + 4 + 4)\<rparr>"
    using f(1) by simp
  ultimately show ?thesis using f uc states_copy_to_log [of t ?tl obj "unat sz" s] keep
    by (auto simp: put_word_frame)
qed

section \<open>Bodies\<close>

lemma body_states:
  assumes "enc (j_logs s) (j_tail s) es" "undo es (pm_mem s) = m0" "disciplined R as"
    and "\<forall>(obj, sz)\<in>R. \<exists>bs. (obj, bs) \<in> set es \<and> length bs = unat sz"
    and "t \<in> set (states (body as) s)"
  shows "undo_inv m0 t"
  using assms
proof (induction as arbitrary: s es R)
  case Nil
  then show ?case by (auto simp: undo_inv_def)
next
  case (Cons a as)
  have t: "t \<in> set (states (act a) s) \<or> (\<exists>u. exec (act a) s = Inr ((), u) \<and> t \<in> set (states (body as) u))"
    using Cons.prems(5) states_bind [of "act a" "\<lambda>_. body as" s] by (auto simp: seq_def split: sum.splits)
  show ?case
  proof (cases a)
    case (AsMut obj sz)
    then have sz: "unat sz < 2 ^ 31" and d: "disciplined (insert (obj, sz) R) as"
      using Cons.prems(3) by auto
    let ?e = "(obj, object_bytes s obj sz)"
    have undo: "undo (?e # es) (pm_mem s) = m0" using Cons.prems(2) by (simp add: write_own_bytes)
    from t show ?thesis
    proof
      assume "t \<in> set (states (act a) s)"
      then show ?thesis using append_log_of_states [OF Cons.prems(1) sz, of t obj] AsMut Cons.prems(2) undo
        by (auto simp: undo_inv_def simp del: enc.simps undo.simps)
    next
      assume "\<exists>u. exec (act a) s = Inr ((), u) \<and> t \<in> set (states (body as) u)"
      then obtain u where u: "exec (append_log_of obj sz) s = Inr ((), u)" "t \<in> set (states (body as) u)"
        using AsMut by auto
      then have fits: "j_tail s + (aligned_size sz + 4 + 4) \<le> JOURNAL_SIZE"
        by (auto simp: append_log_of_def Let_def split: if_splits)
      have "pm_mem u = pm_mem s" "enc (j_logs u) (j_tail u) (?e # es)"
        using append_log_of_spec [OF Cons.prems(1) sz fits, of obj] u(1) by auto
      then show ?thesis using Cons.IH [OF _ _ d _ u(2), of "?e # es"] Cons.prems(4) undo by fastforce
    qed
  next
    case (Store x b)
    then obtain obj sz where R: "(obj, sz) \<in> R" "in_object x obj sz" and d: "disciplined R as"
      using Cons.prems(3) by auto
    then obtain bs where "(obj, bs) \<in> set es" "length bs = unat sz" using Cons.prems(4) by blast
    then have "covers es x" using R(2) by (auto simp: covers_def in_object_def intro!: bexI [of _ "(obj, bs)"])
    then have undo: "undo es ((pm_mem s)(x := b)) = m0"
      using undo_store [OF enc_small [OF Cons.prems(1)]] Cons.prems(2) by simp
    let ?u = "s\<lparr>pm_mem := (pm_mem s)(x := b)\<rparr>"
    have "undo_inv m0 s" "undo_inv m0 ?u"
      using Cons.prems(1,2) undo by (auto simp: undo_inv_def simp del: fun_upd_apply)
    moreover have "t \<in> set (states (body as) ?u) \<Longrightarrow> undo_inv m0 t"
      using Cons.IH [of ?u es R] Cons.prems(1,4) d undo by (simp del: fun_upd_apply)
    ultimately show ?thesis using t Store by (auto simp del: fun_upd_apply)
  qed
qed

text \<open>A body whose records fit into the journal runs to its end and leaves what its stores say.\<close>

primrec journal_need :: "action list \<Rightarrow> nat" where
  "journal_need [] = 0"
| "journal_need (a # as) = (case a of AsMut obj sz \<Rightarrow> aligned_size sz + 4 + 4 | Store x b \<Rightarrow> 0) + journal_need as"

primrec stores :: "action list \<Rightarrow> (usize \<Rightarrow> byte) \<Rightarrow> usize \<Rightarrow> byte" where
  "stores [] m = m"
| "stores (a # as) m = stores as (case a of AsMut obj sz \<Rightarrow> m | Store x b \<Rightarrow> m(x := b))"

lemma append_log_of_tail: "exec (append_log_of obj sz) s = Inr ((), t) \<Longrightarrow> j_tail t = j_tail s + (aligned_size sz + 4 + 4)"
  by (auto simp: append_log_of_def Let_def exec_seq split: if_splits sum.splits)

lemma exec_body:
  assumes "enc (j_logs s) (j_tail s) es" "disciplined R as" "j_tail s + journal_need as \<le> JOURNAL_SIZE"
  shows "\<exists>t. exec (body as) s = Inr ((), t) \<and> pm_mem t = stores as (pm_mem s)"
  using assms
proof (induction as arbitrary: s es R)
  case (Cons a as)
  show ?case
  proof (cases a)
    case (AsMut obj sz)
    then have "unat sz < 2 ^ 31" "j_tail s + (aligned_size sz + 4 + 4) \<le> JOURNAL_SIZE" 
      "disciplined (insert (obj, sz) R) as" using Cons.prems by auto
    moreover then obtain u where "exec (append_log_of obj sz) s = Inr ((), u)" "pm_mem u = pm_mem s"
        "enc (j_logs u) (j_tail u) ((obj, object_bytes s obj sz) # es)"
      using append_log_of_spec [OF Cons.prems(1)] by blast
    ultimately show ?thesis using Cons.IH [of u _ "insert (obj, sz) R"] Cons.prems(3) AsMut append_log_of_tail [of obj sz s u]
      by (auto simp: exec_seq simp del: enc.simps)
  next
    case (Store x b)
    then show ?thesis using Cons.IH [of "s\<lparr>pm_mem := (pm_mem s)(x := b)\<rparr>" es R] Cons.prems
      by (auto simp: exec_seq simp del: fun_upd_apply)
  qed
qed simp

text \<open>Claim C6. The undo journal: a body that takes a mutable reference to an object before it
  stores to it can be cut off anywhere, also in the middle of copying an object to the journal,
  and the recovery can be cut off any number of times; the next complete recovery returns, and
  leaves every byte as it was before the body and an empty journal.\<close>

theorem journal_rolls_back:
  assumes "is_empty s" "disciplined {} as"
  shows "\<exists>t. exec recover (reboots recover ks (crash (body as) k s)) = Inr ((), t) \<and>
    pm_mem t = pm_mem s \<and> is_empty t"
  using journal.survives_reboots [of "body as" s "pm_mem s" ks k]
    body_states [of s "[]" "pm_mem s" "{}" as] assms
  by (simp add: is_empty_def)

definition demo_pm :: pm where
  "demo_pm = \<lparr>pm_mem = (\<lambda>x. ucast x), j_logs = (\<lambda>_. 0), j_tail = 0\<rparr>"

theorem journal_rolls_back_witness:
  "\<exists>t. exec recover (reboots recover [2] (crash (body [AsMut 100 6, Store 103 7, AsMut 200 4, Store 201 1])
      14 demo_pm)) = Inr ((), t) \<and> pm_mem t = pm_mem demo_pm \<and> is_empty t"
  by (rule journal_rolls_back) (simp_all add: is_empty_def demo_pm_def in_object_def)

lemma set_var_body:
  "exec (set_var a bs) s = exec (body (AsMut a (of_nat (length bs)) # map (\<lambda>i. Store (a + of_nat i) (bs ! i)) [0..<length bs])) s"
proof -
  have "body (map (\<lambda>i. Store (a + of_nat i) (bs ! i)) is) =
      writes (map (\<lambda>i s. s\<lparr>pm_mem := (pm_mem s)(a + of_nat i := bs ! i)\<rparr>) is)" for "is" :: "nat list"
    by (induction "is") (simp_all add: seq_simps del: fun_upd_apply)
  then show ?thesis by (simp add: set_var_def)
qed

text \<open>A recovery that is not interrupted undoes the records in the order from the newest
  to the oldest, whatever the memory: the loop ends, and no index leaves the journal.\<close>

theorem recover_undoes:
  assumes "enc (j_logs s) (j_tail s) es"
  shows "exec recover s = Inr ((), s\<lparr>pm_mem := undo es (pm_mem s), j_tail := 0\<rparr>)"
  by (simp add: recover_def exec_seq exec_recover_loop [OF assms])

theorem recover_undoes_witness:
  "\<exists>t. exec (append_log_of 100 3) demo_pm = Inr ((), t) \<and>
    exec recover t = Inr ((), t\<lparr>pm_mem := undo [(100, [100, 101, 102])] (pm_mem t), j_tail := 0\<rparr>)"
proof -
  have al: "aligned_size 3 = 4"
    by (simp add: aligned_size_def arch_addr_align_up_def ARCH_ALIGN_def)
  have "enc (j_logs demo_pm) (j_tail demo_pm) []" by (simp add: demo_pm_def)
  moreover have "j_tail demo_pm + (aligned_size 3 + 4 + 4) \<le> JOURNAL_SIZE"
    by (simp add: al demo_pm_def JOURNAL_SIZE_def)
  ultimately obtain t where t: "exec (append_log_of 100 3) demo_pm = Inr ((), t)"
    "enc (j_logs t) (j_tail t) [(100, object_bytes demo_pm 100 3)]"
    using append_log_of_spec [of demo_pm "[]" 3 100] by auto
  have "object_bytes demo_pm 100 3 = [100, 101, 102]"
    by (simp add: demo_pm_def upt_rec)
  with recover_undoes [OF t(2)] t(1) show ?thesis by simp
qed

end
