(* ===== verification/TxCache.thy ===== *)
theory TxCache
  imports Pmem
begin

text \<open>
  The replay cache of \<open>src/transaction.rs\<close>. A committed transaction leaves its result in a
  byte array; two composite indices, each a transaction number in the low 16 bits and a byte
  offset in the 15 bits above, say how far the results reach (\<open>tail\<close>, with the commit flag in
  its top bit) and how far a replay has got (\<open>ptr\<close>). Storing \<open>tail\<close> commits.
\<close>

definition TX_CACHE_SZ :: nat where
  "TX_CACHE_SZ = 64"

definition TX_COMMITTED :: usize where
  "TX_COMMITTED = 0x80000000"

definition TX_CACHE_PTR_MASK :: usize where
  "TX_CACHE_PTR_MASK = 0x7FFF0000"

definition TX_CACHE_PTR_SHIFT :: nat where
  "TX_CACHE_PTR_SHIFT = 16"

definition TX_ID_PTR_MASK :: usize where
  "TX_ID_PTR_MASK = 0xFFFF"

record txc =
  c_bytes :: "nat \<Rightarrow> byte"
  c_ptr :: usize
  c_tail :: usize

definition txc_init :: "txc \<Rightarrow> txc" where
  "txc_init c = c\<lparr>c_ptr := 0, c_tail := 0\<rparr>"

definition is_committed :: "txc \<Rightarrow> bool" where
  "is_committed c \<longleftrightarrow> (c_tail c AND TX_COMMITTED) = TX_COMMITTED"

definition reset_ptr :: "txc \<Rightarrow> txc" where
  "reset_ptr c = c\<lparr>c_ptr := 0\<rparr>"

definition commit_reset_tail :: "txc \<Rightarrow> txc" where
  "commit_reset_tail c = c\<lparr>c_tail := TX_COMMITTED\<rparr>"

definition commit_no_replay :: "txc \<Rightarrow> txc" where
  "commit_no_replay c = c\<lparr>c_tail := c_tail c OR TX_COMMITTED\<rparr>"

definition clear_commit_flag :: "txc \<Rightarrow> txc" where
  "clear_commit_flag c = c\<lparr>c_tail := c_tail c AND NOT TX_COMMITTED\<rparr>"

definition tx_id :: "usize \<Rightarrow> usize" where
  "tx_id w = w AND TX_ID_PTR_MASK"

definition tx_cache_ptr :: "usize \<Rightarrow> usize" where
  "tx_cache_ptr w = drop_bit TX_CACHE_PTR_SHIFT (w AND TX_CACHE_PTR_MASK)"

abbreviation get_tx_id_of_tail :: "txc \<Rightarrow> usize" where
  "get_tx_id_of_tail c \<equiv> tx_id (c_tail c)"

abbreviation get_tx_id_of_ptr :: "txc \<Rightarrow> usize" where
  "get_tx_id_of_ptr c \<equiv> tx_id (c_ptr c)"

definition advance_composite_id :: "usize \<Rightarrow> usize \<Rightarrow> usize \<Rightarrow> usize" where
  "advance_composite_id txid cache_ptr sz =
     (txid + 1) OR push_bit TX_CACHE_PTR_SHIFT (cache_ptr + sz)"

definition commit_no_ret_value :: "(txc, unit) prog" where
  "commit_no_ret_value = writes
     [\<lambda>c. c\<lparr>c_tail := (c_tail c + 1) OR TX_COMMITTED\<rparr>, \<lambda>c. c\<lparr>c_ptr := c_ptr c + 1\<rparr>]"

text \<open>The copy of a result of \<open>n\<close> bytes to offset \<open>p\<close>: only the first index is checked.\<close>

definition put_bytes :: "nat \<Rightarrow> byte list \<Rightarrow> (txc, unit) prog" where
  "put_bytes p bs =
     writes (map (\<lambda>i c. c\<lparr>c_bytes := (c_bytes c)(p + i := bs ! i)\<rparr>) [0..<length bs])"

definition cache_result :: "byte list \<Rightarrow> (txc, unit) prog" where
  "cache_result bs = (if bs = [] then commit_no_ret_value else Read (\<lambda>c.
     let p = tx_cache_ptr (c_tail c); adv = advance_composite_id (tx_id (c_tail c)) p (of_nat (length bs)) in
     if TX_CACHE_SZ \<le> unat p then Fail Panic
     else if TX_CACHE_SZ < unat p + length bs then Fail Undefined
     else seq (put_bytes (unat p) bs)
       (writes [\<lambda>c. c\<lparr>c_tail := adv OR TX_COMMITTED\<rparr>, \<lambda>c. c\<lparr>c_ptr := adv\<rparr>])))"

definition try_retrieve_result :: "nat \<Rightarrow> (txc, unit + byte list) prog" where
  "try_retrieve_result n = Read (\<lambda>c.
     if tx_id (c_ptr c) < tx_id (c_tail c) then
       (if n > 0 then
          (let p = tx_cache_ptr (c_ptr c) in
           if TX_CACHE_SZ \<le> unat p then Fail Panic
           else if TX_CACHE_SZ < unat p + n then Fail Undefined
           else Write (\<lambda>c. c\<lparr>c_ptr := advance_composite_id (tx_id (c_ptr c)) p (of_nat n)\<rparr>)
             (Return (Inr (map (\<lambda>i. c_bytes c (unat p + i)) [0..<n]))))
        else Write (\<lambda>c. c\<lparr>c_ptr := c_ptr c + 1\<rparr>) (Return (Inr [])))
     else Return (Inl ()))"

section \<open>The composite indices\<close>

text \<open>Transaction number \<open>i\<close>, offset \<open>c\<close>, and the commit flag.\<close>

definition composite :: "nat \<Rightarrow> nat \<Rightarrow> usize" where
  "composite i c = of_nat (i + 65536 * c)"

definition flagged :: "bool \<Rightarrow> usize \<Rightarrow> usize" where
  "flagged b w = (if b then w OR TX_COMMITTED else w)"

lemma bit_TX_COMMITTED [simp]: "bit TX_COMMITTED n \<longleftrightarrow> n = 31"
proof -
  have c: "TX_COMMITTED = push_bit 31 1" by (simp add: TX_COMMITTED_def)
  show ?thesis unfolding c bit_push_bit_iff by (auto simp: bit_1_iff)
qed

lemma and_committed: "(w AND TX_COMMITTED) = TX_COMMITTED \<longleftrightarrow> bit w 31"
proof
  assume "(w AND TX_COMMITTED) = TX_COMMITTED"
  then have "bit (w AND TX_COMMITTED) 31 = bit TX_COMMITTED 31" by simp
  then show "bit w 31" by (simp add: bit_and_iff)
qed (auto intro!: bit_word_eqI simp: bit_and_iff)

lemma tx_id_take_bit: "tx_id w = take_bit 16 w"
  by (simp add: tx_id_def TX_ID_PTR_MASK_def take_bit_eq_mask mask_eq_exp_minus_1)

lemma tx_cache_ptr_take_bit: "tx_cache_ptr w = take_bit 15 (drop_bit 16 w)"
proof -
  have m: "TX_CACHE_PTR_MASK = push_bit 16 (mask 15)"
    by (simp add: TX_CACHE_PTR_MASK_def mask_eq_exp_minus_1)
  show ?thesis unfolding tx_cache_ptr_def TX_CACHE_PTR_SHIFT_def m
    by (rule bit_word_eqI) (auto simp: bit_simps)
qed

lemma tx_id_flagged [simp]: "tx_id (flagged b w) = tx_id w"
  unfolding tx_id_take_bit flagged_def by (auto intro!: bit_word_eqI simp: bit_simps)

lemma tx_cache_ptr_flagged [simp]: "tx_cache_ptr (flagged b w) = tx_cache_ptr w"
  unfolding tx_cache_ptr_take_bit flagged_def by (auto intro!: bit_word_eqI simp: bit_simps)

lemma unat_composite: "i < 65536 \<Longrightarrow> c < 32768 \<Longrightarrow> unat (composite i c) = i + 65536 * c"
  unfolding composite_def by (rule unat_of_nat_small) simp

lemma tx_id_composite: "i < 65536 \<Longrightarrow> c < 32768 \<Longrightarrow> tx_id (composite i c) = of_nat i"
  unfolding tx_id_take_bit word_unat_eq_iff unsigned_take_bit_eq
  using unat_of_nat_small [of i] by (simp add: unat_composite take_bit_eq_mod del: take_bit_of_nat)

lemma tx_cache_ptr_composite: "i < 65536 \<Longrightarrow> c < 32768 \<Longrightarrow> tx_cache_ptr (composite i c) = of_nat c"
  unfolding tx_cache_ptr_take_bit word_unat_eq_iff unsigned_take_bit_eq unsigned_drop_bit_eq
  using unat_of_nat_small [of c]
  by (simp add: unat_composite take_bit_eq_mod drop_bit_eq_div del: take_bit_of_nat)

lemma composite_not_flagged: "i < 65536 \<Longrightarrow> c < 32768 \<Longrightarrow> \<not> bit (composite i c) 31"
proof -
  assume "i < 65536" "c < 32768"
  then have "unat (drop_bit 31 (composite i c)) = 0"
    unfolding unsigned_drop_bit_eq
    by (simp add: unat_composite drop_bit_eq_div take_bit_nat_eq_self del: take_bit_of_nat)
  then have "drop_bit 31 (composite i c) = 0" by (simp only: unat_eq_0)
  then show "\<not> bit (composite i c) 31" by (simp add: bit_iff_odd_drop_bit)
qed

lemma composite_Suc: "composite i c + 1 = composite (Suc i) c"
  by (simp add: composite_def)

lemma advance_composite:
  assumes "Suc i < 65536" "c + n < 32768"
  shows "advance_composite_id (of_nat i) (of_nat c) (of_nat n) = composite (Suc i) (c + n)"
proof -
  let ?a = "of_nat (Suc i) :: usize" and ?b = "push_bit 16 (of_nat (c + n)) :: usize"
  have "take_bit 16 ?a = ?a" using assms(1) unat_of_nat_small [of "Suc i"]
    by (simp add: word_unat_eq_iff unsigned_take_bit_eq take_bit_nat_eq_self del: of_nat_Suc take_bit_of_nat)
  then have a: "bit ?a m \<Longrightarrow> m < 16" for m by (metis bit_take_bit_iff)
  have "?a AND ?b = 0"
    by (rule bit_word_eqI) (auto simp: bit_and_iff bit_push_bit_iff simp del: of_nat_Suc of_nat_add dest: a)
  then have "?a OR ?b = ?a + ?b" by (simp add: disjunctive_add_eq_or)
  then show ?thesis
    by (simp add: advance_composite_id_def TX_CACHE_PTR_SHIFT_def composite_def push_bit_eq_mult algebra_simps)
qed

lemma clear_flag: "\<not> bit w 31 \<Longrightarrow> flagged b w AND NOT TX_COMMITTED = w"
  by (rule bit_word_eqI) (auto simp: flagged_def bit_simps)

lemma flagged_True: "flagged b w OR TX_COMMITTED = flagged True w"
  by (rule bit_word_eqI) (auto simp: flagged_def bit_simps)

lemma is_committed_flagged: "\<not> bit w 31 \<Longrightarrow> c_tail c = flagged b w \<Longrightarrow> is_committed c \<longleftrightarrow> b"
  by (auto simp: is_committed_def and_committed flagged_def bit_simps)

section \<open>The cache as a list of results\<close>

text \<open>\<open>holds rs b c\<close>: the results of the transactions committed so far are \<open>rs\<close>, and the commit flag
  is \<open>b\<close>. \<open>replayed ps c\<close>: a replay has consumed the results \<open>ps\<close>. \<open>cacheable rs\<close>: they fit.\<close>

definition holds :: "byte list list \<Rightarrow> bool \<Rightarrow> txc \<Rightarrow> bool" where
  "holds rs b c \<longleftrightarrow> c_tail c = flagged b (composite (length rs) (length (concat rs))) \<and>
     (\<forall>k<length (concat rs). c_bytes c k = concat rs ! k)"

definition replayed :: "byte list list \<Rightarrow> txc \<Rightarrow> bool" where
  "replayed ps c \<longleftrightarrow> c_ptr c = composite (length ps) (length (concat ps))"

definition cacheable :: "byte list list \<Rightarrow> bool" where
  "cacheable rs \<longleftrightarrow> length rs < 65536 \<and> length (concat rs) \<le> TX_CACHE_SZ"

lemma cacheable_append: "cacheable (ps @ qs) \<Longrightarrow> cacheable ps"
  by (simp add: cacheable_def)

lemma cacheable_bounds: "cacheable rs \<Longrightarrow> length rs < 65536 \<and> length (concat rs) < 32768"
  by (simp add: cacheable_def TX_CACHE_SZ_def)

lemma holds_committed: "cacheable rs \<Longrightarrow> holds rs b c \<Longrightarrow> is_committed c \<longleftrightarrow> b"
  using cacheable_bounds [of rs] is_committed_flagged [OF composite_not_flagged]
  by (auto simp: holds_def)

lemma holds_clear: "cacheable rs \<Longrightarrow> holds rs b c \<Longrightarrow> holds rs False (clear_commit_flag c)"
  using cacheable_bounds [of rs] clear_flag [OF composite_not_flagged]
  by (auto simp: holds_def clear_commit_flag_def flagged_def)

lemma holds_commit_no_replay: "holds rs b c \<Longrightarrow> holds rs True (commit_no_replay c)"
  by (auto simp: holds_def commit_no_replay_def flagged_True)

lemma holds_init: "holds [] False (txc_init c)" "replayed [] (txc_init c)" "replayed [] (reset_ptr c)"
  by (auto simp: holds_def replayed_def txc_init_def reset_ptr_def flagged_def composite_def)

lemma holds_ptr [simp]: "holds rs b (c\<lparr>c_ptr := p\<rparr>) = holds rs b c"
  by (simp add: holds_def)

lemma holds_reset_ptr [simp]: "holds rs b (reset_ptr c) = holds rs b c"
  by (simp add: reset_ptr_def)

lemma tx_fields:
  assumes "cacheable rs"
  shows "tx_id (composite (length rs) (length (concat rs))) = of_nat (length rs)"
    and "tx_cache_ptr (composite (length rs) (length (concat rs))) = of_nat (length (concat rs))"
  using cacheable_bounds [OF assms] by (simp_all add: tx_id_composite tx_cache_ptr_composite)

lemma tx_ids_less:
  assumes "cacheable (ps @ qs)"
  shows "(of_nat (length ps) :: usize) < of_nat (length (ps @ qs)) \<longleftrightarrow> qs \<noteq> []"
  using assms unat_of_nat_small [of "length ps"] unat_of_nat_small [of "length (ps @ qs)"]
  by (simp add: cacheable_def word_less_nat_alt del: of_nat_add)

text \<open>Replaying: the results come back in the order in which they were committed, and when all have been
  handed out the cache says so.\<close>

lemma retrieve_next:
  assumes "cacheable (ps @ r # qs)" "holds (ps @ r # qs) b c" "replayed ps c"
  shows "\<exists>p. exec (try_retrieve_result (length r)) c = Inr (Inr r, c\<lparr>c_ptr := p\<rparr>) \<and>
    replayed (ps @ [r]) (c\<lparr>c_ptr := p\<rparr>)"
proof -
  let ?i = "length ps" and ?c = "length (concat ps)"
  have f: "tx_id (c_ptr c) = of_nat ?i" "tx_cache_ptr (c_ptr c) = of_nat ?c"
     "tx_id (c_tail c) = of_nat (length (ps @ r # qs))"
    using assms tx_fields [OF cacheable_append [OF assms(1)]] tx_fields [OF assms(1)]
    by (simp_all only: replayed_def holds_def tx_id_flagged)
  have fits: "?c + length r \<le> TX_CACHE_SZ" "Suc ?i < 65536"
    using assms(1) by (simp_all add: cacheable_def)
  then have p: "unat (of_nat ?c :: usize) = ?c"
    by (intro unat_of_nat_small) (simp add: TX_CACHE_SZ_def)
  have adv: "advance_composite_id (of_nat ?i) (of_nat ?c) (of_nat (length r)) = composite (Suc ?i) (?c + length r)"
    using fits by (intro advance_composite) (simp_all add: TX_CACHE_SZ_def)
  have "map (\<lambda>i. c_bytes c (?c + i)) [0..<length r] = r"
    using assms(2) by (intro nth_equalityI) (auto simp: holds_def nth_append)
  moreover have "composite ?i ?c + 1 = composite (Suc ?i) ?c" by (rule composite_Suc)
  ultimately show ?thesis
    using f p adv fits tx_ids_less [OF assms(1)] assms(3)
    by (cases r) (auto simp: try_retrieve_result_def replayed_def simp del: of_nat_Suc of_nat_add)
qed

lemma retrieve_none:
  assumes "cacheable rs" "holds rs b c" "replayed rs c"
  shows "exec (try_retrieve_result n) c = Inr (Inl (), c)" "states (try_retrieve_result n) c = [c]"
  using assms tx_fields [OF assms(1)]
  by (simp_all add: try_retrieve_result_def holds_def replayed_def)

lemma put_bytes_fold:
  "fold (\<lambda>w. w) (map (\<lambda>i c. c\<lparr>c_bytes := (c_bytes c)(p + i := bs ! i)\<rparr>) [0..<k]) c =
   c\<lparr>c_bytes := \<lambda>i. if p \<le> i \<and> i < p + k then bs ! (i - p) else c_bytes c i\<rparr>"
proof (induction k)
  case 0
  have "(\<lambda>i. if p \<le> i \<and> i < p + 0 then bs ! (i - p) else c_bytes c i) = c_bytes c"
    by (auto simp: fun_eq_iff)
  then show ?case by simp
next
  case (Suc k)
  have "(\<lambda>i. if p \<le> i \<and> i < p + k then bs ! (i - p) else c_bytes c i)(p + k := bs ! k) =
    (\<lambda>i. if p \<le> i \<and> i < p + Suc k then bs ! (i - p) else c_bytes c i)"
    by (auto simp: fun_eq_iff)
  then show ?case using Suc by (simp del: fun_upd_apply)
qed

lemma exec_put_bytes: "exec (put_bytes p bs) c =
   Inr ((), c\<lparr>c_bytes := \<lambda>i. if p \<le> i \<and> i < p + length bs then bs ! (i - p) else c_bytes c i\<rparr>)"
  by (simp add: put_bytes_def exec_writes put_bytes_fold del: fun_upd_apply)

lemma states_put_bytes:
  assumes "t \<in> set (states (put_bytes p bs) c)"
  shows "c_tail t = c_tail c" "c_ptr t = c_ptr c" "i < p \<Longrightarrow> c_bytes t i = c_bytes c i"
proof -
  obtain k where "k \<le> length bs" "t = fold (\<lambda>w. w)
      (take k (map (\<lambda>i c. c\<lparr>c_bytes := (c_bytes c)(p + i := bs ! i)\<rparr>) [0..<length bs])) c"
    using states_writes assms unfolding put_bytes_def by fastforce
  then have "t = c\<lparr>c_bytes := \<lambda>i. if p \<le> i \<and> i < p + k then bs ! (i - p) else c_bytes c i\<rparr>"
    using put_bytes_fold [of p bs k c] by (simp add: take_map del: fun_upd_apply)
  then show "c_tail t = c_tail c" "c_ptr t = c_ptr c" "i < p \<Longrightarrow> c_bytes t i = c_bytes c i" by simp_all
qed

lemma holds_cong:
  "c_tail t = c_tail c \<Longrightarrow> (\<And>i. i < length (concat rs) \<Longrightarrow> c_bytes t i = c_bytes c i) \<Longrightarrow>
   holds rs b c \<Longrightarrow> holds rs b t"
  by (simp add: holds_def)

text \<open>What caching a result does, and what a power failure during it leaves: the store to the tail is the
  commit point.\<close>

lemma cache_result_spec:
  assumes "cacheable (rs @ [r])" "holds rs False c" "replayed rs c"
  shows "\<exists>c'. exec (cache_result r) c = Inr ((), c') \<and> holds (rs @ [r]) True c' \<and> replayed (rs @ [r]) c'"
    and "t \<in> set (states (cache_result r) c) \<Longrightarrow> holds rs False t \<or> holds (rs @ [r]) True t"
proof -
  let ?i = "length rs" and ?n = "length (concat rs)"
  have fits: "?n + length r \<le> TX_CACHE_SZ" "Suc ?i < 65536"
    using assms(1) by (simp_all add: cacheable_def)
  have f: "tx_id (c_tail c) = of_nat ?i" "tx_cache_ptr (c_tail c) = of_nat ?n"
     "c_tail c = composite ?i ?n" "c_ptr c = composite ?i ?n"
    using assms tx_fields [OF cacheable_append [OF assms(1)]]
    by (simp_all add: replayed_def holds_def flagged_def)
  have p: "unat (of_nat ?n :: usize) = ?n" using fits by (intro unat_of_nat_small) (simp add: TX_CACHE_SZ_def)
  have adv: "advance_composite_id (of_nat ?i) (of_nat ?n) (of_nat (length r)) = composite (Suc ?i) (?n + length r)"
    using fits by (intro advance_composite) (simp_all add: TX_CACHE_SZ_def)
  have g: "(\<exists>c'. exec (cache_result r) c = Inr ((), c') \<and> holds (rs @ [r]) True c' \<and> replayed (rs @ [r]) c') \<and>
    (\<forall>t \<in> set (states (cache_result r) c). holds rs False t \<or> holds (rs @ [r]) True t)"
  proof (cases "r = []")
    case True
    then show ?thesis using f assms(2) composite_Suc [of ?i ?n]
      by (simp add: cache_result_def commit_no_ret_value_def holds_def replayed_def flagged_def)
  next
    case False
    let ?put = "put_bytes ?n r"
    let ?ws = "[\<lambda>c. c\<lparr>c_tail := composite (Suc ?i) (?n + length r) OR TX_COMMITTED\<rparr>,
      \<lambda>c. c\<lparr>c_ptr := composite (Suc ?i) (?n + length r)\<rparr>]"
    let ?c1 = "c\<lparr>c_bytes := \<lambda>i. if ?n \<le> i \<and> i < ?n + length r then r ! (i - ?n) else c_bytes c i\<rparr>"
    let ?c2 = "?c1\<lparr>c_tail := composite (Suc ?i) (?n + length r) OR TX_COMMITTED\<rparr>"
    have "TX_CACHE_SZ > ?n" using fits False by (cases r) auto
    then have run: "exec (cache_result r) c = exec (seq ?put (writes ?ws)) c"
       "states (cache_result r) c = states (seq ?put (writes ?ws)) c"
      using False f p adv fits by (simp_all add: cache_result_def Let_def del: writes.simps)
    have h1: "holds rs False ?c1" using assms(2) by (rule holds_cong [rotated 2]) auto
    have h2: "holds (rs @ [r]) True ?c2" using assms(2) by (auto simp: holds_def flagged_def nth_append)
    have "holds rs False t" if "t \<in> set (states ?put c)" for t
      using states_put_bytes [OF that] assms(2) by (blast intro: holds_cong)
    moreover have "set (states (seq ?put (writes ?ws)) c) \<subseteq>
        set (states ?put c) \<union> {?c1, ?c2, ?c2\<lparr>c_ptr := composite (Suc ?i) (?n + length r)\<rparr>}"
      using states_bind [of ?put "\<lambda>_. writes ?ws" c] by (simp add: seq_def exec_put_bytes)
    ultimately show ?thesis using h1 h2 run
      by (auto simp: exec_seq exec_put_bytes replayed_def simp del: fun_upd_apply)
  qed
  from g show "\<exists>c'. exec (cache_result r) c = Inr ((), c') \<and> holds (rs @ [r]) True c' \<and> replayed (rs @ [r]) c'"
    by blast
  from g show "t \<in> set (states (cache_result r) c) \<Longrightarrow> holds rs False t \<or> holds (rs @ [r]) True t" by blast
qed

end
