(* ===== verification/Transaction.thy ===== *)
theory Transaction
  imports TxCache
begin

text \<open>
  Transactions (\<open>src/transaction.rs\<close>): a journal that undoes and a cache that commits. The
  nesting counter exists only in debug builds and is left out. A transaction body is any program on
  the journalled memory; its result is the list of the bytes of the value it returns.
\<close>

section \<open>The transaction object\<close>

record txs =
  t_pm :: pm
  t_cache :: txc

definition on_pm :: "(pm, 'a) prog \<Rightarrow> (txs, 'a) prog" where
  "on_pm p = lift t_pm (\<lambda>m s. s\<lparr>t_pm := m\<rparr>) p"

definition on_cache :: "(txc, 'a) prog \<Rightarrow> (txs, 'a) prog" where
  "on_cache p = lift t_cache (\<lambda>c s. s\<lparr>t_cache := c\<rparr>) p"

abbreviation clear_journal :: "(txs, unit) prog" where
  "clear_journal \<equiv> on_pm (writes [clear])"

definition begin_tx :: "(txs, unit) prog" where
  "begin_tx = on_cache (writes [clear_commit_flag])"

definition commit_tx :: "byte list \<Rightarrow> (txs, unit) prog" where
  "commit_tx res = seq (on_cache (cache_result res)) clear_journal"

definition commit_no_replay_tx :: "(txs, unit) prog" where
  "commit_no_replay_tx = seq (on_cache (writes [commit_no_replay])) clear_journal"

definition commit_no_replay_roll_forward :: "(txs, unit) prog" where
  "commit_no_replay_roll_forward = seq clear_journal (on_cache (writes [commit_no_replay]))"

definition check_committed :: "(txs, bool) prog" where
  "check_committed = Read (\<lambda>s.
     if \<not> is_committed (t_cache s) then Return False else seq clear_journal (Return True))"

definition roll_back_tx :: "(txs, unit) prog" where
  "roll_back_tx = on_pm recover"

definition roll_back_if_uncommitted :: "(txs, unit) prog" where
  "roll_back_if_uncommitted = bind check_committed (\<lambda>ok. if ok then Halt else roll_back_tx)"

definition try_run :: "(byte list \<Rightarrow> bool) \<Rightarrow> (pm, byte list) prog \<Rightarrow> (txs, byte list) prog" where
  "try_run is_TxRetry f = seq begin_tx (bind (on_pm f) (\<lambda>ret.
     seq (if is_TxRetry ret then commit_no_replay_tx else commit_tx ret) (Return ret)))"

definition run :: "(pm, byte list) prog \<Rightarrow> (txs, byte list) prog" where
  "run f = seq begin_tx (bind (on_pm f) (\<lambda>ret. seq (commit_tx ret) (Return ret)))"

definition fast_run :: "(pm, byte list) prog \<Rightarrow> (txs, byte list) prog" where
  "fast_run f = seq begin_tx (bind (on_pm f) (\<lambda>ret. seq (on_cache (cache_result ret)) (Return ret)))"

definition run_no_replay :: "(pm, 'a) prog \<Rightarrow> (txs, 'a) prog" where
  "run_no_replay f = seq begin_tx (bind (on_pm f) (\<lambda>ret. seq commit_no_replay_tx (Return ret)))"

definition run_or_replay :: "nat \<Rightarrow> (txs, byte list) prog \<Rightarrow> (txs, byte list) prog" where
  "run_or_replay n p = bind (on_cache (try_retrieve_result n)) (\<lambda>r. case r of Inr bs \<Rightarrow> Return bs | Inl _ \<Rightarrow> p)"

definition try_run_relaxed :: "(byte list \<Rightarrow> bool) \<Rightarrow> nat \<Rightarrow> (pm, byte list) prog \<Rightarrow> (txs, byte list) prog" where
  "try_run_relaxed is_TxRetry n f = run_or_replay n (try_run is_TxRetry f)"

definition run_relaxed :: "nat \<Rightarrow> (pm, byte list) prog \<Rightarrow> (txs, byte list) prog" where
  "run_relaxed n f = run_or_replay n (run f)"

definition fast_run_relaxed :: "nat \<Rightarrow> (pm, byte list) prog \<Rightarrow> (txs, byte list) prog" where
  "fast_run_relaxed n f = run_or_replay n (fast_run f)"

section \<open>Booting\<close>

record boot =
  b_tx :: txs
  b_done :: bool

definition on_tx :: "(txs, 'a) prog \<Rightarrow> (boot, 'a) prog" where
  "on_tx p = lift b_tx (\<lambda>m s. s\<lparr>b_tx := m\<rparr>) p"

definition recover_boot :: "(boot, unit) prog" where
  "recover_boot = Read (\<lambda>s. if \<not> b_done s then on_tx roll_back_if_uncommitted else Halt)"

definition idempotent_boot :: "(txs, 'a) prog \<Rightarrow> (boot, unit) prog" where
  "idempotent_boot f = Read (\<lambda>s. if b_done s then Halt
     else seq (on_tx (on_cache (writes [reset_ptr])))
       (seq (on_tx f) (writes [\<lambda>s. s\<lparr>b_done := True\<rparr>])))"

interpretation pm_lens: lens t_pm "\<lambda>m s. s\<lparr>t_pm := m\<rparr>"
  by unfold_locales simp_all

interpretation cache_lens: lens t_cache "\<lambda>c s. s\<lparr>t_cache := c\<rparr>"
  by unfold_locales simp_all

interpretation tx_lens: lens b_tx "\<lambda>t s. s\<lparr>b_tx := t\<rparr>"
  by unfold_locales simp_all

lemmas tx_lift = on_pm_def on_cache_def on_tx_def pm_lens.exec_lift pm_lens.states_lift
  cache_lens.exec_lift cache_lens.states_lift tx_lens.exec_lift tx_lens.states_lift

section \<open>A transaction is atomic\<close>

text \<open>The possible memories around a transaction with result \<open>r\<close> that takes memory \<open>m0\<close> to \<open>m1\<close>, when
  \<open>rs\<close> are the results committed before it.\<close>

type_synonym tx_change = "byte list list \<times> byte list \<times> (usize \<Rightarrow> byte) \<times> (usize \<Rightarrow> byte)"

fun tx_inv :: "tx_change \<Rightarrow> txs \<Rightarrow> bool" where
  "tx_inv (rs, r, m0, m1) s \<longleftrightarrow> cacheable (rs @ [r]) \<and>
     (holds rs False (t_cache s) \<and> undo_inv m0 (t_pm s) \<or>
      holds rs True (t_cache s) \<and> pm_mem (t_pm s) = m0 \<or>
      holds (rs @ [r]) True (t_cache s) \<and> pm_mem (t_pm s) = m1)"

fun tx_done :: "tx_change \<Rightarrow> txs \<Rightarrow> bool" where
  "tx_done (rs, r, m0, m1) s \<longleftrightarrow> is_empty (t_pm s) \<and>
     ((\<exists>b. holds rs b (t_cache s)) \<and> pm_mem (t_pm s) = m0 \<or>
      holds (rs @ [r]) True (t_cache s) \<and> pm_mem (t_pm s) = m1)"

lemma recovery_committed:
  assumes "is_committed (t_cache s)"
  shows "exec roll_back_if_uncommitted s = Inr ((), s\<lparr>t_pm := clear (t_pm s)\<rparr>)"
    and "states roll_back_if_uncommitted s = [s, s\<lparr>t_pm := clear (t_pm s)\<rparr>]"
  using assms by (simp_all add: roll_back_if_uncommitted_def check_committed_def on_pm_def seq_simps)

lemma recovery_uncommitted:
  assumes "\<not> is_committed (t_cache s)"
  shows "exec roll_back_if_uncommitted s = exec (on_pm recover) s"
    and "states roll_back_if_uncommitted s = states (on_pm recover) s"
  using assms by (simp_all add: roll_back_if_uncommitted_def check_committed_def roll_back_tx_def)

interpretation txn: roll_back tx_inv "\<lambda>_. roll_back_if_uncommitted" tx_done
proof
  fix x s t
  assume inv: "tx_inv x s" and t: "t \<in> set (states roll_back_if_uncommitted s)"
  obtain rs r m0 m1 where x: "x = (rs, r, m0, m1)" by (metis prod_cases4)
  have fit: "cacheable rs" "cacheable (rs @ [r])" using inv x cacheable_append by auto
  show "tx_inv x t"
  proof (cases "is_committed (t_cache s)")
    case True
    then show ?thesis using inv t x fit holds_committed by (auto simp: recovery_committed clear_def)
  next
    case False
    then have "holds rs False (t_cache s)" "undo_inv m0 (t_pm s)"
      using inv x fit holds_committed by auto
    then show ?thesis using t x fit False journal.recovery_states
      by (auto simp: recovery_uncommitted tx_lift)
  qed
next
  fix x s
  assume inv: "tx_inv x s"
  obtain rs r m0 m1 where x: "x = (rs, r, m0, m1)" by (metis prod_cases4)
  have fit: "cacheable rs" "cacheable (rs @ [r])" using inv x cacheable_append by auto
  show "\<exists>b t. exec roll_back_if_uncommitted s = Inr (b, t) \<and> tx_done x t"
  proof (cases "is_committed (t_cache s)")
    case True
    then show ?thesis using inv x fit holds_committed
      by (auto simp: recovery_committed clear_def is_empty_def)
  next
    case False
    then have h: "holds rs False (t_cache s)" "undo_inv m0 (t_pm s)"
      using inv x fit holds_committed by auto
    then show ?thesis using x False journal.recovery_ends [OF h(2)]
      by (auto simp: recovery_uncommitted tx_lift)
  qed
qed

text \<open>What a transaction asks of the bodies it runs: started on an empty journal a body \<open>f x\<close> returns
  \<open>res x\<close> and has the effect \<open>eff x\<close>, and wherever it is cut off the journal still leads back.\<close>

locale undoable =
  fixes f :: "'x \<Rightarrow> (pm, byte list) prog"
    and ok :: "'x \<Rightarrow> bool"
    and res :: "'x \<Rightarrow> (usize \<Rightarrow> byte) \<Rightarrow> byte list"
    and eff :: "'x \<Rightarrow> (usize \<Rightarrow> byte) \<Rightarrow> usize \<Rightarrow> byte"
  assumes returns: "ok x \<Longrightarrow> is_empty s \<Longrightarrow>
      \<exists>t. exec (f x) s = Inr (res x (pm_mem s), t) \<and> pm_mem t = eff x (pm_mem s)"
    and leads_back: "ok x \<Longrightarrow> is_empty s \<Longrightarrow> t \<in> set (states (f x) s) \<Longrightarrow> undo_inv (pm_mem s) t"
begin

lemma run_spec:
  assumes "ok x" "is_empty (t_pm s)" "holds rs b (t_cache s)" "replayed rs (t_cache s)"
    and "cacheable (rs @ [res x (pm_mem (t_pm s))])"
  shows "\<exists>t. exec (run (f x)) s = Inr (res x (pm_mem (t_pm s)), t) \<and> is_empty (t_pm t) \<and>
     pm_mem (t_pm t) = eff x (pm_mem (t_pm s)) \<and>
     holds (rs @ [res x (pm_mem (t_pm s))]) True (t_cache t) \<and>
     replayed (rs @ [res x (pm_mem (t_pm s))]) (t_cache t)"
    and "t \<in> set (states (run (f x)) s) \<Longrightarrow>
      tx_inv (rs, res x (pm_mem (t_pm s)), pm_mem (t_pm s), eff x (pm_mem (t_pm s))) t"
proof -
  let ?r = "res x (pm_mem (t_pm s))" and ?m0 = "pm_mem (t_pm s)" and ?m1 = "eff x (pm_mem (t_pm s))"
  let ?c = "clear_commit_flag (t_cache s)"
  have c: "holds rs False ?c" "replayed rs ?c"
    using holds_clear [OF cacheable_append [OF assms(5)] assms(3)] assms(4)
    by (simp_all add: replayed_def clear_commit_flag_def)
  obtain p where p: "exec (f x) (t_pm s) = Inr (?r, p)" "pm_mem p = ?m1"
    using returns [OF assms(1,2)] by blast
  obtain c' where c': "exec (cache_result ?r) ?c = Inr ((), c')" "holds (rs @ [?r]) True c'"
      "replayed (rs @ [?r]) c'"
    using cache_result_spec(1) [OF assms(5) c] by blast
  let ?s1 = "s\<lparr>t_cache := ?c\<rparr>" and ?s2 = "s\<lparr>t_cache := ?c, t_pm := p\<rparr>"
  let ?s3 = "s\<lparr>t_cache := c', t_pm := p\<rparr>"
  have b: "exec begin_tx s = Inr ((), ?s1)" "states begin_tx s = [s, ?s1]"
    by (simp_all add: begin_tx_def tx_lift)
  have f: "exec (on_pm (f x)) ?s1 = Inr (?r, ?s2)" using p by (simp add: tx_lift)
  have k: "exec (on_cache (cache_result ?r)) ?s2 = Inr ((), ?s3)" using c' by (simp add: tx_lift)
  have cj: "exec clear_journal ?s3 = Inr ((), ?s3\<lparr>t_pm := clear p\<rparr>)"
     "states clear_journal ?s3 = [?s3, ?s3\<lparr>t_pm := clear p\<rparr>]" by (simp_all add: tx_lift)
  show "\<exists>t. exec (run (f x)) s = Inr (?r, t) \<and> is_empty (t_pm t) \<and>
     pm_mem (t_pm t) = ?m1 \<and> holds (rs @ [?r]) True (t_cache t) \<and> replayed (rs @ [?r]) (t_cache t)"
    using p(2) c'(2,3) b(1) f k cj
    by (simp add: run_def commit_tx_def exec_seq exec_bind clear_def is_empty_def)
  have m: "undo_inv ?m0 (t_pm s)" using assms(2) by (auto simp: undo_inv_def is_empty_def intro!: exI [of _ "[]"])
  assume "t \<in> set (states (run (f x)) s)"
  then consider "t \<in> {s, ?s1}" | "t \<in> set (states (on_pm (f x)) ?s1)" |
      "t \<in> set (states (on_cache (cache_result ?r)) ?s2)" | "t \<in> {?s3, ?s3\<lparr>t_pm := clear p\<rparr>}"
    unfolding run_def commit_tx_def seq_def
    by (elim states_bind_cases) (auto simp: b f k cj exec_bind elim: states_bind_cases simp del: writes.simps)
  then show "tx_inv (rs, ?r, ?m0, ?m1) t"
  proof cases
    case 1
    then show ?thesis using c(1) m assms(3,5) by (cases b) auto
  next
    case 2
    then show ?thesis using leads_back [OF assms(1,2)] c(1) assms(5) by (auto simp: tx_lift)
  next
    case 3
    then obtain u where u: "t = ?s2\<lparr>t_cache := u\<rparr>" "u \<in> set (states (cache_result ?r) ?c)"
      by (auto simp: tx_lift)
    have "p \<in> set (states (f x) (t_pm s))"
      using exec_final [OF p(1)] last_state [of "f x" "t_pm s"] last_in_set [OF states_not_Nil] by metis
    then have "undo_inv ?m0 p" by (rule leads_back [OF assms(1,2)])
    then show ?thesis using cache_result_spec(2) [OF assms(5) c u(2)] u(1) p(2) assms(5) by auto
  next
    case 4
    then show ?thesis using c' p(2) assms(5) by (auto simp: clear_def)
  qed
qed

end

section \<open>The transactions of a task\<close>

text \<open>A transaction as the code of a task sees it: the size of the value it returns, and, given the
  results of the transactions before it and the memory it starts from, what it does and what it
  returns. Rust fixes the size by the type.\<close>

record job =
  j_size :: nat
  j_acts :: "byte list list \<Rightarrow> (usize \<Rightarrow> byte) \<Rightarrow> action list"
  j_res :: "byte list list \<Rightarrow> (usize \<Rightarrow> byte) \<Rightarrow> byte list"

definition tx_body :: "job \<times> byte list list \<Rightarrow> (pm, byte list) prog" where
  "tx_body jr = (case jr of (j, rs) \<Rightarrow> Read (\<lambda>s.
     seq (body (j_acts j rs (pm_mem s))) (Return (j_res j rs (pm_mem s)))))"

definition well_behaved :: "job \<Rightarrow> bool" where
  "well_behaved j \<longleftrightarrow> (\<forall>rs m. disciplined {} (j_acts j rs m) \<and>
     journal_need (j_acts j rs m) \<le> JOURNAL_SIZE \<and> length (j_res j rs m) = j_size j)"

abbreviation j_eff :: "job \<Rightarrow> byte list list \<Rightarrow> (usize \<Rightarrow> byte) \<Rightarrow> usize \<Rightarrow> byte" where
  "j_eff j rs m \<equiv> stores (j_acts j rs m) m"

primrec run_txs :: "job list \<Rightarrow> byte list list \<Rightarrow> (txs, byte list list) prog" where
  "run_txs [] rs = Return rs"
| "run_txs (j # js) rs = bind (run_relaxed (j_size j) (tx_body (j, rs))) (\<lambda>r. run_txs js (rs @ [r]))"

text \<open>The results and the memory when every transaction takes place once, in order.\<close>

primrec once :: "job list \<Rightarrow> byte list list \<Rightarrow> (usize \<Rightarrow> byte) \<Rightarrow> byte list list \<times> (usize \<Rightarrow> byte)" where
  "once [] rs m = (rs, m)"
| "once (j # js) rs m = once js (rs @ [j_res j rs m]) (j_eff j rs m)"

interpretation job_body: undoable tx_body "\<lambda>(j, rs). well_behaved j"
  "\<lambda>(j, rs). j_res j rs" "\<lambda>(j, rs). j_eff j rs"
proof
  fix x :: "job \<times> byte list list" and s
  assume ok: "case x of (j, rs) \<Rightarrow> well_behaved j" and "is_empty s"
  obtain j rs where x: "x = (j, rs)" by fastforce
  let ?as = "j_acts j rs (pm_mem s)"
  have e: "enc (j_logs s) (j_tail s) []" using \<open>is_empty s\<close> by (simp add: is_empty_def)
  have d: "disciplined {} ?as" "j_tail s + journal_need ?as \<le> JOURNAL_SIZE"
    using ok x \<open>is_empty s\<close> by (auto simp: well_behaved_def is_empty_def)
  show "\<exists>t. exec (tx_body x) s = Inr ((case x of (j, rs) \<Rightarrow> j_res j rs) (pm_mem s), t) \<and>
      pm_mem t = (case x of (j, rs) \<Rightarrow> j_eff j rs) (pm_mem s)"
    using exec_body [OF e d] x by (auto simp: tx_body_def exec_seq)
  fix t
  assume "t \<in> set (states (tx_body x) s)"
  then have "t \<in> set (states (seq (body ?as) (Return (j_res j rs (pm_mem s)))) s)"
    using x by (simp add: tx_body_def)
  then have "t \<in> set (states (body ?as) s)"
    using last_state [of "body ?as" s] exec_final [of "body ?as" s]
    unfolding seq_def by (elim states_bind_cases) (auto intro: last_in_set simp del: last_in_set)
  then show "undo_inv (pm_mem s) t" using body_states [OF e _ d(1)] by simp
qed

lemma once_append: "once (js1 @ js2) rs m = (case once js1 rs m of (rs', m') \<Rightarrow> once js2 rs' m')"
  by (induction js1 arbitrary: rs m) simp_all

lemma once_extends: "once js rs m = (rs', m') \<Longrightarrow> \<exists>qs. rs' = rs @ qs \<and> length qs = length js"
proof (induction js arbitrary: rs m)
  case (Cons j js)
  then show ?case by fastforce
qed simp

lemma cacheable_prefix:
  assumes "cacheable (fst (once (js1 @ j # js2) ps m))" "once js1 ps m = (rs, m1)"
  shows "cacheable (rs @ [j_res j rs m1])"
proof -
  obtain rs' m' where o: "once js2 (rs @ [j_res j rs m1]) (j_eff j rs m1) = (rs', m')" by fastforce
  then obtain qs where "rs' = (rs @ [j_res j rs m1]) @ qs" using once_extends by blast
  then show ?thesis using assms o cacheable_append by (simp add: once_append)
qed

text \<open>Where a power failure can catch the transactions \<open>js\<close>: around one of them, all earlier ones done.\<close>

definition around :: "job list \<Rightarrow> byte list list \<Rightarrow> (usize \<Rightarrow> byte) \<Rightarrow> tx_change \<Rightarrow> bool" where
  "around js ps m x \<longleftrightarrow> (\<exists>js1 j js2 rs m1. js = js1 @ j # js2 \<and> once js1 ps m = (rs, m1) \<and>
     x = (rs, j_res j rs m1, m1, j_eff j rs m1))"

definition midway :: "job list \<Rightarrow> byte list list \<Rightarrow> (usize \<Rightarrow> byte) \<Rightarrow> txs \<Rightarrow> bool" where
  "midway js ps m s \<longleftrightarrow> (\<exists>x. around js ps m x \<and> tx_inv x s)"

lemma around_Cons: "around js (ps @ [j_res j ps m]) (j_eff j ps m) x \<Longrightarrow> around (j # js) ps m x"
  unfolding around_def by (metis append_Cons once.simps(2))

lemma around_here: "around (j # js) ps m (ps, j_res j ps m, m, j_eff j ps m)"
  unfolding around_def by (metis append_Nil once.simps(1))

lemma midway_Cons: "midway js (ps @ [j_res j ps m]) (j_eff j ps m) s \<Longrightarrow> midway (j # js) ps m s"
  using around_Cons unfolding midway_def by blast

text \<open>Between two transactions: \<open>js1\<close> are done, \<open>js2\<close> are not.\<close>

definition between :: "job list \<Rightarrow> job list \<Rightarrow> byte list list \<Rightarrow> (usize \<Rightarrow> byte) \<Rightarrow> byte list list \<Rightarrow> txs \<Rightarrow> bool" where
  "between js1 js2 ps m rs s \<longleftrightarrow> once js1 ps m = (rs, pm_mem (t_pm s)) \<and> is_empty (t_pm s) \<and>
     (\<exists>b. holds rs b (t_cache s) \<and> (js2 = [] \<longrightarrow> b))"

lemma empty_undo_inv: "is_empty s \<Longrightarrow> undo_inv (pm_mem s) s"
  by (auto simp: undo_inv_def is_empty_def intro!: exI [of _ "[]"])

lemma between_midway:
  assumes "between js1 js2 ps m rs s" "js1 @ js2 \<noteq> []" "cacheable (fst (once (js1 @ js2) ps m))"
  shows "midway (js1 @ js2) ps m s"
proof (cases js2)
  case (Cons j js)
  let ?m = "pm_mem (t_pm s)"
  have "once js1 ps m = (rs, ?m)" using assms(1) by (simp add: between_def)
  then have "cacheable (rs @ [j_res j rs ?m])" "around (js1 @ js2) ps m (rs, j_res j rs ?m, ?m, j_eff j rs ?m)"
    using cacheable_prefix assms(3) Cons by (auto simp: around_def)
  moreover obtain b where "holds rs b (t_cache s)" using assms(1) by (auto simp: between_def)
  ultimately have "tx_inv (rs, j_res j rs ?m, ?m, j_eff j rs ?m) s"
    using empty_undo_inv assms(1) by (cases b) (auto simp: between_def)
  then show ?thesis using \<open>around _ _ _ _\<close> by (auto simp: midway_def)
next
  case Nil
  then obtain js j where js: "js1 = js @ [j]" using assms(2) by (metis append_Nil2 rev_exhaust)
  obtain rs0 m0 where o: "once js ps m = (rs0, m0)" by fastforce
  then have rs: "rs = rs0 @ [j_res j rs0 m0]" "pm_mem (t_pm s) = j_eff j rs0 m0"
    using assms(1) js by (simp_all add: between_def once_append)
  have "cacheable (rs0 @ [j_res j rs0 m0])" using cacheable_prefix [of js j "[]"] assms(3) o js Nil by simp
  then have "tx_inv (rs0, j_res j rs0 m0, m0, j_eff j rs0 m0) s" using assms(1) rs Nil by (auto simp: between_def)
  moreover have "around (js1 @ js2) ps m (rs0, j_res j rs0 m0, m0, j_eff j rs0 m0)"
    unfolding around_def Nil js by (metis append.assoc append_Nil2 o)
  ultimately show ?thesis by (auto simp: midway_def)
qed

text \<open>One transaction when nothing is left to replay, and when its result is in the cache.\<close>

lemma fresh_step:
  assumes "well_behaved j" "cacheable (ps @ [j_res j ps (pm_mem (t_pm s))])"
    and "is_empty (t_pm s)" "holds ps b (t_cache s)" "replayed ps (t_cache s)"
  shows "\<exists>u. exec (run_relaxed (j_size j) (tx_body (j, ps))) s = Inr (j_res j ps (pm_mem (t_pm s)), u) \<and>
      is_empty (t_pm u) \<and> pm_mem (t_pm u) = j_eff j ps (pm_mem (t_pm s)) \<and>
      holds (ps @ [j_res j ps (pm_mem (t_pm s))]) True (t_cache u) \<and>
      replayed (ps @ [j_res j ps (pm_mem (t_pm s))]) (t_cache u)"
    and "t \<in> set (states (run_relaxed (j_size j) (tx_body (j, ps))) s) \<Longrightarrow>
      tx_inv (ps, j_res j ps (pm_mem (t_pm s)), pm_mem (t_pm s), j_eff j ps (pm_mem (t_pm s))) t"
proof -
  let ?get = "on_cache (try_retrieve_result (j_size j))"
  have g: "exec ?get s = Inr (Inl (), s)" "states ?get s = [s]"
    using retrieve_none [OF cacheable_append [OF assms(2)] assms(4,5)] by (simp_all add: tx_lift)
  have "exec (run_relaxed (j_size j) (tx_body (j, ps))) s = exec (run (tx_body (j, ps))) s"
    by (simp add: run_relaxed_def run_or_replay_def exec_bind g)
  then show "\<exists>u. exec (run_relaxed (j_size j) (tx_body (j, ps))) s = Inr (j_res j ps (pm_mem (t_pm s)), u) \<and>
      is_empty (t_pm u) \<and> pm_mem (t_pm u) = j_eff j ps (pm_mem (t_pm s)) \<and>
      holds (ps @ [j_res j ps (pm_mem (t_pm s))]) True (t_cache u) \<and>
      replayed (ps @ [j_res j ps (pm_mem (t_pm s))]) (t_cache u)"
    using job_body.run_spec(1) [of "(j, ps)" s ps b] assms by simp
  assume "t \<in> set (states (run_relaxed (j_size j) (tx_body (j, ps))) s)"
  then have "t \<in> set (states (run (tx_body (j, ps))) s) \<or> t = s"
    unfolding run_relaxed_def run_or_replay_def by (elim states_bind_cases) (auto simp: g)
  moreover have "tx_inv (ps, j_res j ps (pm_mem (t_pm s)), pm_mem (t_pm s), j_eff j ps (pm_mem (t_pm s))) s"
    using assms(2-4) empty_undo_inv by (cases b) auto
  ultimately show "tx_inv (ps, j_res j ps (pm_mem (t_pm s)), pm_mem (t_pm s), j_eff j ps (pm_mem (t_pm s))) t"
    using job_body.run_spec(2) [of "(j, ps)" s ps b] assms by auto
qed

lemma replay_step:
  assumes "cacheable (ps @ r # qs)" "holds (ps @ r # qs) b (t_cache s)" "replayed ps (t_cache s)" "n = length r"
  shows "\<exists>p. exec (run_relaxed n f) s = Inr (r, s\<lparr>t_cache := (t_cache s)\<lparr>c_ptr := p\<rparr>\<rparr>) \<and>
      replayed (ps @ [r]) ((t_cache s)\<lparr>c_ptr := p\<rparr>)"
    and "t \<in> set (states (run_relaxed n f) s) \<Longrightarrow> \<exists>p. t = s\<lparr>t_cache := (t_cache s)\<lparr>c_ptr := p\<rparr>\<rparr>"
proof -
  let ?get = "on_cache (try_retrieve_result n)"
  obtain p where p: "exec (try_retrieve_result n) (t_cache s) = Inr (Inr r, (t_cache s)\<lparr>c_ptr := p\<rparr>)"
      "replayed (ps @ [r]) ((t_cache s)\<lparr>c_ptr := p\<rparr>)"
    using retrieve_next [OF assms(1-3)] assms(4) by blast
  then show "\<exists>p. exec (run_relaxed n f) s = Inr (r, s\<lparr>t_cache := (t_cache s)\<lparr>c_ptr := p\<rparr>\<rparr>) \<and>
      replayed (ps @ [r]) ((t_cache s)\<lparr>c_ptr := p\<rparr>)"
    by (auto simp: run_relaxed_def run_or_replay_def exec_bind tx_lift)
  have "\<exists>p. c = (t_cache s)\<lparr>c_ptr := p\<rparr>" if "c \<in> set (states (try_retrieve_result n) (t_cache s))" for c
  proof -
    have "\<exists>p. t_cache s = (t_cache s)\<lparr>c_ptr := p\<rparr>" by (rule exI [of _ "c_ptr (t_cache s)"]) simp
    then show ?thesis using that by (auto simp: try_retrieve_result_def Let_def split: if_splits) 
  qed
  then have "\<exists>p. t = s\<lparr>t_cache := (t_cache s)\<lparr>c_ptr := p\<rparr>\<rparr>" if "t \<in> set (states ?get s)" for t
    using that by (auto simp: tx_lift)
  moreover assume "t \<in> set (states (run_relaxed n f) s)"
  ultimately show "\<exists>p. t = s\<lparr>t_cache := (t_cache s)\<lparr>c_ptr := p\<rparr>\<rparr>"
    unfolding run_relaxed_def run_or_replay_def
    by (elim states_bind_cases) (use p in \<open>auto simp: tx_lift\<close>)
qed

lemma run_txs_fresh:
  assumes "\<forall>j\<in>set js. well_behaved j" "cacheable (fst (once js ps (pm_mem (t_pm s))))"
    and "is_empty (t_pm s)" "holds ps b (t_cache s)" "replayed ps (t_cache s)"
  shows "(\<exists>t rs. exec (run_txs js ps) s = Inr (rs, t) \<and> is_empty (t_pm t) \<and>
      once js ps (pm_mem (t_pm s)) = (rs, pm_mem (t_pm t))) \<and>
    (\<forall>t\<in>set (states (run_txs js ps) s). js \<noteq> [] \<longrightarrow> midway js ps (pm_mem (t_pm s)) t)"
  using assms
proof (induction js arbitrary: ps s b)
  case (Cons j js)
  let ?m = "pm_mem (t_pm s)"
  let ?r = "j_res j ps ?m"
  let ?x = "(ps, ?r, ?m, j_eff j ps ?m)"
  have fit: "cacheable (ps @ [?r])" using cacheable_prefix [of "[]" j js ps ?m ps ?m] Cons.prems(2) by simp
  note step = fresh_step [of j ps s b, OF _ fit Cons.prems(3-5)]
  obtain u where u: "exec (run_relaxed (j_size j) (tx_body (j, ps))) s = Inr (?r, u)" "is_empty (t_pm u)"
      "pm_mem (t_pm u) = j_eff j ps ?m" "holds (ps @ [?r]) True (t_cache u)" "replayed (ps @ [?r]) (t_cache u)"
    using step(1) Cons.prems(1) by auto
  have ind: "\<exists>t rs. exec (run_txs js (ps @ [?r])) u = Inr (rs, t) \<and> is_empty (t_pm t) \<and>
        once js (ps @ [?r]) (j_eff j ps ?m) = (rs, pm_mem (t_pm t))"
      "\<forall>t \<in> set (states (run_txs js (ps @ [?r])) u). js \<noteq> [] \<longrightarrow> midway js (ps @ [?r]) (j_eff j ps ?m) t"
    using Cons.IH [OF _ _ u(2,4,5)] Cons.prems(1,2) u(3) by auto
  have "tx_inv ?x u" using u fit by auto
  then have "tx_inv ?x t \<or> midway js (ps @ [?r]) (j_eff j ps ?m) t" if "t \<in> set (states (run_txs (j # js) ps) s)" for t
    using that step(2) [of t] Cons.prems(1) u(1) ind(2) unfolding run_txs.simps
    by (elim states_bind_cases) (cases "js = []"; auto)+
  then have "\<forall>t \<in> set (states (run_txs (j # js) ps) s). midway (j # js) ps ?m t"
    using around_here midway_Cons unfolding midway_def by blast
  then show ?case using ind(1) u(1) by (simp add: exec_bind)
qed auto

text \<open>The transactions of which some have their results in the cache.\<close>

lemma run_txs_replay:
  assumes "\<forall>j\<in>set (js1 @ js2). well_behaved j" "cacheable (fst (once (js1 @ js2) ps m))"
    and "between js1 js2 ps m rs s" "replayed ps (t_cache s)"
  shows "(\<exists>t rs. exec (run_txs (js1 @ js2) ps) s = Inr (rs, t) \<and> is_empty (t_pm t) \<and>
      once (js1 @ js2) ps m = (rs, pm_mem (t_pm t))) \<and>
    (\<forall>t\<in>set (states (run_txs (js1 @ js2) ps) s). js1 @ js2 \<noteq> [] \<longrightarrow> midway (js1 @ js2) ps m t)"
  using assms
proof (induction js1 arbitrary: ps m s)
  case Nil
  then show ?case using run_txs_fresh [of js2 ps s] by (auto simp: between_def)
next
  case (Cons j js1)
  let ?r = "j_res j ps m"
  let ?run = "run_relaxed (j_size j) (tx_body (j, ps))"
  obtain b where b: "holds rs b (t_cache s)" "once js1 (ps @ [?r]) (j_eff j ps m) = (rs, pm_mem (t_pm s))"
    using Cons.prems(3) by (auto simp: between_def)
  then obtain qs where rs: "rs = ps @ ?r # qs" using once_extends by fastforce
  obtain qs' where "fst (once (js1 @ js2) (ps @ [?r]) (j_eff j ps m)) = rs @ qs'"
    using b(2) once_extends [OF prod.collapse [symmetric], of js2 rs "pm_mem (t_pm s)"] by (auto simp: once_append)
  then have fit: "cacheable (ps @ ?r # qs)" using Cons.prems(2) rs cacheable_append by simp
  have n: "j_size j = length ?r" using Cons.prems(1) by (simp add: well_behaved_def)
  note step = replay_step [OF fit b(1) [unfolded rs] Cons.prems(4) n, where f = "tx_body (j, ps)"]
  have bt: "between (j # js1) js2 ps m rs (s\<lparr>t_cache := (t_cache s)\<lparr>c_ptr := p\<rparr>\<rparr>)" for p
    using Cons.prems(3) by (auto simp: between_def)
  obtain p where p: "exec ?run s = Inr (?r, s\<lparr>t_cache := (t_cache s)\<lparr>c_ptr := p\<rparr>\<rparr>)"
      "replayed (ps @ [?r]) ((t_cache s)\<lparr>c_ptr := p\<rparr>)" using step(1) by blast
  let ?u = "s\<lparr>t_cache := (t_cache s)\<lparr>c_ptr := p\<rparr>\<rparr>"
  have "between js1 js2 (ps @ [?r]) (j_eff j ps m) rs ?u" using bt [of p] by (simp add: between_def)
  then have ind: "\<exists>t rs. exec (run_txs (js1 @ js2) (ps @ [?r])) ?u = Inr (rs, t) \<and> is_empty (t_pm t) \<and>
      once (js1 @ js2) (ps @ [?r]) (j_eff j ps m) = (rs, pm_mem (t_pm t))"
    "\<forall>t\<in>set (states (run_txs (js1 @ js2) (ps @ [?r])) ?u). js1 @ js2 \<noteq> [] \<longrightarrow>
      midway (js1 @ js2) (ps @ [?r]) (j_eff j ps m) t"
    using Cons.IH [of "ps @ [?r]" "j_eff j ps m" ?u] Cons.prems(1,2) p(2) by simp_all
  have m: "midway (j # js1 @ js2) ps m (s\<lparr>t_cache := (t_cache s)\<lparr>c_ptr := q\<rparr>\<rparr>)" for q
    using between_midway [OF bt] Cons.prems(2) by simp
  have "midway (j # js1 @ js2) ps m t" if "t \<in> set (states (run_txs (j # js1 @ js2) ps) s)" for t
    using that unfolding run_txs.simps
  proof (cases rule: states_bind_cases)
    case 1
    then show ?thesis using step(2) m by blast
  next
    case (2 a v)
    then show ?thesis using p ind(2) m [of p] midway_Cons by (cases "js1 @ js2 = []") auto
  qed
  then show ?case using ind(1) p(1) by (simp add: exec_bind)
qed

section \<open>The boot\<close>

text \<open>What every power-on does until the first boot is complete: recover, then the idempotent boot.\<close>

definition power_on :: "job list \<Rightarrow> (boot, unit) prog" where
  "power_on js = seq recover_boot (idempotent_boot (run_txs js []))"

fun boot_inv :: "job list \<times> (usize \<Rightarrow> byte) \<Rightarrow> boot \<Rightarrow> bool" where
  "boot_inv (js, m) s \<longleftrightarrow> js \<noteq> [] \<and> (\<forall>j\<in>set js. well_behaved j) \<and> cacheable (fst (once js [] m)) \<and>
     (if b_done s then pm_mem (t_pm (b_tx s)) = snd (once js [] m) else midway js [] m (b_tx s))"

fun booted :: "job list \<times> (usize \<Rightarrow> byte) \<Rightarrow> boot \<Rightarrow> bool" where
  "booted (js, m) s \<longleftrightarrow> b_done s \<and> pm_mem (t_pm (b_tx s)) = snd (once js [] m)"

lemma recovered_between:
  assumes "around js [] m x" "tx_done x s"
  shows "\<exists>js1 js2 rs. js = js1 @ js2 \<and> between js1 js2 [] m rs s"
proof -
  obtain js1 j js2 rs m1 where js: "js = js1 @ j # js2" "once js1 [] m = (rs, m1)"
     "x = (rs, j_res j rs m1, m1, j_eff j rs m1)" using assms(1) by (auto simp: around_def)
  then have "once (js1 @ [j]) [] m = (rs @ [j_res j rs m1], j_eff j rs m1)" by (simp add: once_append)
  then have "between js1 (j # js2) [] m rs s \<or> between (js1 @ [j]) js2 [] m (rs @ [j_res j rs m1]) s"
    using assms(2) js(2,3) by (auto simp: between_def)
  then show ?thesis using js(1) by (metis append.assoc append_Cons append_Nil)
qed

lemma power_on_spec:
  assumes "boot_inv (js, m) s"
  shows "(\<exists>t. exec (power_on js) s = Inr ((), t) \<and> booted (js, m) t) \<and>
    (\<forall>t\<in>set (states (power_on js) s). boot_inv (js, m) t)"
proof (cases "b_done s")
  case True
  then show ?thesis using assms
    by (simp add: power_on_def recover_boot_def idempotent_boot_def seq_simps)
next
  case False
  note ok = assms [unfolded boot_inv.simps]
  obtain x where x: "around js [] m x" "tx_inv x (b_tx s)" using ok False by (auto simp: midway_def)
  obtain u where u: "exec roll_back_if_uncommitted (b_tx s) = Inr ((), u)" "tx_done x u"
    using txn.recovery_ends [OF x(2)] by auto
  have mid: "boot_inv (js, m) (s\<lparr>b_tx := t\<rparr>)" if "midway js [] m t" for t using ok False that by simp
  have rec: "boot_inv (js, m) (s\<lparr>b_tx := t\<rparr>)" if "t \<in> set (states roll_back_if_uncommitted (b_tx s))" for t
    using txn.recovery_states [OF x(2) that] x(1) unfolding midway_def by (intro mid [unfolded midway_def]) blast
  obtain js1 js2 rs where js: "js = js1 @ js2" "between js1 js2 [] m rs u"
    using recovered_between [OF x(1) u(2)] by blast
  let ?v = "u\<lparr>t_cache := reset_ptr (t_cache u)\<rparr>"
  have v: "between js1 js2 [] m rs ?v" using js(2) by (auto simp: between_def)
  have uv: "midway js [] m u" "midway js [] m ?v" using between_midway js(1) js(2) v ok by auto
  obtain t rs' where t: "exec (run_txs js []) ?v = Inr (rs', t)" "once js [] m = (rs', pm_mem (t_pm t))"
      "\<forall>t\<in>set (states (run_txs js []) ?v). midway js [] m t"
    using run_txs_replay [of js1 js2 "[]" m rs ?v] v ok js(1) holds_init(3) by auto
  have init: "exec (on_tx (on_cache (writes [reset_ptr]))) (s\<lparr>b_tx := u\<rparr>) = Inr ((), s\<lparr>b_tx := ?v\<rparr>)"
     "states (on_tx (on_cache (writes [reset_ptr]))) (s\<lparr>b_tx := u\<rparr>) = [s\<lparr>b_tx := u\<rparr>, s\<lparr>b_tx := ?v\<rparr>]"
    by (simp_all add: tx_lift)
  have runs: "exec (on_tx (run_txs js [])) (s\<lparr>b_tx := ?v\<rparr>) = Inr (rs', s\<lparr>b_tx := t\<rparr>)"
     "set (states (on_tx (run_txs js [])) (s\<lparr>b_tx := ?v\<rparr>)) = (\<lambda>t. s\<lparr>b_tx := t\<rparr>) ` set (states (run_txs js []) ?v)"
    using t(1) by (simp_all add: tx_lift)
  have r: "exec recover_boot s = Inr ((), s\<lparr>b_tx := u\<rparr>)"
     "set (states recover_boot s) = (\<lambda>t. s\<lparr>b_tx := t\<rparr>) ` set (states roll_back_if_uncommitted (b_tx s))"
    using False u(1) by (simp_all add: recover_boot_def tx_lift)
  have i: "exec (idempotent_boot (run_txs js [])) (s\<lparr>b_tx := u\<rparr>) = Inr ((), s\<lparr>b_tx := t, b_done := True\<rparr>)"
    using False init(1) runs(1) by (simp add: idempotent_boot_def exec_seq exec_writes del: writes.simps)
  have "w \<in> {s\<lparr>b_tx := u\<rparr>, s\<lparr>b_tx := ?v\<rparr>, s\<lparr>b_tx := t\<rparr>, s\<lparr>b_tx := t, b_done := True\<rparr>} \<or>
      w \<in> set (states (on_tx (run_txs js [])) (s\<lparr>b_tx := ?v\<rparr>))"
    if "w \<in> set (states (idempotent_boot (run_txs js [])) (s\<lparr>b_tx := u\<rparr>))" for w
    using that False unfolding idempotent_boot_def seq_def
    by (auto simp: init [simplified] runs(1) elim!: states_bind_cases)
  moreover have tt: "t \<in> set (states (run_txs js []) ?v)"
    using exec_final [OF t(1)] last_state [of "run_txs js []" ?v] last_in_set [OF states_not_Nil] by metis
  have "boot_inv (js, m) (s\<lparr>b_tx := t, b_done := True\<rparr>)" using ok t(2) by simp
  then have "boot_inv (js, m) w" if "w \<in> {s\<lparr>b_tx := u\<rparr>, s\<lparr>b_tx := ?v\<rparr>, s\<lparr>b_tx := t\<rparr>, s\<lparr>b_tx := t, b_done := True\<rparr>}" for w
    using that mid uv t(3) tt by blast
  moreover have "boot_inv (js, m) w" if "w \<in> set (states (on_tx (run_txs js [])) (s\<lparr>b_tx := ?v\<rparr>))" for w
    using that mid t(3) unfolding runs(2) by blast
  ultimately have "boot_inv (js, m) w" if "w \<in> set (states (idempotent_boot (run_txs js [])) (s\<lparr>b_tx := u\<rparr>))" for w
    using that by blast
  then have "boot_inv (js, m) w" if "w \<in> set (states (power_on js) s)" for w
    using that unfolding power_on_def seq_def
    by (elim states_bind_cases) (use rec r in \<open>auto simp del: boot_inv.simps\<close>)
  moreover have "exec (power_on js) s = Inr ((), s\<lparr>b_tx := t, b_done := True\<rparr>)"
    using r(1) i by (simp add: power_on_def exec_seq)
  moreover have "booted (js, m) (s\<lparr>b_tx := t, b_done := True\<rparr>)" using t(2) by simp
  ultimately show ?thesis by blast
qed

interpretation booting: roll_back boot_inv "\<lambda>(js, m). power_on js" booted
proof
  fix x s t
  assume a: "boot_inv x s" "t \<in> set (states (case x of (js, m) \<Rightarrow> power_on js) s)"
  obtain js m where x: "x = (js, m)" by fastforce
  show "boot_inv x t" using a power_on_spec [of js m s] unfolding x prod.case by blast
next
  fix x s
  assume a: "boot_inv x s"
  obtain js m where x: "x = (js, m)" by fastforce
  show "\<exists>b t. exec (case x of (js, m) \<Rightarrow> power_on js) s = Inr (b, t) \<and> booted x t"
    using a power_on_spec [of js m s] unfolding x prod.case by blast
qed

section \<open>What transactions promise\<close>

text \<open>Claim C2. A transaction is atomic: cut it off anywhere, and cut the recovery
  \<open>roll_back_if_uncommitted\<close> off any number of times; once a recovery completes, either the memory
  is what it was and the cache still holds the old results, or the memory is what the body makes of
  it and the cache holds its result as well. The journal is empty in both cases.\<close>

theorem transaction_atomic:
  assumes "well_behaved j" "is_empty (t_pm s)" "holds rs b (t_cache s)" "replayed rs (t_cache s)"
    and "cacheable (rs @ [j_res j rs (pm_mem (t_pm s))])"
  shows "\<exists>t. exec roll_back_if_uncommitted
        (reboots roll_back_if_uncommitted ks (crash (run (tx_body (j, rs))) k s)) = Inr ((), t) \<and>
     is_empty (t_pm t) \<and>
     ((\<exists>b. holds rs b (t_cache t)) \<and> pm_mem (t_pm t) = pm_mem (t_pm s) \<or>
      holds (rs @ [j_res j rs (pm_mem (t_pm s))]) True (t_cache t) \<and>
      pm_mem (t_pm t) = stores (j_acts j rs (pm_mem (t_pm s))) (pm_mem (t_pm s)))"
  using txn.survives_reboots [of "run (tx_body (j, rs))" s
      "(rs, j_res j rs (pm_mem (t_pm s)), pm_mem (t_pm s), j_eff j rs (pm_mem (t_pm s)))" ks k]
    job_body.run_spec(2) [of "(j, rs)" s rs b] assms by (auto simp del: tx_inv.simps)

definition demo_job :: "byte \<Rightarrow> job" where
  "demo_job v = \<lparr>j_size = 1, j_acts = (\<lambda>rs m. [AsMut 100 4, Store 101 v, Store 102 (m 101)]),
     j_res = (\<lambda>rs m. [m 101])\<rparr>"

definition demo_txs :: txs where
  "demo_txs = \<lparr>t_pm = demo_pm, t_cache = \<lparr>c_bytes = (\<lambda>_. 0), c_ptr = 0, c_tail = 0\<rparr>\<rparr>"

lemma demo_job_ok: "well_behaved (demo_job v)"
  by (simp add: well_behaved_def demo_job_def in_object_def JOURNAL_SIZE_def aligned_size_def
      arch_addr_align_up_def ARCH_ALIGN_def)

lemma demo_txs_start: "is_empty (t_pm demo_txs)" "holds [] False (t_cache demo_txs)" "replayed [] (t_cache demo_txs)"
  by (simp_all add: demo_txs_def demo_pm_def is_empty_def holds_def replayed_def flagged_def composite_def)

theorem transaction_atomic_witness:
  "\<exists>t. exec roll_back_if_uncommitted
        (reboots roll_back_if_uncommitted [3, 1] (crash (run (tx_body (demo_job 7, []))) 12 demo_txs)) = Inr ((), t) \<and>
     is_empty (t_pm t) \<and>
     ((\<exists>b. holds [] b (t_cache t)) \<and> pm_mem (t_pm t) = pm_mem (t_pm demo_txs) \<or>
      holds ([] @ [j_res (demo_job 7) [] (pm_mem (t_pm demo_txs))]) True (t_cache t) \<and>
      pm_mem (t_pm t) = stores (j_acts (demo_job 7) [] (pm_mem (t_pm demo_txs))) (pm_mem (t_pm demo_txs)))"
proof (rule transaction_atomic [OF demo_job_ok demo_txs_start])
  show "cacheable ([] @ [j_res (demo_job 7) [] (pm_mem (t_pm demo_txs))])"
    by (simp add: cacheable_def demo_job_def TX_CACHE_SZ_def)
qed



end
