(* ===== verification/UserTx.thy ===== *)
theory UserTx
  imports Transaction
begin

text \<open>
  The per-task transaction state of \<open>src/transaction.rs\<close> (\<open>UserTxInfo\<close>): the user transaction, and
  the stack of replay positions that lets the results cached by one iteration of a persistent loop be
  reused by the next. The stack entries are 16 bits wide on every target.
\<close>

section \<open>The state and its operations\<close>

definition DEFAULT_STACK_DEPTH :: nat where
  "DEFAULT_STACK_DEPTH = 8"

record user_tx_info =
  user_tx :: txs
  stack_top :: "8 word"
  tail_stack :: "16 word list"
  loop_cnt_log :: usize
  loop_cnt_ptr :: "usize option"
  loop_step :: usize

definition on_user_tx :: "(txs, 'a) prog \<Rightarrow> (user_tx_info, 'a) prog" where
  "on_user_tx p = lift user_tx (\<lambda>t s. s\<lparr>user_tx := t\<rparr>) p"

abbreviation on_user_cache :: "(txc, 'a) prog \<Rightarrow> (user_tx_info, 'a) prog" where
  "on_user_cache p \<equiv> on_user_tx (on_cache p)"

definition set_tail :: "usize \<Rightarrow> txc \<Rightarrow> txc" where
  "set_tail pos c = c\<lparr>c_tail := pos\<rparr>"

definition set_ptr :: "usize \<Rightarrow> txc \<Rightarrow> txc" where
  "set_ptr pos c = c\<lparr>c_ptr := pos\<rparr>"

definition set_tail_ptr :: "usize \<Rightarrow> (txc, unit) prog" where
  "set_tail_ptr pos = writes [set_ptr pos, set_tail (pos OR TX_COMMITTED)]"

definition reset_tail :: "txc \<Rightarrow> txc" where
  "reset_tail c = c\<lparr>c_tail := 0\<rparr>"

definition restart :: "(user_tx_info, unit) prog" where
  "restart = seq (on_user_cache (writes [reset_ptr])) (writes [\<lambda>s. s\<lparr>stack_top := 0\<rparr>])"

definition reset_all :: "(user_tx_info, unit) prog" where
  "reset_all = on_user_cache (writes [reset_tail, reset_ptr])"

definition user_tx_init :: "(user_tx_info, unit) prog" where
  "user_tx_init = seq (on_user_tx (on_pm (writes [init_journal])))
     (seq (on_user_cache (writes [\<lambda>c. c\<lparr>c_ptr := 0\<rparr>, \<lambda>c. c\<lparr>c_tail := 0\<rparr>]))
       (writes [\<lambda>s. s\<lparr>stack_top := 0\<rparr>, \<lambda>s. s\<lparr>tail_stack := replicate DEFAULT_STACK_DEPTH 0\<rparr>,
         \<lambda>s. s\<lparr>loop_cnt_ptr := None\<rparr>]))"

definition log_loop_cnt :: "usize \<Rightarrow> usize \<Rightarrow> usize \<Rightarrow> (user_tx_info, unit) prog" where
  "log_loop_cnt p old_cnt stp = writes [\<lambda>s. s\<lparr>loop_cnt_ptr := Some p\<rparr>,
     \<lambda>s. s\<lparr>loop_cnt_log := old_cnt\<rparr>, \<lambda>s. s\<lparr>loop_step := stp\<rparr>]"

definition put_usize :: "usize \<Rightarrow> usize \<Rightarrow> txs \<Rightarrow> txs" where
  "put_usize a w t = t\<lparr>t_pm := (t_pm t)\<lparr>pm_mem :=
     write_bytes (pm_mem (t_pm t)) a [byte_of w 0, byte_of w 1, byte_of w 2, byte_of w 3]\<rparr>\<rparr>"

text \<open>The pointer is read without a check (\<open>unwrap_unchecked\<close>).\<close>

definition set_loop_cnt :: "(user_tx_info, unit) prog" where
  "set_loop_cnt = Read (\<lambda>s. case loop_cnt_ptr s of None \<Rightarrow> Fail Undefined
     | Some p \<Rightarrow> on_user_tx (writes [put_usize p (loop_cnt_log s + loop_step s)]))"

definition enter_idempotent_loop :: "(user_tx_info, unit) prog" where
  "enter_idempotent_loop = Read (\<lambda>s.
     let tx_tail = c_ptr (t_cache (user_tx s)) OR TX_COMMITTED; top = unat (stack_top s) in
     if length (tail_stack s) \<le> top then Fail Panic
     else writes [\<lambda>s. s\<lparr>tail_stack := (tail_stack s)[top := ucast tx_tail]\<rparr>,
       \<lambda>s. s\<lparr>stack_top := stack_top s + 1\<rparr>])"

text \<open>The index \<open>top - 1\<close> is computed on \<open>usize\<close>: it wraps around at 0 and fails the bounds check.\<close>

definition old_tx_tail :: "user_tx_info \<Rightarrow> usize option" where
  "old_tx_tail s = (let top = unat (stack_top s) in
     if top = 0 \<or> length (tail_stack s) < top then None else Some (ucast (tail_stack s ! (top - 1))))"

definition exit_idempotent_loop :: "(user_tx_info, unit) prog" where
  "exit_idempotent_loop = Read (\<lambda>s. case old_tx_tail s of None \<Rightarrow> Fail Panic
     | Some t \<Rightarrow> seq (on_user_cache (writes [set_tail t]))
         (seq set_loop_cnt (seq (on_user_cache (writes [set_ptr t]))
           (writes [\<lambda>s. s\<lparr>stack_top := stack_top s - 1\<rparr>]))))"

definition exit_infinite_idempotent_loop :: "(user_tx_info, unit) prog" where
  "exit_infinite_idempotent_loop = Read (\<lambda>s. case old_tx_tail s of None \<Rightarrow> Fail Panic
     | Some t \<Rightarrow> seq (on_user_cache (writes [set_tail t]))
         (seq (on_user_cache (writes [set_ptr t]))
           (writes [\<lambda>s. s\<lparr>stack_top := stack_top s - 1\<rparr>])))"

definition get_tx_tail_id_at_level :: "nat \<Rightarrow> user_tx_info \<Rightarrow> usize option" where
  "get_tx_tail_id_at_level level s =
     (if level < length (tail_stack s) then Some (ucast (tail_stack s ! level) AND TX_ID_PTR_MASK) else None)"

text \<open>The part of a task's recovery that concerns a loop cut off at its end.\<close>

definition recover_loop_end :: "(user_tx_info, unit) prog" where
  "recover_loop_end = Read (\<lambda>s. let c = t_cache (user_tx s) in
     if tx_id (c_ptr c) > tx_id (c_tail c) then set_loop_cnt else Halt)"

interpretation user_lens: lens user_tx "\<lambda>t s. s\<lparr>user_tx := t\<rparr>"
  by unfold_locales simp_all

lemmas user_lift = on_user_tx_def user_lens.exec_lift user_lens.states_lift user_lens.crash_lift tx_lift

section \<open>Entering and leaving a loop\<close>

lemma ucast_flagged: "i < 65536 \<Longrightarrow> c < 32768 \<Longrightarrow>
  (ucast (ucast (composite i c OR TX_COMMITTED) :: 16 word) :: usize) = composite i 0"
proof -
  assume b: "i < 65536" "c < 32768"
  have "(ucast (ucast (composite i c OR TX_COMMITTED) :: 16 word) :: usize) = tx_id (flagged True (composite i c))"
    unfolding tx_id_take_bit flagged_def by (rule bit_word_eqI) (auto simp: bit_simps)
  then show ?thesis using b tx_id_composite [OF b] by (simp add: composite_def [of i 0])
qed

text \<open>What an iteration leaves behind: the position saved on entry with its offset gone.\<close>

lemma enter_exit:
  assumes "c_ptr (t_cache (user_tx s)) = composite i c" "i < 65536" "c < 32768"
    and "unat (stack_top s) < length (tail_stack s)" "length (tail_stack s) = DEFAULT_STACK_DEPTH"
  shows "exec enter_idempotent_loop s = Inr ((), s\<lparr>
      tail_stack := (tail_stack s)[unat (stack_top s) := ucast (composite i c OR TX_COMMITTED)],
      stack_top := stack_top s + 1\<rparr>)"
    and "old_tx_tail (s\<lparr>
      tail_stack := (tail_stack s)[unat (stack_top s) := ucast (composite i c OR TX_COMMITTED)],
      stack_top := stack_top s + 1, user_tx := u\<rparr>) = Some (composite i 0)"
proof -
  show "exec enter_idempotent_loop s = Inr ((), s\<lparr>
      tail_stack := (tail_stack s)[unat (stack_top s) := ucast (composite i c OR TX_COMMITTED)],
      stack_top := stack_top s + 1\<rparr>)"
    using assms(1,4) by (simp add: enter_idempotent_loop_def Let_def)
  have "unat (stack_top s + 1) = Suc (unat (stack_top s))"
    using assms(4,5) by (simp add: DEFAULT_STACK_DEPTH_def unat_word_ariths)
  then show "old_tx_tail (s\<lparr>
      tail_stack := (tail_stack s)[unat (stack_top s) := ucast (composite i c OR TX_COMMITTED)],
      stack_top := stack_top s + 1, user_tx := u\<rparr>) = Some (composite i 0)"
    using assms(4) ucast_flagged [OF assms(2,3)] by (simp add: old_tx_tail_def Let_def)
qed

lemma exec_exit_infinite:
  "old_tx_tail s = Some t \<Longrightarrow> exec exit_infinite_idempotent_loop s = Inr ((), s\<lparr>
     user_tx := (user_tx s)\<lparr>t_cache := (t_cache (user_tx s))\<lparr>c_tail := t, c_ptr := t\<rparr>\<rparr>,
     stack_top := stack_top s - 1\<rparr>)"
  by (simp add: exit_infinite_idempotent_loop_def exec_seq user_lift set_tail_def set_ptr_def)

lemma exec_exit:
  "old_tx_tail s = Some t \<Longrightarrow> loop_cnt_ptr s = Some p \<Longrightarrow> exec exit_idempotent_loop s = Inr ((), s\<lparr>
     user_tx := put_usize p (loop_cnt_log s + loop_step s)
       ((user_tx s)\<lparr>t_cache := (t_cache (user_tx s))\<lparr>c_tail := t, c_ptr := t\<rparr>\<rparr>),
     stack_top := stack_top s - 1\<rparr>)"
  by (simp add: exit_idempotent_loop_def set_loop_cnt_def exec_seq user_lift set_tail_def set_ptr_def put_usize_def)

definition demo_user :: "byte list \<Rightarrow> user_tx_info" where
  "demo_user r = \<lparr>user_tx = \<lparr>t_pm = demo_pm, t_cache = \<lparr>c_bytes = (\<lambda>i. r ! i), c_ptr = composite 1 (length r),
     c_tail = flagged True (composite 1 (length r))\<rparr>\<rparr>, stack_top = 1, tail_stack = replicate DEFAULT_STACK_DEPTH 0,
     loop_cnt_log = 4, loop_cnt_ptr = Some 300, loop_step = 1\<rparr>"

lemma demo_user_cache:
  "holds [r] True (t_cache (user_tx (demo_user r)))" "replayed [r] (t_cache (user_tx (demo_user r)))"
  "unat (stack_top (demo_user r)) < length (tail_stack (demo_user r))"
  "length (tail_stack (demo_user r)) = DEFAULT_STACK_DEPTH"
  by (simp_all add: demo_user_def holds_def replayed_def DEFAULT_STACK_DEPTH_def)

text \<open>A loop whose preceding transactions returned nothing is re-entered with the cache it
  started with: whatever the iteration did to the user transaction, leaving the loop takes the
  transaction number back, so the next iteration runs its transactions again.\<close>

theorem loop_restores_position:
  assumes "holds rs b (t_cache (user_tx s))" "replayed rs (t_cache (user_tx s))" "cacheable rs" "concat rs = []"
    and "unat (stack_top s) < length (tail_stack s)" "length (tail_stack s) = DEFAULT_STACK_DEPTH"
  shows "\<exists>s1. exec enter_idempotent_loop s = Inr ((), s1) \<and> user_tx s1 = user_tx s \<and>
    (\<forall>u. \<exists>t. exec exit_infinite_idempotent_loop (s1\<lparr>user_tx := u\<rparr>) = Inr ((), t) \<and>
       holds rs False (t_cache (user_tx t)) \<and> replayed rs (t_cache (user_tx t)) \<and>
       t_pm (user_tx t) = t_pm u \<and> stack_top t = stack_top s)"
proof -
  have p: "c_ptr (t_cache (user_tx s)) = composite (length rs) 0" "length rs < 65536"
    using assms(2,3) unfolding replayed_def cacheable_def assms(4) by simp_all
  note ee = enter_exit [OF p _ assms(5,6)]
  have n: "length (concat rs) = 0" by (simp only: assms(4) list.size)
  have "holds rs False (c\<lparr>c_tail := composite (length rs) 0, c_ptr := composite (length rs) 0\<rparr>) \<and>
    replayed rs (c\<lparr>c_tail := composite (length rs) 0, c_ptr := composite (length rs) 0\<rparr>)" for c
    unfolding holds_def replayed_def n by (simp add: flagged_def)
  then have "\<exists>t. exec exit_infinite_idempotent_loop (s\<lparr>
      tail_stack := (tail_stack s)[unat (stack_top s) := ucast (composite (length rs) 0 OR TX_COMMITTED)],
      stack_top := stack_top s + 1, user_tx := u\<rparr>) = Inr ((), t) \<and>
      holds rs False (t_cache (user_tx t)) \<and> replayed rs (t_cache (user_tx t)) \<and>
      t_pm (user_tx t) = t_pm u \<and> stack_top t = stack_top s" for u
    by (simp add: exec_exit_infinite [OF ee(2)])
  then show ?thesis using ee(1) by simp
qed

theorem loop_restores_position_witness:
  "\<exists>s1. exec enter_idempotent_loop (demo_user []) = Inr ((), s1) \<and> user_tx s1 = user_tx (demo_user []) \<and>
    (\<forall>u. \<exists>t. exec exit_infinite_idempotent_loop (s1\<lparr>user_tx := u\<rparr>) = Inr ((), t) \<and>
       holds [[]] False (t_cache (user_tx t)) \<and> replayed [[]] (t_cache (user_tx t)) \<and>
       t_pm (user_tx t) = t_pm u \<and> stack_top t = stack_top (demo_user []))"
  by (rule loop_restores_position [OF demo_user_cache(1,2) _ _ demo_user_cache(3,4)])
    (simp_all add: cacheable_def TX_CACHE_SZ_def)

text \<open>The stack keeps only the transaction number: leaving a loop sets the offset into the
  cache to 0, so the first result committed afterwards overwrites the result of the first transaction
  of the task, and a replay hands out the wrong value.\<close>

theorem loop_overwrites_first_result:
  assumes "holds (r0 # rs) b (t_cache (user_tx s))" "replayed (r0 # rs) (t_cache (user_tx s))"
    and "cacheable (r0 # rs)" "Suc (length (r0 # rs)) < 65536" "r \<noteq> []" "length r = length r0"
    and "unat (stack_top s) < length (tail_stack s)" "length (tail_stack s) = DEFAULT_STACK_DEPTH"
  shows "\<exists>t t'. exec (seq enter_idempotent_loop (seq exit_infinite_idempotent_loop
        (seq (on_user_cache (cache_result r)) (on_user_cache (writes [reset_ptr]))))) s = Inr ((), t) \<and>
      exec (on_user_cache (try_retrieve_result (length r0))) t = Inr (Inr r, t')"
proof -
  let ?i = "Suc (length rs)" and ?c = "length (concat (r0 # rs))"
  have p: "c_ptr (t_cache (user_tx s)) = composite ?i ?c" "?i < 65536" "?c < 32768"
    using assms(2,3) cacheable_bounds [of "r0 # rs"] by (simp_all add: replayed_def)
  note ee = enter_exit [OF p assms(7,8)]
  have len: "length r \<le> TX_CACHE_SZ" "length r < 32768" using assms(3,6) by (simp_all add: cacheable_def TX_CACHE_SZ_def)
  have i: "tx_id (composite ?i 0) = of_nat ?i" "tx_cache_ptr (composite ?i 0) = of_nat 0"
    using p(2) tx_id_composite [of ?i 0] tx_cache_ptr_composite [of ?i 0] by simp_all
  have adv: "advance_composite_id (of_nat ?i) 0 (of_nat (length r)) = composite (Suc ?i) (length r)"
    using advance_composite [of ?i 0 "length r"] assms(4) len by simp
  define c1 where "c1 = (t_cache (user_tx s))\<lparr>c_tail := composite ?i 0, c_ptr := composite ?i 0\<rparr>"
  define c2 where "c2 = c1\<lparr>c_bytes := \<lambda>i. if i < length r then r ! i else c_bytes c1 i,
    c_tail := composite (Suc ?i) (length r) OR TX_COMMITTED, c_ptr := composite (Suc ?i) (length r)\<rparr>"
  have cr: "exec (cache_result r) c1 = Inr ((), c2)"
    using assms(5) len i adv unfolding c1_def c2_def
    by (simp add: cache_result_def Let_def exec_seq exec_put_bytes TX_CACHE_SZ_def cong: if_cong)
  have "tx_id (c_tail c2) = of_nat (Suc ?i)"
    using tx_id_composite [of "Suc ?i" "length r"] assms(4) len tx_id_flagged [of True]
    by (simp add: c2_def flagged_def)
  moreover have "tx_id 0 = 0" "tx_cache_ptr 0 = 0" by (simp_all add: tx_id_def tx_cache_ptr_def)
  moreover have "(0::usize) < of_nat (Suc ?i)"
    using assms(4) unat_of_nat_small [of "Suc ?i"] by (simp add: word_less_nat_alt del: of_nat_Suc)
  moreover have "map (c_bytes c2) [0..<length r0] = r"
    using assms(6) by (intro nth_equalityI) (simp_all add: c2_def)
  ultimately have "\<exists>c. exec (try_retrieve_result (length r0)) (reset_ptr c2) = Inr (Inr r, c)"
    using assms(5,6) len by (cases r0) (simp_all add: try_retrieve_result_def reset_ptr_def TX_CACHE_SZ_def)
  then show ?thesis
    using ee(1) exec_exit_infinite [OF ee(2) [where u = "user_tx s"]] cr
    by (fastforce simp: exec_seq user_lift c1_def)
qed

theorem loop_overwrites_first_result_witness:
  "\<exists>t t'. exec (seq enter_idempotent_loop (seq exit_infinite_idempotent_loop
        (seq (on_user_cache (cache_result [9])) (on_user_cache (writes [reset_ptr]))))) (demo_user [5]) = Inr ((), t) \<and>
      exec (on_user_cache (try_retrieve_result (length [5::byte]))) t = Inr (Inr [9], t')"
  by (rule loop_overwrites_first_result [OF demo_user_cache(1,2) _ _ _ _ demo_user_cache(3,4)])
    (simp_all add: cacheable_def TX_CACHE_SZ_def)

section \<open>The end of an iteration\<close>

text \<open>A loop cut off after its tail has been taken back to \<open>t0\<close>: the counter at \<open>p\<close> still has to get
  the value \<open>v\<close>, or has it already; \<open>m\<close> is the memory before.\<close>

type_synonym loop_end = "usize \<times> usize \<times> usize \<times> txs"

abbreviation counted :: "loop_end \<Rightarrow> usize \<Rightarrow> byte" where
  "counted x \<equiv> (case x of (t0, p, v, u) \<Rightarrow> pm_mem (t_pm (put_usize p v u)))"

fun loop_end_inv :: "loop_end \<Rightarrow> user_tx_info \<Rightarrow> bool" where
  "loop_end_inv (t0, p, v, u) s \<longleftrightarrow> c_tail (t_cache (user_tx s)) = t0 \<and> loop_cnt_ptr s = Some p \<and>
     loop_cnt_log s + loop_step s = v \<and>
     (pm_mem (t_pm (user_tx s)) = counted (t0, p, v, u) \<or>
      tx_id (c_ptr (t_cache (user_tx s))) > tx_id t0 \<and> pm_mem (t_pm (user_tx s)) = pm_mem (t_pm u))"

fun loop_ended :: "loop_end \<Rightarrow> user_tx_info \<Rightarrow> bool" where
  "loop_ended (t0, p, v, u) s \<longleftrightarrow> c_tail (t_cache (user_tx s)) = t0 \<and>
     pm_mem (t_pm (user_tx s)) = counted (t0, p, v, u)"

lemma write_bytes_twice: "length bs < 2 ^ 32 \<Longrightarrow> write_bytes (write_bytes m a bs) a bs = write_bytes m a bs"
  by (rule ext) (simp add: write_bytes_apply)

lemma put_usize_twice: "put_usize p v (put_usize p v u) = put_usize p v u"
  unfolding put_usize_def by (simp add: write_bytes_twice del: write_bytes.simps)

lemma put_usize_mem: "pm_mem (t_pm u) = pm_mem (t_pm u') \<Longrightarrow>
  pm_mem (t_pm (put_usize p v u)) = pm_mem (t_pm (put_usize p v u'))"
  by (simp add: put_usize_def)

lemma put_usize_cache [simp]: "t_cache (put_usize p v u) = t_cache u"
  by (simp add: put_usize_def)

interpretation loop_end: roll_back loop_end_inv "\<lambda>_. recover_loop_end" loop_ended
proof
  fix x s t
  assume i: "loop_end_inv x s" and t: "t \<in> set (states recover_loop_end s)"
  obtain t0 p v u where x: "x = (t0, p, v, u)" by (metis prod_cases4)
  have "t = s \<or> t = s\<lparr>user_tx := put_usize p v (user_tx s)\<rparr>"
    using t i x by (auto simp: recover_loop_end_def set_loop_cnt_def Let_def user_lift split: if_splits)
  moreover have "pm_mem (t_pm (put_usize p v (user_tx s))) = counted (t0, p, v, u)"
    using i x put_usize_mem [of "user_tx s" u p v] put_usize_mem [of "user_tx s" "put_usize p v u" p v]
    by (auto simp: put_usize_twice)
  ultimately show "loop_end_inv x t" using i x by auto
next
  fix x s
  assume i: "loop_end_inv x s"
  obtain t0 p v u where x: "x = (t0, p, v, u)" by (metis prod_cases4)
  have "pm_mem (t_pm (put_usize p v (user_tx s))) = counted (t0, p, v, u)"
    using i x put_usize_mem [of "user_tx s" u p v] put_usize_mem [of "user_tx s" "put_usize p v u" p v]
    by (auto simp: put_usize_twice)
  then show "\<exists>b t. exec recover_loop_end s = Inr (b, t) \<and> loop_ended x t"
    using i x by (auto simp: recover_loop_end_def set_loop_cnt_def Let_def user_lift)
qed



end
