(* ===== verification/Syscall.thy ===== *)
theory Syscall
  imports UserTx
begin

text \<open>
  System calls inside a user transaction (\<open>src/syscalls.rs\<close>, \<open>src/user/transaction.rs\<close>, and the
  recovery of a task in \<open>src/task.rs\<close>). A user transaction that is rolled back runs its system calls
  again; those that had returned are answered from the replay cache, and the one that had not resumes
  with the results of its own kernel transactions in the kernel transaction's cache.
\<close>

section \<open>The replay cache\<close>

definition SYSCALL_REPLAY_CACHE_SZ :: nat where
  "SYSCALL_REPLAY_CACHE_SZ = 4 * 16"

record rcache =
  r_ptr :: nat
  r_tail :: nat
  r_cache :: "nat \<Rightarrow> byte"

definition entry_sz :: "nat \<Rightarrow> nat" where
  "entry_sz n = unat (align_up (of_nat n) ARCH_ALIGN)"

text \<open>The copy takes whole words; \<open>beyond\<close> is what lies in memory behind the entry.\<close>

definition add_entry_start :: "(nat \<Rightarrow> byte) \<Rightarrow> byte list \<Rightarrow> (rcache, unit) prog" where
  "add_entry_start beyond entry = Read (\<lambda>c. let aligned_sz = entry_sz (length entry); tail = r_tail c in
     if \<not> tail + aligned_sz \<le> SYSCALL_REPLAY_CACHE_SZ then Fail Panic
     else if SYSCALL_REPLAY_CACHE_SZ \<le> tail then Fail Panic
     else seq (writes (map (\<lambda>i c. c\<lparr>r_cache := (r_cache c)(tail + i :=
            (if i < length entry then entry ! i else beyond (i - length entry)))\<rparr>) [0..<aligned_sz]))
       (writes [\<lambda>c. c\<lparr>r_tail := tail + aligned_sz\<rparr>]))"

definition add_empty_entry_start :: "rcache \<Rightarrow> rcache" where
  "add_empty_entry_start c = c\<lparr>r_tail := r_tail c + unat ARCH_ALIGN\<rparr>"

definition add_entry_commit :: "rcache \<Rightarrow> rcache" where
  "add_entry_commit c = c\<lparr>r_ptr := r_tail c\<rparr>"

definition get_entry :: "nat \<Rightarrow> (rcache, unit + byte list) prog" where
  "get_entry n = Read (\<lambda>c. if r_ptr c < r_tail c then
       (if SYSCALL_REPLAY_CACHE_SZ \<le> r_ptr c then Fail Panic
        else if SYSCALL_REPLAY_CACHE_SZ < r_ptr c + n then Fail Undefined
        else Write (\<lambda>c. c\<lparr>r_ptr := r_ptr c + entry_sz n\<rparr>)
          (Return (Inr (map (\<lambda>i. r_cache c (r_ptr c + i)) [0..<n]))))
     else Return (Inl ()))"

definition get_empty_entry :: "(rcache, unit + unit) prog" where
  "get_empty_entry = Read (\<lambda>c. if r_ptr c < r_tail c
     then Write (\<lambda>c. c\<lparr>r_ptr := r_ptr c + unat ARCH_ALIGN\<rparr>) (Return (Inr ()))
     else Return (Inl ()))"

definition replay_restart :: "rcache \<Rightarrow> rcache" where
  "replay_restart c = c\<lparr>r_ptr := 0\<rparr>"

definition replay_reset :: "rcache \<Rightarrow> rcache" where
  "replay_reset c = c\<lparr>r_tail := 0\<rparr>"

section \<open>The transactional part of a task\<close>

text \<open>The two transactions of a task have journals of their own and work on the same memory.\<close>

record ptask =
  utx :: user_tx_info
  sys_logs :: "nat \<Rightarrow> byte"
  sys_jtail :: nat
  sys_cache :: txc
  replay :: rcache
  p_list_tx_done :: bool
  p_generation :: usize
  p_recovery_mode :: bool
  current_generation :: usize

definition sys_view :: "ptask \<Rightarrow> txs" where
  "sys_view s = \<lparr>t_pm = \<lparr>pm_mem = pm_mem (t_pm (user_tx (utx s))), j_logs = sys_logs s, j_tail = sys_jtail s\<rparr>,
     t_cache = sys_cache s\<rparr>"

definition sys_put :: "txs \<Rightarrow> ptask \<Rightarrow> ptask" where
  "sys_put t s = s\<lparr>utx := (utx s)\<lparr>user_tx := (user_tx (utx s))\<lparr>t_pm := (t_pm (user_tx (utx s)))\<lparr>pm_mem := pm_mem (t_pm t)\<rparr>\<rparr>\<rparr>,
     sys_logs := j_logs (t_pm t), sys_jtail := j_tail (t_pm t), sys_cache := t_cache t\<rparr>"

definition on_sys :: "(txs, 'a) prog \<Rightarrow> (ptask, 'a) prog" where
  "on_sys p = lift sys_view sys_put p"

definition on_utx :: "(user_tx_info, 'a) prog \<Rightarrow> (ptask, 'a) prog" where
  "on_utx p = lift utx (\<lambda>u s. s\<lparr>utx := u\<rparr>) p"

definition on_replay :: "(rcache, 'a) prog \<Rightarrow> (ptask, 'a) prog" where
  "on_replay p = lift replay (\<lambda>r s. s\<lparr>replay := r\<rparr>) p"

definition user_tx_start :: "(ptask, unit) prog" where
  "user_tx_start = on_replay (writes [replay_restart])"

definition user_tx_end :: "(ptask, unit) prog" where
  "user_tx_end = on_replay (writes [replay_reset])"

definition restart_syscall_tx_cache :: "(ptask, unit) prog" where
  "restart_syscall_tx_cache = on_sys (on_cache (writes [reset_ptr]))"

definition commit_syscall_tx_cache :: "(ptask, unit) prog" where
  "commit_syscall_tx_cache = on_sys (on_cache (writes [commit_reset_tail]))"

definition reset_list_tx :: "(ptask, unit) prog" where
  "reset_list_tx = writes [\<lambda>s. s\<lparr>p_list_tx_done := False\<rparr>]"

definition syscall_end :: "(nat \<Rightarrow> byte) \<Rightarrow> byte list \<Rightarrow> (ptask, byte list) prog" where
  "syscall_end beyond r = seq (on_replay (add_entry_start beyond r)) (seq commit_syscall_tx_cache
     (seq reset_list_tx (seq (on_replay (writes [add_entry_commit])) (Return r))))"

definition syscall_end_noret :: "(ptask, unit) prog" where
  "syscall_end_noret = seq (on_replay (writes [add_empty_entry_start])) (seq commit_syscall_tx_cache
     (seq reset_list_tx (on_replay (writes [add_entry_commit]))))"

definition syscall_end_outside_tx :: "(ptask, unit) prog" where
  "syscall_end_outside_tx = seq commit_syscall_tx_cache reset_list_tx"

text \<open>A system call with a result of \<open>n\<close> bytes: \<open>syscall_begin\<close>, the body, \<open>syscall_end\<close>.\<close>

definition sys_call :: "(nat \<Rightarrow> byte) \<Rightarrow> nat \<Rightarrow> (ptask, byte list) prog \<Rightarrow> (ptask, byte list) prog" where
  "sys_call beyond n b = bind (on_replay (get_entry n)) (\<lambda>r. case r of Inr ret \<Rightarrow> Return ret
     | Inl _ \<Rightarrow> seq restart_syscall_tx_cache (bind b (syscall_end beyond)))"

definition sys_call_noret :: "(ptask, unit) prog \<Rightarrow> (ptask, unit) prog" where
  "sys_call_noret b = bind (on_replay get_empty_entry) (\<lambda>r. case r of Inr _ \<Rightarrow> Halt
     | Inl _ \<Rightarrow> seq restart_syscall_tx_cache (seq b syscall_end_noret))"

text \<open>Transactions whose body may make system calls: the body works on the whole task, not only on
  the journalled memory.\<close>

definition run_sys :: "(ptask, byte list) prog \<Rightarrow> (ptask, byte list) prog" where
  "run_sys f = seq (on_utx (on_user_tx begin_tx)) (bind f (\<lambda>ret.
     seq (on_utx (on_user_tx (commit_tx ret))) (Return ret)))"

definition run_pure_sys :: "(ptask, byte list) prog \<Rightarrow> (ptask, byte list) prog" where
  "run_pure_sys f = seq (on_utx (on_user_tx begin_tx)) (bind f (\<lambda>ret.
     seq (on_utx (on_user_cache (cache_result ret))) (Return ret)))"

definition run_no_replay_sys :: "(ptask, 'a) prog \<Rightarrow> (ptask, 'a) prog" where
  "run_no_replay_sys f = seq (on_utx (on_user_tx begin_tx)) (bind f (\<lambda>ret.
     seq (on_utx (on_user_tx commit_no_replay_tx)) (Return ret)))"

text \<open>What user code calls: a result of \<open>n\<close> bytes that is in the cache is returned without running the
  body. (The hooks before and after it count cycles in profiling builds.)\<close>

definition cached_or :: "nat \<Rightarrow> (ptask, byte list) prog \<Rightarrow> (ptask, byte list) prog" where
  "cached_or n p = bind (on_utx (on_user_cache (try_retrieve_result n))) (\<lambda>r. case r of
     Inr cache_res \<Rightarrow> Return cache_res | Inl _ \<Rightarrow> p)"

definition user_run :: "nat \<Rightarrow> (pm, byte list) prog \<Rightarrow> (ptask, byte list) prog" where
  "user_run n f = cached_or n (on_utx (on_user_tx (run f)))"

definition user_run_sys :: "nat \<Rightarrow> (ptask, byte list) prog \<Rightarrow> (ptask, byte list) prog" where
  "user_run_sys n f = cached_or n (seq user_tx_start (bind (run_sys f) (\<lambda>r. seq user_tx_end (Return r))))"

definition user_run_pure_sys :: "nat \<Rightarrow> (ptask, byte list) prog \<Rightarrow> (ptask, byte list) prog" where
  "user_run_pure_sys n f = cached_or n (seq user_tx_start (bind (run_pure_sys f) (\<lambda>r. seq user_tx_end (Return r))))"

definition user_fast_run :: "nat \<Rightarrow> (pm, byte list) prog \<Rightarrow> (ptask, byte list) prog" where
  "user_fast_run n f = cached_or n (on_utx (on_user_tx (fast_run f)))"

definition user_try_run :: "(byte list \<Rightarrow> bool) \<Rightarrow> nat \<Rightarrow> (pm, byte list) prog \<Rightarrow> (ptask, byte list) prog" where
  "user_try_run is_TxRetry n f = cached_or n (on_utx (on_user_tx (try_run is_TxRetry f)))"

definition user_run_once :: "(pm, 'a) prog \<Rightarrow> (ptask, 'a) prog" where
  "user_run_once f = on_utx (on_user_tx (run_no_replay f))"

definition user_run_sys_once :: "(ptask, 'a) prog \<Rightarrow> (ptask, 'a) prog" where
  "user_run_sys_once f = seq user_tx_start (bind (run_no_replay_sys f) (\<lambda>r. seq user_tx_end (Return r)))"

section \<open>The recovery of a task\<close>

definition user_recovery :: "(ptask, unit) prog" where
  "user_recovery = bind (on_utx (on_user_tx check_committed)) (\<lambda>ok.
     seq (if ok then user_tx_end else on_utx (on_user_tx roll_back_tx)) (on_utx restart))"

definition is_crashed :: "ptask \<Rightarrow> bool" where
  "is_crashed s \<longleftrightarrow> p_generation s \<noteq> current_generation s"

definition jit_recovery :: "(ptask, unit) prog" where
  "jit_recovery = Read (\<lambda>s. if \<not> is_crashed s then Halt
     else seq (writes [\<lambda>s. s\<lparr>p_recovery_mode := True\<rparr>])
       (seq (on_sys roll_back_if_uncommitted)
       (seq (Read (\<lambda>s. if r_ptr (replay s) < r_tail (replay s)
            then seq commit_syscall_tx_cache reset_list_tx else Halt))
       (seq (on_utx recover_loop_end)
       (seq user_recovery
         (writes [\<lambda>s. s\<lparr>p_generation := current_generation s\<rparr>]))))))"

definition increase_generation :: "ptask \<Rightarrow> ptask" where
  "increase_generation s = s\<lparr>current_generation := current_generation s + 1\<rparr>"

interpretation sys_lens: lens sys_view sys_put
  by unfold_locales (simp_all add: sys_view_def sys_put_def)

interpretation utx_lens: lens utx "\<lambda>u s. s\<lparr>utx := u\<rparr>"
  by unfold_locales simp_all

interpretation replay_lens: lens replay "\<lambda>r s. s\<lparr>replay := r\<rparr>"
  by unfold_locales simp_all

lemmas task_lift = on_sys_def on_utx_def on_replay_def sys_lens.exec_lift utx_lens.exec_lift replay_lens.exec_lift

section \<open>The replay cache as a list of entries\<close>

lemma entry_sz_bounds:
  assumes "n \<le> SYSCALL_REPLAY_CACHE_SZ"
  shows "n \<le> entry_sz n" "entry_sz n < n + 4"
proof -
  have n: "unat (of_nat n :: usize) = n" using assms by (intro unat_of_nat_small) (simp add: SYSCALL_REPLAY_CACHE_SZ_def)
  have "entry_sz n = (n + 3) div 4 * 4"
    using unat_arch_align_up [of "of_nat n"] n assms
    by (simp add: entry_sz_def arch_align_up SYSCALL_REPLAY_CACHE_SZ_def)
  then show "n \<le> entry_sz n" "entry_sz n < n + 4" by simp_all
qed

fun entries_at :: "(nat \<Rightarrow> byte) \<Rightarrow> nat \<Rightarrow> byte list list \<Rightarrow> bool" where
  "entries_at f p [] \<longleftrightarrow> True"
| "entries_at f p (r # rs) \<longleftrightarrow> (\<forall>i<length r. f (p + i) = r ! i) \<and> entries_at f (p + entry_sz (length r)) rs"

definition span :: "byte list list \<Rightarrow> nat" where
  "span rs = sum_list (map (\<lambda>r. entry_sz (length r)) rs)"

definition recorded :: "byte list list \<Rightarrow> rcache \<Rightarrow> bool" where
  "recorded rs c \<longleftrightarrow> r_tail c = span rs \<and> entries_at (r_cache c) 0 rs"

definition recordable :: "byte list list \<Rightarrow> bool" where
  "recordable rs \<longleftrightarrow> span rs \<le> SYSCALL_REPLAY_CACHE_SZ \<and> (\<forall>r\<in>set rs. r \<noteq> [] \<and> length r \<le> SYSCALL_REPLAY_CACHE_SZ)"

lemma span_simps [simp]: "span [] = 0" "span (r # rs) = entry_sz (length r) + span rs" "span (rs @ rs') = span rs + span rs'"
  by (simp_all add: span_def)

lemma entries_at_append:
  "entries_at f p (rs @ rs') \<longleftrightarrow> entries_at f p rs \<and> entries_at f (p + span rs) rs'"
  by (induction rs arbitrary: p) (simp_all add: add.assoc)

lemma entries_at_cong:
  "(\<And>i. p \<le> i \<Longrightarrow> i < p + span rs \<Longrightarrow> f i = g i) \<Longrightarrow> \<forall>r\<in>set rs. length r \<le> SYSCALL_REPLAY_CACHE_SZ \<Longrightarrow>
   entries_at f p rs = entries_at g p rs"
proof (induction rs arbitrary: p)
  case (Cons r rs)
  have "length r \<le> entry_sz (length r)" using Cons.prems(2) entry_sz_bounds by simp
  then have "\<forall>i<length r. f (p + i) = g (p + i)" using Cons.prems(1) by simp
  moreover have "entries_at f (p + entry_sz (length r)) rs = entries_at g (p + entry_sz (length r)) rs"
    using Cons.prems by (intro Cons.IH) auto
  ultimately show ?case by auto
qed simp

lemma copy_entry_fold:
  "fold (\<lambda>w. w) (map (\<lambda>i c. c\<lparr>r_cache := (r_cache c)(p + i := h i)\<rparr>) [0..<k]) c =
   c\<lparr>r_cache := \<lambda>i. if p \<le> i \<and> i < p + k then h (i - p) else r_cache c i\<rparr>"
proof (induction k)
  case 0
  have "(\<lambda>i. if p \<le> i \<and> i < p + 0 then h (i - p) else r_cache c i) = r_cache c" by (auto simp: fun_eq_iff)
  then show ?case by simp
next
  case (Suc k)
  have "(\<lambda>i. if p \<le> i \<and> i < p + k then h (i - p) else r_cache c i)(p + k := h k) =
    (\<lambda>i. if p \<le> i \<and> i < p + Suc k then h (i - p) else r_cache c i)" by (auto simp: fun_eq_iff)
  then show ?case using Suc by (simp del: fun_upd_apply)
qed

lemma add_entry_spec:
  assumes "recorded rs c" "recordable (rs @ [r])"
  shows "\<exists>c'. exec (add_entry_start beyond r) c = Inr ((), c') \<and> recorded (rs @ [r]) c' \<and> r_ptr c' = r_ptr c"
proof -
  let ?n = "entry_sz (length r)" and ?p = "span rs"
  let ?h = "\<lambda>i. if i < length r then r ! i else beyond (i - length r)"
  let ?f = "\<lambda>i. if ?p \<le> i \<and> i < ?p + ?n then ?h (i - ?p) else r_cache c i"
  have r: "r \<noteq> []" "length r \<le> ?n" "?p + ?n \<le> SYSCALL_REPLAY_CACHE_SZ" "r_tail c = ?p"
    using assms entry_sz_bounds [of "length r"] by (auto simp: recordable_def recorded_def)
  then have "?p < SYSCALL_REPLAY_CACHE_SZ" by (cases r) auto
  then have "exec (add_entry_start beyond r) c = Inr ((), c\<lparr>r_cache := ?f, r_tail := ?p + ?n\<rparr>)"
    using r unfolding add_entry_start_def Let_def
    by (simp add: exec_seq exec_writes copy_entry_fold [of ?p ?h] del: fun_upd_apply)
  moreover have "entries_at ?f 0 rs"
    using assms entries_at_cong [of 0 rs ?f "r_cache c"] by (simp add: recorded_def recordable_def)
  moreover have "entries_at ?f ?p [r]" using r(2) by simp
  ultimately show ?thesis by (simp add: recorded_def entries_at_append del: entries_at.simps)
qed

lemma get_entry_spec:
  assumes "recorded (ps @ r # qs) c" "recordable (ps @ r # qs)" "r_ptr c = span ps"
  shows "exec (get_entry (length r)) c = Inr (Inr r, c\<lparr>r_ptr := span (ps @ [r])\<rparr>)"
proof -
  have len: "r \<noteq> []" "length r \<le> entry_sz (length r)"
    using assms(2) entry_sz_bounds [of "length r"] by (auto simp: recordable_def)
  have fit: "span ps + entry_sz (length r) \<le> SYSCALL_REPLAY_CACHE_SZ" using assms(2) by (simp add: recordable_def)
  have "0 < length r" using len(1) by simp
  then have "0 < entry_sz (length r)" using len(2) by linarith
  then have b: "span ps < r_tail c" "span ps < SYSCALL_REPLAY_CACHE_SZ" "span ps + length r \<le> SYSCALL_REPLAY_CACHE_SZ"
    using len fit assms(1) by (simp_all add: recorded_def)
  have "map (\<lambda>i. r_cache c (span ps + i)) [0..<length r] = r"
    using assms(1) by (intro nth_equalityI) (simp_all add: recorded_def entries_at_append)
  then show ?thesis using b assms(3) by (simp add: get_entry_def)
qed

primrec get_entries :: "nat list \<Rightarrow> (rcache, (unit + byte list) list) prog" where
  "get_entries [] = Return []"
| "get_entries (n # ns) = bind (get_entry n) (\<lambda>r. bind (get_entries ns) (\<lambda>rs. Return (r # rs)))"

lemma get_entries_spec:
  "recorded (ps @ qs) c \<Longrightarrow> recordable (ps @ qs) \<Longrightarrow> r_ptr c = span ps \<Longrightarrow>
   exec (get_entries (map length qs)) c = Inr (map Inr qs, c\<lparr>r_ptr := span (ps @ qs)\<rparr>)"
proof (induction qs arbitrary: ps c)
  case Nil
  then show ?case by simp
next
  case (Cons r qs)
  have "exec (get_entries (map length qs)) (c\<lparr>r_ptr := span (ps @ [r])\<rparr>) =
      Inr (map Inr qs, c\<lparr>r_ptr := span (ps @ [r])\<rparr>\<lparr>r_ptr := span ((ps @ [r]) @ qs)\<rparr>)"
    using Cons.prems by (intro Cons.IH) (simp_all add: recorded_def)
  then show ?case using get_entry_spec [OF Cons.prems] by (simp add: exec_bind)
qed

text \<open>Claim C13. The results of system calls survive a restart of their user transaction: record one more
  result, start over, and the calls are answered with all recorded results in order, the padding
  between them notwithstanding; then the cache is used up.\<close>

theorem syscall_results_replayed:
  assumes "recorded rs c" "recordable (rs @ [r])"
  shows "\<exists>c'. exec (seq (add_entry_start beyond r) (seq (writes [add_entry_commit, replay_restart])
      (get_entries (map length (rs @ [r]))))) c = Inr (map Inr (rs @ [r]), c') \<and>
    exec (get_entry n) c' = Inr (Inl (), c')"
proof -
  obtain c1 where c1: "exec (add_entry_start beyond r) c = Inr ((), c1)" "recorded (rs @ [r]) c1"
    using add_entry_spec [OF assms] by blast
  let ?c2 = "replay_restart (add_entry_commit c1)"
  have "recorded (rs @ [r]) ?c2" using c1(2) by (simp add: recorded_def replay_restart_def add_entry_commit_def)
  then have "exec (get_entries (map length (rs @ [r]))) ?c2 = Inr (map Inr (rs @ [r]), ?c2\<lparr>r_ptr := span (rs @ [r])\<rparr>)"
    using get_entries_spec [of "[]" "rs @ [r]" ?c2] assms(2) by (simp add: replay_restart_def)
  moreover have "r_tail ?c2 = span (rs @ [r])" using c1(2) by (simp add: recorded_def replay_restart_def add_entry_commit_def)
  ultimately show ?thesis using c1(1) by (simp add: exec_seq get_entry_def)
qed

theorem syscall_results_replayed_witness:
  "\<exists>c'. exec (seq (add_entry_start (\<lambda>_. 0) [1, 2, 3]) (seq (writes [add_entry_commit, replay_restart])
      (get_entries (map length ([[7]] @ [[1, 2, 3 :: byte]])))))
      \<lparr>r_ptr = 4, r_tail = 4, r_cache = (\<lambda>_. 7)\<rparr> = Inr (map Inr ([[7]] @ [[1, 2, 3]]), c') \<and>
    exec (get_entry 4) c' = Inr (Inl (), c')"
  by (rule syscall_results_replayed)
    (simp_all add: recorded_def recordable_def entry_sz_def align_up_def ARCH_ALIGN_def SYSCALL_REPLAY_CACHE_SZ_def)

section \<open>Resuming a system call\<close>

text \<open>A task that was cut off between two kernel transactions of a system call: the first has committed
  with result \<open>r\<close>, no journal has records, the user transaction has not committed and no loop was
  being left.\<close>

definition at_rest :: "ptask \<Rightarrow> bool" where
  "at_rest s \<longleftrightarrow> sys_jtail s = 0 \<and> \<not> is_committed (t_cache (user_tx (utx s))) \<and> j_tail (t_pm (user_tx (utx s))) = 0 \<and>
     tx_id (c_ptr (t_cache (user_tx (utx s)))) \<le> tx_id (c_tail (t_cache (user_tx (utx s))))"

definition cut_in_syscall :: "byte list \<Rightarrow> ptask \<Rightarrow> bool" where
  "cut_in_syscall r s \<longleftrightarrow> is_crashed s \<and> holds [r] True (sys_cache s) \<and> at_rest s"

text \<open>What the system call does first when it is made again: its first transaction.\<close>

definition first_tx_again :: "job \<Rightarrow> (ptask, byte list) prog" where
  "first_tx_again j = seq restart_syscall_tx_cache (on_sys (run_relaxed (j_size j) (tx_body (j, []))))"

abbreviation task_mem :: "ptask \<Rightarrow> usize \<Rightarrow> byte" where
  "task_mem s \<equiv> pm_mem (t_pm (user_tx (utx s)))"

lemma recover_empty: "j_tail s = 0 \<Longrightarrow> exec recover s = Inr ((), s)"
  by (simp add: recover_def exec_seq recover_loop.simps)

lemma roll_back_clean:
  "j_tail (t_pm t) = 0 \<Longrightarrow> exec roll_back_if_uncommitted t = Inr ((), t)"
  by (cases "is_committed (t_cache t)")
    (simp_all add: recovery_committed recovery_uncommitted tx_lift recover_empty clear_def)

lemma sys_put_view [simp]: "sys_put (sys_view s) s = s"
  by (rule sys_lens.put_get)

text \<open>The state after the recovery: an unfinished replay ends the kernel transactions of the call.\<close>

definition recovered_task :: "ptask \<Rightarrow> ptask" where
  "recovered_task s = (let s1 = s\<lparr>p_recovery_mode := True\<rparr>;
     s2 = (if r_ptr (replay s) < r_tail (replay s) then s1\<lparr>sys_cache := commit_reset_tail (sys_cache s), p_list_tx_done := False\<rparr> else s1)
   in s2\<lparr>utx := (utx s)\<lparr>user_tx := (user_tx (utx s))\<lparr>t_cache := reset_ptr (t_cache (user_tx (utx s)))\<rparr>, stack_top := 0\<rparr>,
        p_generation := current_generation s\<rparr>)"

lemma jit_recovery_at_rest:
  assumes "is_crashed s" "at_rest s"
  shows "exec jit_recovery s = Inr ((), recovered_task s)"
proof -
  define s1 where "s1 = s\<lparr>p_recovery_mode := True\<rparr>"
  define s2 where "s2 = (if r_ptr (replay s) < r_tail (replay s)
    then s1\<lparr>sys_cache := commit_reset_tail (sys_cache s), p_list_tx_done := False\<rparr> else s1)"
  have v: "j_tail (t_pm (sys_view s1)) = 0" using assms(2) by (simp add: sys_view_def s1_def at_rest_def)
  have 1: "exec (on_sys roll_back_if_uncommitted) s1 = Inr ((), s1)"
    using roll_back_clean [OF v] by (simp add: task_lift)
  have 2: "exec (Read (\<lambda>s. if r_ptr (replay s) < r_tail (replay s)
      then seq commit_syscall_tx_cache reset_list_tx else Halt)) s1 = Inr ((), s2)"
    by (simp add: s2_def s1_def exec_seq commit_syscall_tx_cache_def reset_list_tx_def task_lift tx_lift
        sys_view_def sys_put_def)
  have u: "utx s2 = utx s" "current_generation s2 = current_generation s" by (simp_all add: s2_def s1_def)
  have 3: "exec (on_utx recover_loop_end) s2 = Inr ((), s2)"
    using assms(2) u by (auto simp: task_lift recover_loop_end_def Let_def at_rest_def)
  let ?u = "(utx s)\<lparr>user_tx := (user_tx (utx s))\<lparr>t_cache := reset_ptr (t_cache (user_tx (utx s)))\<rparr>, stack_top := 0\<rparr>"
  have c: "exec (on_user_tx check_committed) (utx s) = Inr (False, utx s)"
     "exec (on_user_tx roll_back_tx) (utx s) = Inr ((), utx s)"
    using assms(2) by (simp_all add: user_lift check_committed_def roll_back_tx_def recover_empty at_rest_def)
  have "exec restart (utx s) = Inr ((), ?u)" by (simp add: restart_def exec_seq user_lift)
  then have 4: "exec user_recovery s2 = Inr ((), s2\<lparr>utx := ?u\<rparr>)"
    using c u by (simp add: user_recovery_def exec_bind exec_seq task_lift)
  show ?thesis
    using assms(1) 1 2 3 4 u(2) by (simp add: jit_recovery_def exec_seq s1_def recovered_task_def Let_def s2_def)
qed

lemma jit_recovery_clean:
  assumes "cut_in_syscall r s"
  shows "\<exists>t. exec jit_recovery s = Inr ((), t) \<and> task_mem t = task_mem s \<and> sys_jtail t = 0 \<and>
    replay t = replay s \<and>
    sys_cache t = (if r_ptr (replay s) < r_tail (replay s) then commit_reset_tail (sys_cache s) else sys_cache s)"
  using jit_recovery_at_rest [of s] assms
  by (intro exI [of _ "recovered_task s"]) (simp add: cut_in_syscall_def recovered_task_def Let_def at_rest_def)

text \<open>Claim C14. A system call that was cut off after its first transaction had committed resumes behind
  it: when no replay was under way, the recovery of the task keeps the cached result, and making the
  call again returns it without touching the memory.\<close>

theorem interrupted_syscall_resumes:
  assumes "cut_in_syscall r s" "r_ptr (replay s) = r_tail (replay s)" "j_size j = length r" "cacheable [r]"
  shows "\<exists>t t'. exec jit_recovery s = Inr ((), t) \<and> exec (first_tx_again j) t = Inr (r, t') \<and>
    task_mem t' = task_mem s"
proof -
  obtain t where t: "exec jit_recovery s = Inr ((), t)" "task_mem t = task_mem s" "sys_cache t = sys_cache s"
    using jit_recovery_clean [OF assms(1)] assms(2) by auto
  let ?v = "sys_view t\<lparr>t_cache := reset_ptr (sys_cache t)\<rparr>"
  have h: "holds ([] @ r # []) True (t_cache ?v)" "replayed [] (t_cache ?v)"
    using assms(1) t(3) holds_init(3) by (simp_all add: cut_in_syscall_def)
  obtain p where p: "exec (run_relaxed (j_size j) (tx_body (j, []))) ?v = Inr (r, ?v\<lparr>t_cache := (t_cache ?v)\<lparr>c_ptr := p\<rparr>\<rparr>)"
    using replay_step(1) [OF _ h assms(3)] assms(4) by auto
  have "exec restart_syscall_tx_cache t = Inr ((), sys_put ?v t)"
    by (simp add: restart_syscall_tx_cache_def task_lift tx_lift sys_view_def)
  then have "exec (first_tx_again j) t = Inr (r, sys_put (?v\<lparr>t_cache := (t_cache ?v)\<lparr>c_ptr := p\<rparr>\<rparr>) (sys_put ?v t))"
    using p by (simp add: first_tx_again_def exec_seq task_lift sys_lens.get_put)
  then show ?thesis using t(1,2) by (auto simp: sys_put_def sys_view_def)
qed

text \<open>Claim C36. The recovery takes an unfinished replay for a system call that was about to return. When a
  second power failure hits the task while it replays earlier system calls of the same user
  transaction, the cached results of the interrupted call are dropped and its first transaction,
  which had committed, runs a second time.\<close>

theorem interrupted_replay_repeats_transaction:
  assumes "cut_in_syscall r s" "r_ptr (replay s) < r_tail (replay s)" "well_behaved j" "j_size j \<le> TX_CACHE_SZ"
  shows "\<exists>t t'. exec jit_recovery s = Inr ((), t) \<and> exec (first_tx_again j) t = Inr (j_res j [] (task_mem s), t') \<and>
    task_mem t' = stores (j_acts j [] (task_mem s)) (task_mem s)"
proof -
  obtain t where t: "exec jit_recovery s = Inr ((), t)" "task_mem t = task_mem s"
     "sys_cache t = commit_reset_tail (sys_cache s)" "sys_jtail t = 0"
    using jit_recovery_clean [OF assms(1)] assms(2) by auto
  let ?v = "sys_view t\<lparr>t_cache := reset_ptr (sys_cache t)\<rparr>"
  have h: "holds [] True (t_cache ?v)" "replayed [] (t_cache ?v)" "is_empty (t_pm ?v)"
    using t(3,4) by (simp_all add: holds_def replayed_def commit_reset_tail_def reset_ptr_def flagged_def
        composite_def sys_view_def is_empty_def)
  have m: "pm_mem (t_pm ?v) = task_mem s" using t(2) by (simp add: sys_view_def)
  have "cacheable ([] @ [j_res j [] (pm_mem (t_pm ?v))])"
    using assms(3,4) by (simp add: cacheable_def well_behaved_def)
  then obtain u where u: "exec (run_relaxed (j_size j) (tx_body (j, []))) ?v = Inr (j_res j [] (task_mem s), u)"
      "pm_mem (t_pm u) = j_eff j [] (task_mem s)"
    using fresh_step(1) [OF assms(3) _ h(3,1,2)] m by auto
  have "exec restart_syscall_tx_cache t = Inr ((), sys_put ?v t)"
    by (simp add: restart_syscall_tx_cache_def task_lift tx_lift sys_view_def)
  then have "exec (first_tx_again j) t = Inr (j_res j [] (task_mem s), sys_put u (sys_put ?v t))"
    using u(1) by (simp add: first_tx_again_def exec_seq task_lift sys_lens.get_put)
  then show ?thesis using t(1) u(2) by (auto simp: sys_put_def)
qed

definition demo_task :: "nat \<Rightarrow> ptask" where
  "demo_task p = \<lparr>utx = (demo_user [])\<lparr>user_tx := \<lparr>t_pm = demo_pm,
       t_cache = \<lparr>c_bytes = (\<lambda>_. 0), c_ptr = 0, c_tail = 0\<rparr>\<rparr>\<rparr>,
     sys_logs = (\<lambda>_. 0), sys_jtail = 0,
     sys_cache = \<lparr>c_bytes = (\<lambda>_. 5), c_ptr = composite 1 1, c_tail = flagged True (composite 1 1)\<rparr>,
     replay = \<lparr>r_ptr = p, r_tail = 4, r_cache = (\<lambda>_. 0)\<rparr>, p_list_tx_done = False,
     p_generation = 1, p_recovery_mode = False, current_generation = 2\<rparr>"

lemma demo_task_cut: "cut_in_syscall [5] (demo_task p)"
  by (simp add: cut_in_syscall_def at_rest_def demo_task_def is_crashed_def holds_def demo_pm_def is_committed_def TX_COMMITTED_def)

theorem interrupted_syscall_resumes_witness:
  "\<exists>t t'. exec jit_recovery (demo_task 4) = Inr ((), t) \<and> exec (first_tx_again (demo_job 7)) t = Inr ([5], t') \<and>
    task_mem t' = task_mem (demo_task 4)"
  by (rule interrupted_syscall_resumes [OF demo_task_cut])
    (simp_all add: demo_task_def demo_job_def cacheable_def TX_CACHE_SZ_def)

theorem interrupted_replay_repeats_transaction_witness:
  "\<exists>t t'. exec jit_recovery (demo_task 0) = Inr ((), t) \<and>
    exec (first_tx_again (demo_job 7)) t = Inr (j_res (demo_job 7) [] (task_mem (demo_task 0)), t') \<and>
    task_mem t' = stores (j_acts (demo_job 7) [] (task_mem (demo_task 0))) (task_mem (demo_task 0))"
  by (rule interrupted_replay_repeats_transaction [OF demo_task_cut _ demo_job_ok])
    (simp_all add: demo_task_def demo_job_def TX_CACHE_SZ_def)

end
