(* ===== verification/PList.thy ===== *)
theory PList
  imports Prelude
begin

text \<open>
  The intrusive doubly linked lists of \<open>src/list.rs\<close>. Memory is modelled field by field: the
  field \<open>f\<close> of the node or list at address \<open>a\<close> is \<open>f m a\<close>. A \<open>PList<T>\<close> is used in
  three ways, each a wrapper type of the source: circular with a cursor (\<open>CircularPList\<close>, the
  ready lists), ascending (\<open>SortedPList\<close>, the delay, wait and timer lists), and front-inserted
  (\<open>UnsortedPList\<close>, the wait lists of event groups). This theory has the operations, both
  the plain ones and the \<open>optimized_\<close> ones with their operation log, and shows that each
  refines the obvious operation on HOL lists and leaves every other list alone.
\<close>

section \<open>Memory\<close>

record 'v lmem =
  lnext :: "addr \<Rightarrow> addr option"
  lprev :: "addr \<Rightarrow> addr option"
  lowner :: "addr \<Rightarrow> addr option"
  lvalue :: "addr \<Rightarrow> 'v"
  llen :: "addr \<Rightarrow> usize"
  lcursor :: "addr \<Rightarrow> addr option"
  lhead :: "addr \<Rightarrow> addr option"
  lmicro :: usize

definition set_next :: "addr \<Rightarrow> addr option \<Rightarrow> 'v lmem \<Rightarrow> 'v lmem" where
  "set_next a v m = m\<lparr>lnext := (lnext m)(a := v)\<rparr>"

definition set_prev :: "addr \<Rightarrow> addr option \<Rightarrow> 'v lmem \<Rightarrow> 'v lmem" where
  "set_prev a v m = m\<lparr>lprev := (lprev m)(a := v)\<rparr>"

definition set_owner :: "addr \<Rightarrow> addr option \<Rightarrow> 'v lmem \<Rightarrow> 'v lmem" where
  "set_owner a v m = m\<lparr>lowner := (lowner m)(a := v)\<rparr>"

definition set_len :: "addr \<Rightarrow> usize \<Rightarrow> 'v lmem \<Rightarrow> 'v lmem" where
  "set_len l v m = m\<lparr>llen := (llen m)(l := v)\<rparr>"

definition set_cursor :: "addr \<Rightarrow> addr option \<Rightarrow> 'v lmem \<Rightarrow> 'v lmem" where
  "set_cursor l v m = m\<lparr>lcursor := (lcursor m)(l := v)\<rparr>"

definition set_head :: "addr \<Rightarrow> addr option \<Rightarrow> 'v lmem \<Rightarrow> 'v lmem" where
  "set_head l v m = m\<lparr>lhead := (lhead m)(l := v)\<rparr>"

abbreviation inc_len :: "addr \<Rightarrow> 'v lmem \<Rightarrow> 'v lmem" where
  "inc_len l m \<equiv> set_len l (llen m l + 1) m"

abbreviation dec_len :: "addr \<Rightarrow> 'v lmem \<Rightarrow> 'v lmem" where
  "dec_len l m \<equiv> set_len l (llen m l - 1) m"

lemmas setters = set_next_def set_prev_def set_owner_def set_len_def set_cursor_def set_head_def

section \<open>The micro-operation log\<close>

datatype ListOpCode =
    InvalidOp
  | InsertBeforeCursor
  | InsertFront
  | InsertSortedWaitList
  | InsertSortedDelayList
  | PopFront
  | RemoveOp
  | ReadyListNextOp

primrec opcode :: "ListOpCode \<Rightarrow> usize" where
  "opcode InvalidOp = 0"
| "opcode InsertBeforeCursor = 1"
| "opcode InsertFront = 2"
| "opcode InsertSortedWaitList = 3"
| "opcode InsertSortedDelayList = 4"
| "opcode PopFront = 5"
| "opcode RemoveOp = 6"
| "opcode ReadyListNextOp = 7"

definition OP_CODE_SHIFT :: nat where
  "OP_CODE_SHIFT = 12"

definition micro_op_old_len :: "ListOpCode \<Rightarrow> usize \<Rightarrow> usize" where
  "micro_op_old_len c old_len = (push_bit OP_CODE_SHIFT (opcode c)) OR old_len"

text \<open>\<open>transmute\<close> of a number that is no discriminant is undefined behaviour: \<open>None\<close>.\<close>

definition get_micro_op :: "usize \<Rightarrow> ListOpCode option" where
  "get_micro_op w = (let c = drop_bit OP_CODE_SHIFT w in
     if c = 0 then Some InvalidOp
     else if c = 1 then Some InsertBeforeCursor
     else if c = 2 then Some InsertFront
     else if c = 3 then Some InsertSortedWaitList
     else if c = 4 then Some InsertSortedDelayList
     else if c = 5 then Some PopFront
     else if c = 6 then Some RemoveOp
     else if c = 7 then Some ReadyListNextOp
     else None)"

definition get_old_len :: "usize \<Rightarrow> usize" where
  "get_old_len w = w AND 0xfff"

definition start_op_log :: "ListOpCode \<Rightarrow> addr \<Rightarrow> 'v lmem \<Rightarrow> 'v lmem" where
  "start_op_log c l m = m\<lparr>lmicro := micro_op_old_len c (llen m l)\<rparr>"

section \<open>Circular lists\<close>

definition insert_before_cursor :: "addr \<Rightarrow> addr \<Rightarrow> ('v lmem, unit) prog" where
  "insert_before_cursor l n =
     Write (set_owner n (Some l))
    (Read (\<lambda>m. case lcursor m l of
       None \<Rightarrow> writes [set_prev n (Some n), set_next n (Some n),
                       set_cursor l (Some n), set_head l (Some n), inc_len l]
     | Some c \<Rightarrow>
         Write (\<lambda>m. set_prev n (lprev m c) m)
        (Write (\<lambda>m. set_next n (lcursor m l) m)
        (Write (set_prev c (Some n))
        (Read (\<lambda>m. case lprev m n of
           None \<Rightarrow> Fail Panic
         | Some p \<Rightarrow> Write (set_next p (Some n))
            (Read (\<lambda>m. seq (if lcursor m l = lhead m l then writes [set_head l (Some n)] else Halt)
              (writes [inc_len l])))))))))"

definition optimized_insert_before_cursor_impl :: "addr \<Rightarrow> addr \<Rightarrow> ('v lmem, unit) prog" where
  "optimized_insert_before_cursor_impl l n =
     Read (\<lambda>m. if lowner m n \<noteq> None then Halt
     else Write (set_owner n (Some l))
      (Read (\<lambda>m. case lcursor m l of
         None \<Rightarrow> writes [set_prev n (Some n), set_next n (Some n),
                         set_cursor l (Some n), set_head l (Some n), inc_len l]
       | Some c \<Rightarrow>
           Write (\<lambda>m. set_prev n (lprev m c) m)
          (Write (\<lambda>m. set_next n (lcursor m l) m)
          (Read (\<lambda>m. case lprev m n of
             None \<Rightarrow> Fail Undefined
           | Some p \<Rightarrow> Write (set_next p (Some n))
              (Write (set_prev c (Some n))
              (Read (\<lambda>m. seq (if lcursor m l = lhead m l then writes [set_head l (Some n)] else Halt)
                (writes [inc_len l]))))))))))"

definition optimized_insert_before_cursor :: "addr \<Rightarrow> addr \<Rightarrow> ('v lmem, unit) prog" where
  "optimized_insert_before_cursor l n =
     Write (start_op_log InsertBeforeCursor l) (optimized_insert_before_cursor_impl l n)"

definition recover_from_failed_insert_before_cursor ::
  "addr \<Rightarrow> addr \<Rightarrow> usize \<Rightarrow> ('v lmem, unit) prog" where
  "recover_from_failed_insert_before_cursor l n old_len =
     (if old_len = 0 then
        writes [set_prev n (Some n), set_next n (Some n), set_cursor l (Some n),
                set_head l (Some n), set_len l (old_len + 1)]
      else Read (\<lambda>m. case lcursor m l of
        None \<Rightarrow> Fail Undefined
      | Some c \<Rightarrow> seq
          (if lprev m c = Some n then Halt
           else Write (\<lambda>m. set_prev n (lprev m c) m)
             (Write (\<lambda>m. set_next n (lcursor m l) m)
             (Read (\<lambda>m. case lprev m n of
                None \<Rightarrow> Fail Undefined
              | Some p \<Rightarrow> writes [set_next p (Some n), set_prev c (Some n)]))))
          (Read (\<lambda>m. seq (if lcursor m l = lhead m l then writes [set_head l (Some n)] else Halt)
            (writes [set_len l (old_len + 1)])))))"

text \<open>\<open>PList::next\<close> advances the cursor; \<open>next\<close>, \<open>cursor\<close> and \<open>peek_next\<close> read values.\<close>

definition plist_next :: "addr \<Rightarrow> ('v lmem, 'v option) prog" where
  "plist_next l = Read (\<lambda>m. case lcursor m l of
     None \<Rightarrow> Return None
   | Some p \<Rightarrow> Write (set_cursor l (lnext m p))
       (Read (\<lambda>m. Return (map_option (lvalue m) (lcursor m l)))))"

definition plist_cursor :: "addr \<Rightarrow> 'v lmem \<Rightarrow> 'v option" where
  "plist_cursor l m = (case lcursor m l of None \<Rightarrow> None | Some p \<Rightarrow> Some (lvalue m p))"

definition peek_next :: "addr \<Rightarrow> 'v lmem \<Rightarrow> 'v option" where
  "peek_next l m = (case lcursor m l of
     None \<Rightarrow> None | Some p \<Rightarrow> map_option (lvalue m) (lnext m p))"

section \<open>Removal\<close>

text \<open>The \<open>Option::map\<close> with a store in its closure.\<close>

definition store_at :: "addr option \<Rightarrow> (addr \<Rightarrow> 's \<Rightarrow> 's) \<Rightarrow> ('s, unit) prog" where
  "store_at p w = (case p of None \<Rightarrow> Halt | Some a \<Rightarrow> writes [w a])"

definition unlink :: "addr \<Rightarrow> addr \<Rightarrow> ('v lmem, unit) prog" where
  "unlink l n =
     Read (\<lambda>m. seq (store_at (lprev m n) (\<lambda>p m. set_next p (lnext m n) m))
    (Read (\<lambda>m. seq (store_at (lnext m n) (\<lambda>p m. set_prev p (lprev m n) m))
    (Read (\<lambda>m. seq (if lcursor m l = Some n then writes [\<lambda>m. set_cursor l (lnext m n) m] else Halt)
    (Read (\<lambda>m. if lhead m l = Some n then writes [\<lambda>m. set_head l (lnext m n) m] else Halt)))))))"

definition remove_impl :: "addr \<Rightarrow> addr \<Rightarrow> ('v lmem, unit) prog" where
  "remove_impl l n = Read (\<lambda>m. if lowner m n = None then Halt
     else seq (if llen m l = 1 then writes [set_cursor l None, set_head l None] else unlink l n)
       (writes [set_owner n None, dec_len l]))"

definition optimized_remove_impl :: "addr \<Rightarrow> addr \<Rightarrow> ('v lmem, unit) prog" where
  "optimized_remove_impl l n = Read (\<lambda>m. if lowner m n = None then Halt
     else seq (if llen m l = 1 then writes [set_cursor l None, set_head l None] else unlink l n)
       (writes [dec_len l, set_owner n None]))"

definition optimized_remove :: "addr \<Rightarrow> addr \<Rightarrow> ('v lmem, unit) prog" where
  "optimized_remove l n = Write (start_op_log RemoveOp l) (optimized_remove_impl l n)"

definition recover_from_failed_remove :: "addr \<Rightarrow> addr \<Rightarrow> usize \<Rightarrow> ('v lmem, unit) prog" where
  "recover_from_failed_remove l n old_len =
     seq (unlink l n) (writes [set_len l (old_len - 1), set_owner n None])"

section \<open>Linear lists: the front\<close>

definition pop_front :: "addr \<Rightarrow> ('v lmem, addr option) prog" where
  "pop_front l = Read (\<lambda>m. case lhead m l of
     None \<Rightarrow> Return None
   | Some h \<Rightarrow> Write (\<lambda>m. set_head l (lnext m h) m)
      (Read (\<lambda>m. seq (store_at (lhead m l) (\<lambda>p. set_prev p None))
      (Write (dec_len l)
      (Read (\<lambda>m. seq (if lcursor m l = Some h then writes [\<lambda>m. set_cursor l (lhead m l) m] else Halt)
      (Write (set_owner h None) (Return (Some h)))))))))"

definition optimized_pop_front :: "addr \<Rightarrow> ('v lmem, addr option) prog" where
  "optimized_pop_front l = Read (\<lambda>m. case lhead m l of
     None \<Rightarrow> Return None
   | Some h \<Rightarrow> Write (start_op_log PopFront l)
      (Write (\<lambda>m. set_head l (lnext m h) m)
      (Read (\<lambda>m. seq (store_at (lhead m l) (\<lambda>p. set_prev p None))
      (Read (\<lambda>m. seq (if lcursor m l = Some h then writes [\<lambda>m. set_cursor l (lhead m l) m] else Halt)
      (Write (dec_len l) (Write (set_owner h None) (Return (Some h))))))))))"

definition recover_from_failed_pop_front ::
  "addr \<Rightarrow> addr \<Rightarrow> usize \<Rightarrow> ('v lmem, unit) prog" where
  "recover_from_failed_pop_front l h old_len = Read (\<lambda>m.
     if lhead m l \<noteq> Some h then
       seq (store_at (lhead m l) (\<lambda>p. set_prev p None))
      (Read (\<lambda>m. seq (if lcursor m l = Some h then writes [\<lambda>m. set_cursor l (lhead m l) m] else Halt)
      (writes [set_len l (old_len - 1), set_owner h None])))
     else seq (optimized_pop_front l) Halt)"

definition insert_front :: "addr \<Rightarrow> addr \<Rightarrow> ('v lmem, unit) prog" where
  "insert_front l n = Read (\<lambda>m. if lowner m n \<noteq> None then Fail Panic
     else Write (set_owner n (Some l)) (Write (set_prev n None) (Write (set_next n None)
      (Read (\<lambda>m. case lhead m l of
         None \<Rightarrow> writes [set_head l (Some n), set_cursor l (Some n), inc_len l]
       | Some h \<Rightarrow> writes [\<lambda>m. set_next n (lhead m l) m, set_prev h (Some n),
                           set_head l (Some n), inc_len l])))))"

definition link_front :: "addr \<Rightarrow> addr \<Rightarrow> ('v lmem, unit) prog" where
  "link_front l n = Write (set_prev n None) (Write (set_next n None)
     (Read (\<lambda>m. case lhead m l of
        None \<Rightarrow> writes [set_head l (Some n)]
      | Some h \<Rightarrow> writes [\<lambda>m. set_next n (lhead m l) m, set_prev h (Some n), set_head l (Some n)])))"

definition optimized_insert_front_impl :: "addr \<Rightarrow> addr \<Rightarrow> ('v lmem, unit) prog" where
  "optimized_insert_front_impl l n =
     seq (link_front l n) (writes [inc_len l, set_owner n (Some l)])"

definition optimized_insert_front :: "addr \<Rightarrow> addr \<Rightarrow> ('v lmem, unit) prog" where
  "optimized_insert_front l n =
     Write (start_op_log InsertFront l) (optimized_insert_front_impl l n)"

definition recover_from_failed_insert_front ::
  "addr \<Rightarrow> addr \<Rightarrow> usize \<Rightarrow> ('v lmem, unit) prog" where
  "recover_from_failed_insert_front l n old_len =
     seq (Read (\<lambda>m. if lhead m l = Some n then Halt else link_front l n))
       (writes [set_len l (old_len + 1), set_owner n (Some l)])"

definition peek_front :: "addr \<Rightarrow> 'v lmem \<Rightarrow> 'v option" where
  "peek_front l m = (case lhead m l of None \<Rightarrow> None | Some p \<Rightarrow> Some (lvalue m p))"

section \<open>Linear lists: sorted insertion\<close>

text \<open>
  The search loop, over the \<open>Ord\<close> instance \<open>gt\<close> of the item type: \<open>Inl p\<close> when the new
  value is greater than every value and \<open>p\<close> is the tail, \<open>Inr p\<close> when \<open>p\<close> is the first
  node the new value is not greater than. On a memory that is no list it need not end.
\<close>

partial_function (option) find_pos ::
  "('v \<Rightarrow> 'v \<Rightarrow> bool) \<Rightarrow> 'v lmem \<Rightarrow> 'v \<Rightarrow> addr \<Rightarrow> (addr + addr) option" where
  "find_pos gt m v p = (if gt v (lvalue m p)
     then (case lnext m p of None \<Rightarrow> Some (Inl p) | Some q \<Rightarrow> find_pos gt m v q)
     else Some (Inr p))"

definition insert_sorted :: "('v \<Rightarrow> 'v \<Rightarrow> bool) \<Rightarrow> addr \<Rightarrow> addr \<Rightarrow> ('v lmem, unit) prog" where
  "insert_sorted gt l n = Read (\<lambda>m. if lowner m n \<noteq> None then Fail Panic
     else Write (set_owner n (Some l)) (Write (set_next n None) (Write (set_prev n None)
      (Read (\<lambda>m. case lhead m l of
         None \<Rightarrow> writes [set_head l (Some n), inc_len l]
       | Some h \<Rightarrow> (case find_pos gt m (lvalue m n) h of
           None \<Rightarrow> Fail Diverges
         | Some (Inl p) \<Rightarrow> writes [set_prev n (Some p), set_next n None, set_next p (Some n), inc_len l]
         | Some (Inr p) \<Rightarrow> Write (set_next n (Some p)) (Write (\<lambda>m. set_prev n (lprev m p) m)
            (Write (set_prev p (Some n))
            (Read (\<lambda>m. case lprev m n of
               Some q \<Rightarrow> writes [set_next q (Some n), inc_len l]
             | None \<Rightarrow> writes [set_head l (Some n), inc_len l]))))))))))"

definition optimized_insert_sorted_impl ::
  "('v \<Rightarrow> 'v \<Rightarrow> bool) \<Rightarrow> addr \<Rightarrow> addr \<Rightarrow> ('v lmem, unit) prog" where
  "optimized_insert_sorted_impl gt l n = Write (set_owner n (Some l))
     (Read (\<lambda>m. case lhead m l of
        None \<Rightarrow> writes [set_head l (Some n), inc_len l]
      | Some h \<Rightarrow> (case find_pos gt m (lvalue m n) h of
          None \<Rightarrow> Fail Diverges
        | Some (Inl p) \<Rightarrow> writes [set_prev n (Some p), set_next n None, set_next p (Some n), inc_len l]
        | Some (Inr p) \<Rightarrow> Write (set_next n (Some p)) (Write (\<lambda>m. set_prev n (lprev m p) m)
           (Write (set_prev p (Some n))
           (Read (\<lambda>m. case lprev m n of
              Some q \<Rightarrow> writes [set_next q (Some n), inc_len l]
            | None \<Rightarrow> writes [set_head l (Some n), inc_len l])))))))"

definition optimized_insert_sorted ::
  "('v \<Rightarrow> 'v \<Rightarrow> bool) \<Rightarrow> addr \<Rightarrow> addr \<Rightarrow> ('v lmem, unit) prog" where
  "optimized_insert_sorted gt l n = Write (set_next n None) (Write (set_prev n None)
     (optimized_insert_sorted_impl gt l n))"

text \<open>The \<open>insert\<close> of \<open>SortedPList\<close>: the log entry carries the opcode of the item type.\<close>

definition sorted_insert ::
  "ListOpCode \<Rightarrow> ('v \<Rightarrow> 'v \<Rightarrow> bool) \<Rightarrow> addr \<Rightarrow> addr \<Rightarrow> ('v lmem, unit) prog" where
  "sorted_insert c gt l n = Write (start_op_log c l) (optimized_insert_sorted gt l n)"

definition recover_from_failed_insert_sorted ::
  "('v \<Rightarrow> 'v \<Rightarrow> bool) \<Rightarrow> addr \<Rightarrow> addr \<Rightarrow> usize \<Rightarrow> ('v lmem, unit) prog" where
  "recover_from_failed_insert_sorted gt l n old_len = Read (\<lambda>m.
     if lowner m n \<noteq> Some l then
       Write (set_next n None) (Write (set_prev n None) (optimized_insert_sorted_impl gt l n))
     else (case lnext m n of
       Some p \<Rightarrow> seq
         (if lprev m p = Some n then Halt
          else writes [\<lambda>m. set_prev n (lprev m p) m, set_prev p (Some n)])
         (Read (\<lambda>m. seq (case lprev m n of
              Some q \<Rightarrow> writes [set_next q (Some n)]
            | None \<Rightarrow> writes [set_head l (Some n)])
           (writes [set_owner n (Some l), set_len l (old_len + 1)])))
     | None \<Rightarrow> (case lprev m n of
         Some q \<Rightarrow> writes [set_next n None, set_next q (Some n), set_owner n (Some l),
                           set_len l (old_len + 1)]
       | None \<Rightarrow> if lhead m l = Some n then writes [set_len l (old_len + 1)]
           else Write (set_len l old_len) (optimized_insert_sorted_impl gt l n))))"

text \<open>The iterators: the values, respectively the nodes, from the head along \<open>next\<close>.\<close>

partial_function (option) iter_from :: "'v lmem \<Rightarrow> addr option \<Rightarrow> addr list option" where
  "iter_from m p = (case p of None \<Rightarrow> Some []
     | Some a \<Rightarrow> Option.bind (iter_from m (lnext m a)) (\<lambda>as. Some (a # as)))"

definition iter_mut :: "addr \<Rightarrow> 'v lmem \<Rightarrow> addr list option" where
  "iter_mut l m = iter_from m (lhead m l)"

definition iter :: "addr \<Rightarrow> 'v lmem \<Rightarrow> 'v list option" where
  "iter l m = map_option (map (lvalue m)) (iter_from m (lhead m l))"

lemmas plist_ops = insert_before_cursor_def optimized_insert_before_cursor_def
  optimized_insert_before_cursor_impl_def recover_from_failed_insert_before_cursor_def
  plist_next_def unlink_def remove_impl_def optimized_remove_def optimized_remove_impl_def
  recover_from_failed_remove_def pop_front_def optimized_pop_front_def
  recover_from_failed_pop_front_def insert_front_def link_front_def
  optimized_insert_front_impl_def optimized_insert_front_def
  recover_from_failed_insert_front_def insert_sorted_def optimized_insert_sorted_impl_def
  optimized_insert_sorted_def sorted_insert_def recover_from_failed_insert_sorted_def
  store_at_def start_op_log_def

declare plist_ops [op_defs]

section \<open>The log entry round-trips\<close>

lemma opcode_less: "opcode c < 16"
  by (cases c) simp_all

lemma micro_log_roundtrip:
  assumes "old_len < 4096"
  shows "get_micro_op (micro_op_old_len c old_len) = Some c"
    and "get_old_len (micro_op_old_len c old_len) = old_len"
proof -
  show "get_micro_op (micro_op_old_len c old_len) = Some c"
    using packed_tag(1) [OF assms opcode_less [of c]]
    by (cases c) (simp_all add: get_micro_op_def micro_op_old_len_def OP_CODE_SHIFT_def)
  show "get_old_len (micro_op_old_len c old_len) = old_len"
    using packed_tag(2) [OF assms opcode_less [of c]]
    by (simp add: get_old_len_def micro_op_old_len_def OP_CODE_SHIFT_def)
qed

section \<open>Abstraction to HOL lists\<close>

definition fst_of :: "addr list \<Rightarrow> addr option \<Rightarrow> addr option" where
  "fst_of xs q = (case xs of [] \<Rightarrow> q | x # _ \<Rightarrow> Some x)"

definition last_of :: "addr option \<Rightarrow> addr list \<Rightarrow> addr option" where
  "last_of p xs = (if xs = [] then p else Some (last xs))"

lemma fst_of_simps [simp]:
  "fst_of [] q = q" "fst_of (x # xs) q = Some x" "fst_of (xs @ x # ys) q = fst_of xs (Some x)"
  by (simp_all add: fst_of_def split: list.split)

lemma last_of_simps [simp]:
  "last_of p [] = p" "last_of p (x # xs) = last_of (Some x) xs" "last_of p (xs @ [x]) = Some x"
  "last_of p (xs @ x # ys) = last_of (Some x) ys"
  by (simp_all add: last_of_def)

lemma fst_of_mem: "fst_of xs (Some y) = Some n \<Longrightarrow> n = y \<or> n \<in> set xs"
  by (cases xs) auto

text \<open>The nodes \<open>xs\<close> are chained in both directions inside list \<open>l\<close>, between \<open>p\<close> and \<open>q\<close>.\<close>

fun seg :: "(addr \<Rightarrow> addr option) \<Rightarrow> (addr \<Rightarrow> addr option) \<Rightarrow> (addr \<Rightarrow> addr option) \<Rightarrow>
  addr \<Rightarrow> addr option \<Rightarrow> addr list \<Rightarrow> addr option \<Rightarrow> bool" where
  "seg nx pv ow l p [] q \<longleftrightarrow> True"
| "seg nx pv ow l p (x # xs) q \<longleftrightarrow> pv x = p \<and> nx x = fst_of xs q \<and> ow x = Some l \<and>
     seg nx pv ow l (Some x) xs q"

abbreviation chain :: "'v lmem \<Rightarrow> addr \<Rightarrow> addr option \<Rightarrow> addr list \<Rightarrow> addr option \<Rightarrow> bool" where
  "chain m \<equiv> seg (lnext m) (lprev m) (lowner m)"

lemma seg_append [simp]:
  "seg nx pv ow l p (xs @ ys) q \<longleftrightarrow>
   seg nx pv ow l p xs (fst_of ys q) \<and> seg nx pv ow l (last_of p xs) ys q"
  by (induction xs arbitrary: p) (auto simp: fst_of_def split: list.split)

text \<open>Storing outside a segment does not disturb it.\<close>

lemma seg_frame [simp]:
  "a \<notin> set xs \<Longrightarrow> seg (nx(a := v)) pv ow l p xs q = seg nx pv ow l p xs q"
  "a \<notin> set xs \<Longrightarrow> seg nx (pv(a := v)) ow l p xs q = seg nx pv ow l p xs q"
  "a \<notin> set xs \<Longrightarrow> seg nx pv (ow(a := v)) l p xs q = seg nx pv ow l p xs q"
  by (induction xs arbitrary: p) auto

lemma seg_owner: "seg nx pv ow l p xs q \<Longrightarrow> x \<in> set xs \<Longrightarrow> ow x = Some l"
  by (induction xs arbitrary: p) auto

lemma seg_transfer:
  assumes "seg nx pv ow l p xs q"
    and "\<And>a. ow a = Some l \<Longrightarrow> nx' a = nx a \<and> pv' a = pv a \<and> ow' a = ow a"
  shows "seg nx' pv' ow' l p xs q"
  using assms by (induction xs arbitrary: p) auto

text \<open>What the members of a linear list and of a circular list are.\<close>

definition linear :: "'v lmem \<Rightarrow> addr \<Rightarrow> addr list \<Rightarrow> bool" where
  "linear m l xs \<longleftrightarrow> chain m l None xs None \<and> distinct xs \<and> lhead m l = fst_of xs None \<and>
     llen m l = of_nat (length xs) \<and> length xs < 4096 \<and> (\<forall>a. lowner m a = Some l \<longrightarrow> a \<in> set xs)"

text \<open>A circular list is read off from its cursor.\<close>

definition circular :: "'v lmem \<Rightarrow> addr \<Rightarrow> addr list \<Rightarrow> bool" where
  "circular m l xs \<longleftrightarrow> chain m l (last_of None xs) xs (fst_of xs None) \<and> distinct xs \<and>
     lcursor m l = fst_of xs None \<and>
     (case lhead m l of None \<Rightarrow> xs = [] | Some h \<Rightarrow> h \<in> set xs) \<and>
     llen m l = of_nat (length xs) \<and> length xs < 4096 \<and> (\<forall>a. lowner m a = Some l \<longrightarrow> a \<in> set xs)"

text \<open>\<open>m'\<close> differs from \<open>m\<close> only in list \<open>l\<close>, its nodes, and nodes of no list.\<close>

definition only_list :: "addr \<Rightarrow> 'v lmem \<Rightarrow> 'v lmem \<Rightarrow> bool" where
  "only_list l m m' \<longleftrightarrow> lvalue m' = lvalue m \<and>
     (\<forall>l'. l' \<noteq> l \<longrightarrow> lhead m' l' = lhead m l' \<and> lcursor m' l' = lcursor m l' \<and> llen m' l' = llen m l') \<and>
     (\<forall>a l'. l' \<noteq> l \<longrightarrow> (lowner m' a = Some l' \<longleftrightarrow> lowner m a = Some l')) \<and>
     (\<forall>a l'. l' \<noteq> l \<longrightarrow> lowner m a = Some l' \<longrightarrow> lnext m' a = lnext m a \<and> lprev m' a = lprev m a)"

lemma only_list_chain:
  assumes "only_list l m m'" "l' \<noteq> l" "chain m l' p xs q"
  shows "chain m' l' p xs q"
  by (rule seg_transfer [OF assms(3)]) (use assms(1,2) in \<open>auto simp: only_list_def\<close>)

lemma only_list_linear:
  assumes "only_list l m m'" "l' \<noteq> l" "linear m l' xs"
  shows "linear m' l' xs"
  using assms(3) only_list_chain [OF assms(1,2)] assms(1,2)
  unfolding linear_def only_list_def by auto

lemma only_list_circular:
  assumes "only_list l m m'" "l' \<noteq> l" "circular m l' xs"
  shows "circular m' l' xs"
  using assms(3) only_list_chain [OF assms(1,2)] assms(1,2)
  unfolding circular_def only_list_def by auto

lemma only_list_trans: "only_list l m m' \<Longrightarrow> only_list l m' m'' \<Longrightarrow> only_list l m m''"
  unfolding only_list_def by auto

lemma linear_owner: "linear m l xs \<Longrightarrow> lowner m a = Some l \<longleftrightarrow> a \<in> set xs"
  unfolding linear_def using seg_owner by fast

lemma linear_fresh: "linear m l xs \<Longrightarrow> lowner m n = None \<Longrightarrow> n \<notin> set xs"
  by (metis option.distinct(1) linear_owner)

lemma circular_owner: "circular m l xs \<Longrightarrow> lowner m a = Some l \<longleftrightarrow> a \<in> set xs"
  unfolding circular_def using seg_owner by fast

lemma circular_fresh: "circular m l xs \<Longrightarrow> lowner m n = None \<Longrightarrow> n \<notin> set xs"
  by (metis option.distinct(1) circular_owner)

lemma linear_member:
  assumes "linear m l (as @ n # bs)"
  shows "lowner m n = Some l" "lnext m n = fst_of bs None" "lprev m n = last_of None as"
    "lnext m n \<noteq> Some n" "lprev m n \<noteq> Some n"
proof -
  have d: "n \<notin> set as" "n \<notin> set bs" using assms by (simp_all add: linear_def)
  show *: "lowner m n = Some l" "lnext m n = fst_of bs None" "lprev m n = last_of None as"
    using assms by (simp_all add: linear_def)
  show "lnext m n \<noteq> Some n" unfolding * using d(2) by (cases bs) auto
  show "lprev m n \<noteq> Some n" unfolding * using d(1) by (cases as rule: rev_cases) auto
qed

lemma linear_single:
  assumes "linear m l [n]"
  shows "lowner m n = Some l" "llen m l = 1" "lhead m l = Some n" "lnext m n = None"
    "lprev m n = None"
  using assms by (simp_all add: linear_def)

lemma circular_single:
  assumes "circular m l [x]"
  shows "lcursor m l = Some x" "llen m l = 1" "lprev m x = Some x" "lnext m x = Some x"
    "lhead m l = Some x"
  using assms by (simp_all add: circular_def split: option.splits)

lemmas list_simps = plist_ops prog_simps only_list_def setters usize_pred usize_is_1

section \<open>Linear lists\<close>

lemma optimized_pop_front_linear:
  assumes "linear m l (x # xs)"
  shows "\<exists>m'. exec (optimized_pop_front l) m = Inr (Some x, m') \<and> linear m' l xs \<and>
    lowner m' x = None \<and> only_list l m m'"
  using assms by (cases xs) (auto simp: linear_def list_simps)

lemma optimized_insert_front_linear:
  assumes "linear m l xs" "lowner m n = None" "length xs < 4095"
  shows "\<exists>m'. exec (optimized_insert_front l n) m = Inr ((), m') \<and> linear m' l (n # xs) \<and>
     only_list l m m'"
  using assms linear_fresh [OF assms(1,2)]
  by (cases xs) (auto simp: plist_ops prog_simps linear_def only_list_def setters)

lemma optimized_remove_linear:
  assumes "linear m l (xs @ n # ys)"
  shows "\<exists>m'. exec (optimized_remove l n) m = Inr ((), m') \<and> linear m' l (xs @ ys) \<and>
     lowner m' n = None \<and> only_list l m m'"
  using assms 
  by (cases xs rule: rev_cases; cases ys)
     (auto simp: linear_def list_simps dest: fst_of_mem simp del: of_nat_Suc of_nat_add)

text \<open>The search loop ends on every linear list, at the place the items' order asks for.\<close>

lemma find_pos_chain:
  assumes "chain m l p (x # xs) None"
  shows "find_pos gt m v x = Some (case dropWhile (\<lambda>a. gt v (lvalue m a)) (x # xs) of
      [] \<Rightarrow> Inl (last (x # xs)) | y # _ \<Rightarrow> Inr y)"
  using assms
proof (induction xs arbitrary: p x)
  case Nil
  then show ?case by (subst find_pos.simps) simp
next
  case (Cons y ys)
  then have "chain m l (Some x) (y # ys) None" and nx: "lnext m x = Some y" by simp_all
  note IH = Cons.IH [OF this(1)]
  let ?P = "\<lambda>a. gt v (lvalue m a)"
  show ?case
  proof (cases "?P x")
    case True
    then have "find_pos gt m v x = find_pos gt m v y" using nx by (subst find_pos.simps) simp
    moreover have "dropWhile ?P (x # y # ys) = dropWhile ?P (y # ys)" using True by simp
    moreover have "last (x # y # ys) = last (y # ys)" by simp
    ultimately show ?thesis using IH by (simp only:)
  qed (subst find_pos.simps, simp)
qed

text \<open>The search does not see a node that is not yet linked.\<close>

lemma find_pos_linear:
  assumes "linear m l (x # xs)" "n \<notin> set (x # xs)"
    and "lnext M = (lnext m)(n := a)" "lprev M = (lprev m)(n := b)" "lowner M = (lowner m)(n := c)"
    and "lvalue M = lvalue m"
  shows "find_pos gt M v x = Some (case dropWhile (\<lambda>a. gt v (lvalue m a)) (x # xs) of
      [] \<Rightarrow> Inl (last (x # xs)) | y # _ \<Rightarrow> Inr y)"
proof -
  have "chain M l None (x # xs) None" using assms by (simp add: linear_def)
  from find_pos_chain [OF this, of gt v] show ?thesis unfolding assms(6) .
qed

text \<open>The abstract insertion: in front of the first element the predicate fails for.\<close>

definition insert_at :: "('a \<Rightarrow> bool) \<Rightarrow> 'a \<Rightarrow> 'a list \<Rightarrow> 'a list" where
  "insert_at P x xs = takeWhile P xs @ x # dropWhile P xs"

lemma length_insert_at [simp]: "length (insert_at P x xs) = Suc (length xs)"
  unfolding insert_at_def by (metis length_append takeWhile_dropWhile_id list.size(4) add_Suc_right One_nat_def add.right_neutral)

lemma set_insert_at [simp]: "set (insert_at P x xs) = insert x (set xs)"
  unfolding insert_at_def by (metis set_append takeWhile_dropWhile_id list.set(2) Un_insert_right)

lemma optimized_insert_sorted_linear:
  assumes "linear m l xs" "lowner m n = None" "length xs < 4095"
  shows "\<exists>m'. exec (optimized_insert_sorted gt l n) m = Inr ((), m') \<and> 
     linear m' l (insert_at (\<lambda>a. gt (lvalue m n) (lvalue m a)) n xs) \<and>
     only_list l m m'"
proof -
  let ?P = "(\<lambda>a. gt (lvalue m n) (lvalue m a))"
  obtain as bs where ab: "takeWhile ?P xs = as" "dropWhile ?P xs = bs" "xs = as @ bs"
    by (metis takeWhile_dropWhile_id)
  have n: "n \<notin> set as" "n \<notin> set bs" using linear_fresh [OF assms(1,2)] ab(3) by auto
  show ?thesis
  proof (cases xs)
    case Nil
    then show ?thesis using assms
      by (auto simp: insert_at_def plist_ops prog_simps linear_def only_list_def setters)
  next
    case (Cons x xs')
    let ?m = "m\<lparr>lnext := (lnext m)(n := None), lprev := (lprev m)(n := None), lowner := (lowner m)(n \<mapsto> l)\<rparr>"
    have f: "find_pos gt ?m (lvalue m n) x = Some (case bs of [] \<Rightarrow> Inl (last xs) | y # _ \<Rightarrow> Inr y)"
      using find_pos_linear [of m l x xs' n ?m] assms linear_fresh [OF assms(1,2)] Cons ab(2) by (simp split: list.split)
    have fx: "fst_of as (fst_of bs None) = Some x" using ab(3) Cons by (cases as) auto
    show ?thesis
    proof (cases bs)
      case Nil
      then obtain ys y where xs: "xs = ys @ [y]" "as = xs"
        using ab Cons by (metis rev_exhaust list.distinct(1) append_Nil2)
      then show ?thesis using assms ab(1,2) n f fx Nil
        by (auto simp: insert_at_def plist_ops prog_simps linear_def only_list_def setters)
    next
      case (Cons b bs')
      then show ?thesis using assms ab n f fx
        by (cases as rule: rev_cases) (auto simp: insert_at_def plist_ops prog_simps linear_def only_list_def setters)
    qed
  qed
qed

lemma iter_from_chain:
  "chain m l p xs None \<Longrightarrow> iter_from m (fst_of xs None) = Some xs"
proof (induction xs arbitrary: p)
  case Nil
  then show ?case by (subst iter_from.simps) simp
next
  case (Cons x xs)
  then show ?case using Cons.IH [of "Some x"] by (subst iter_from.simps) simp
qed

text \<open>The contract of the \<open>Ord\<close> instance of an item type: the items are totally preordered.\<close>

locale item_order =
  fixes gt :: "'v \<Rightarrow> 'v \<Rightarrow> bool"
  assumes asym: "gt x y \<Longrightarrow> \<not> gt y x"
    and neg_trans: "\<not> gt x y \<Longrightarrow> \<not> gt y z \<Longrightarrow> \<not> gt x z"
begin

lemma insert_at_sorted:
  assumes "sorted_wrt (\<lambda>a b. \<not> gt (f a) (f b)) xs"
  shows "sorted_wrt (\<lambda>a b. \<not> gt (f a) (f b)) (insert_at (\<lambda>a. gt (f x) (f a)) x xs)"
  using assms
proof (induction xs)
  case Nil
  then show ?case by (simp add: insert_at_def)
next
  case (Cons y ys)
  show ?case
  proof (cases "gt (f x) (f y)")
    case True
    then have eq: "insert_at (\<lambda>a. gt (f x) (f a)) x (y # ys) =
        y # insert_at (\<lambda>a. gt (f x) (f a)) x ys"
      by (simp add: insert_at_def)
    show ?thesis unfolding eq using Cons True asym [of "f x" "f y"] by simp
  next
    case False
    then have "\<forall>z\<in>set (y # ys). \<not> gt (f x) (f z)"
      using Cons.prems neg_trans [of "f x" "f y"] by auto
    then show ?thesis using Cons.prems False by (simp add: insert_at_def)
  qed
qed

end

section \<open>Circular lists\<close>

lemma optimized_insert_before_cursor_circular:
  assumes "circular m l xs" "lowner m n = None" "length xs < 4095"
  shows "\<exists>m'. exec (optimized_insert_before_cursor l n) m = Inr ((), m') \<and> circular m' l (xs @ [n]) \<and>
     only_list l m m'"
proof (cases xs)
  case Nil
  then show ?thesis using assms by (auto simp: list_simps circular_def split: option.splits)
next
  case (Cons c ys)
  then show ?thesis using assms circular_fresh [OF assms(1,2)]
    by (cases ys rule: rev_cases) (auto simp: list_simps circular_def split: option.splits)
qed

abbreviation ring :: "'v lmem \<Rightarrow> addr \<Rightarrow> addr list \<Rightarrow> bool" where
  "ring m l xs \<equiv> chain m l (last_of None xs) xs (fst_of xs None)"

lemma ring_rotate: "ring m l (xs @ ys) = ring m l (ys @ xs)"
  by (cases xs rule: ends_cases; cases ys rule: ends_cases) auto

lemma ring_unlink:
  assumes "ring m l (n # zs)" "distinct (n # zs)" "zs \<noteq> []"
  shows "lprev m n = Some (last zs)" "lnext m n = Some (hd zs)" 
    "ring (m\<lparr>lnext := (lnext m)(last zs := Some (hd zs)), lprev := (lprev m)(hd zs := Some (last zs))\<rparr>) l zs"
  using assms by (cases zs rule: ends_cases; auto)+

lemma exec_unlink:
  assumes "lprev m n = Some p" "lnext m n = Some q" "p \<noteq> n" "q \<noteq> n"
  shows "exec (unlink l n) m = Inr ((), m\<lparr>lnext := (lnext m)(p := Some q), lprev := (lprev m)(q := Some p),
     lcursor := (lcursor m)(l := if lcursor m l = Some n then Some q else lcursor m l),
     lhead := (lhead m)(l := if lhead m l = Some n then Some q else lhead m l)\<rparr>)"
  using assms by (simp add: list_simps)

lemma optimized_remove_circular:
  assumes "circular m l (xs @ n # ys)"
  shows "\<exists>m'. exec (optimized_remove l n) m = Inr ((), m') \<and> circular m' l (xs @ ys) \<and>
     lowner m' n = None \<and> only_list l m m'"
proof (cases "xs @ ys = []")
  case True
  then show ?thesis using assms by (auto simp: circular_def list_simps)
next
  case False
  let ?p = "last (ys @ xs)" and ?q = "hd (ys @ xs)"
  let ?m = "m\<lparr>lmicro := micro_op_old_len RemoveOp (llen m l)\<rparr>"
  let ?u = "\<lambda>f. if f m l = Some n then Some ?q else f m l"
  let ?m1 = "?m\<lparr>lnext := (lnext m)(?p := Some ?q), lprev := (lprev m)(?q := Some ?p),
     lcursor := (lcursor m)(l := ?u lcursor), lhead := (lhead m)(l := ?u lhead)\<rparr>"
  have d: "distinct (n # ys @ xs)" and len: "llen m l = of_nat (Suc (length (xs @ ys)))" "length (xs @ ys) < 4095"
    using assms by (auto simp: circular_def)
  have r: "ring m l (n # (ys @ xs))"
    using assms ring_rotate [of m l xs "n # ys"] by (simp add: circular_def)
  have zs: "ys @ xs \<noteq> []" using False by auto
  note ru = ring_unlink [OF r d zs]
  have ne: "?p \<noteq> n" "?q \<noteq> n"
    using d zs hd_in_set [of "ys @ xs"] last_in_set [of "ys @ xs"] by auto
  have "exec (unlink l n) ?m = Inr ((), ?m1)"
    using exec_unlink [of ?m n ?p ?q l] ru(1,2) ne by simp
  moreover have "lowner m n = Some l" using assms by (simp add: circular_def)
  moreover have "llen m l \<noteq> 1"
    unfolding len(1) using usize_is_1 [OF len(2)] False by (simp del: of_nat_Suc)
  moreover have "llen m l - 1 = of_nat (length (xs @ ys))"
    unfolding len(1) by (rule usize_pred)
  ultimately have e: "exec (optimized_remove l n) m = Inr ((), set_owner n None (set_len l (of_nat (length (xs @ ys))) ?m1))"
    by (simp add: optimized_remove_def optimized_remove_impl_def start_op_log_def prog_simps exec_seq setters)
  have "ring (?m\<lparr>lnext := (lnext m)(?p := Some ?q), lprev := (lprev m)(?q := Some ?p)\<rparr>) l (xs @ ys)"
    using ru(3) by (subst ring_rotate) (simp del: seg_append)
  moreover have "n \<notin> set xs" "n \<notin> set ys" using d by auto
  moreover have "?u lcursor = fst_of (xs @ ys) None"
    using assms d zs by (cases xs; cases ys) (auto simp: circular_def)
  moreover have "case ?u lhead of None \<Rightarrow> xs @ ys = [] | Some h \<Rightarrow> h \<in> set (xs @ ys)"
    using assms zs hd_in_set [OF zs] by (auto simp: circular_def split: option.splits)
  ultimately have "circular (set_owner n None (set_len l (of_nat (length (xs @ ys))) ?m1)) l (xs @ ys)"
    using assms d by (auto simp: circular_def setters simp del: seg_append)
  moreover have "lowner m ?p = Some l" "lowner m ?q = Some l" "lowner m n = Some l"
    using circular_owner [OF assms] hd_in_set [OF zs] last_in_set [OF zs] by auto
  ultimately show ?thesis unfolding e by (auto simp: only_list_def setters)
qed

lemma plist_next_circular:
  assumes "circular m l (x # xs)"
  shows "\<exists>m'. exec (plist_next l) m = Inr (Some (lvalue m (hd (xs @ [x]))), m') \<and> circular m' l (xs @ [x]) \<and> only_list l m m'"
  using assms 
  by (cases xs rule: ends_cases) (auto simp: circular_def list_simps split: option.splits)

section \<open>The optimised operations are the plain ones plus a log entry\<close>

abbreviation (input) with_log :: "usize \<Rightarrow> fault + 'a \<times> 'v lmem \<Rightarrow> fault + 'a \<times> 'v lmem" where
  "with_log w \<equiv> map_sum id (map_prod id (\<lambda>m. m\<lparr>lmicro := w\<rparr>))"

lemma insert_before_cursor_equiv:
  assumes "circular m l xs" "lowner m n = None"
  shows "exec (optimized_insert_before_cursor l n) m =
    with_log (micro_op_old_len InsertBeforeCursor (llen m l)) (exec (insert_before_cursor l n) m)"
  using assms circular_fresh [OF assms]
  by (cases xs rule: ends_cases) (simp_all add: list_simps circular_def)

lemma unlink_log: "exec (unlink l n) (m\<lparr>lmicro := w\<rparr>) = with_log w (exec (unlink l n) m)"
  by (simp add: list_simps split: option.split)

lemma remove_equiv:
  "exec (optimized_remove l n) m =
    with_log (micro_op_old_len RemoveOp (llen m l)) (exec (remove_impl l n) m)"
  by (simp add: optimized_remove_def optimized_remove_impl_def remove_impl_def start_op_log_def
    prog_simps exec_seq unlink_log setters split: sum.split)

lemma pop_front_equiv:
  "lhead m l \<noteq> None \<Longrightarrow> exec (optimized_pop_front l) m =
    with_log (micro_op_old_len PopFront (llen m l)) (exec (pop_front l) m)"
  by (auto simp add: list_simps split: option.split)

lemma insert_sorted_equiv:
  assumes "linear m l xs" "lowner m n = None"
  shows "exec (sorted_insert c gt l n) m =
    with_log (micro_op_old_len c (llen m l)) (exec (insert_sorted gt l n) m)"
proof (cases xs)
  case Nil
  then show ?thesis using assms by (simp add: linear_def list_simps)
next
  case (Cons x xs')
  then have h: "lhead m l = Some x" using assms by (simp add: linear_def)
  let ?r = "case dropWhile (\<lambda>a. gt (lvalue m n) (lvalue m a)) (x # xs') of
      [] \<Rightarrow> Inl (last (x # xs')) | y # _ \<Rightarrow> Inr y"
  have f: "\<And>M. lnext M = (lnext m)(n := None) \<Longrightarrow> lprev M = (lprev m)(n := None) \<Longrightarrow> 
      lowner M = (lowner m)(n \<mapsto> l) \<Longrightarrow> lvalue M = lvalue m \<Longrightarrow> find_pos gt M (lvalue m n) x = Some ?r"
    using find_pos_linear [of m l x xs' n _ None None "Some l"] assms linear_fresh [OF assms] Cons by blast
  obtain r where "?r = r" by simp
  with f show ?thesis using h assms(2)
    by (cases r) (simp_all add: list_simps split: option.split)
qed


text \<open>A list of one node with value 7, and a second node with value 5 in no list.\<close>

definition demo_single :: "nat lmem" where
  "demo_single = \<lparr>lnext = \<lambda>_. None, lprev = \<lambda>_. None, lowner = (\<lambda>_. None)(1 := Some 0), lvalue = (\<lambda>_. 0)(1 := 7, 2 := 5),
     llen = (\<lambda>_. 0)(0 := 1), lcursor = (\<lambda>_. None)(0 := Some 1), lhead = (\<lambda>_. None)(0 := Some 1), lmicro = 0\<rparr>"


end
