(* ===== verification/PListCrash.thy ===== *)
theory PListCrash
  imports PList
begin

text \<open>
  Crash consistency of the optimised list operations of \<open>src/list.rs\<close>. Each of them writes an
  entry (opcode, old length) to the operation log and then changes the list in place; after a
  power failure the matching \<open>recover_from_failed_\<close> function finishes the job. For every
  operation the stores it goes through are listed and the recovery is run from each of them:
  it reaches exactly the memory the operation would have reached, and the memory it goes
  through on the way is again one it can recover from. Each operation is therefore an instance
  of the locale \<open>roll_forward\<close>, which gives survival of any number of power failures.
\<close>

text \<open>One use of an operation: the memory it starts in, the list, its abstract contents, the
  node it is about, and (for a sorted list) the opcode and order of the item type.\<close>

record 'v list_job =
  jmem :: "'v lmem"
  jlist :: addr
  jnode :: addr
  jcontents :: "addr list"
  jcode :: ListOpCode
  jgt :: "'v \<Rightarrow> 'v \<Rightarrow> bool"

lemmas op_states = optimized_insert_before_cursor_def
  optimized_insert_before_cursor_impl_def optimized_remove_def optimized_remove_impl_def
  unlink_def optimized_pop_front_def optimized_insert_front_def optimized_insert_front_impl_def
  link_front_def sorted_insert_def optimized_insert_sorted_def optimized_insert_sorted_impl_def
  start_op_log_def store_at_def prog_simps setters

lemmas run_simps = plist_ops prog_simps setters

section \<open>Removal from the front\<close>

abbreviation pop_states :: "addr \<Rightarrow> 'v lmem \<Rightarrow> 'v lmem list" where
  "pop_states l m \<equiv> drop 1 (states (optimized_pop_front l) m)"

lemma pop_front_states:
  assumes "lhead m l = Some x" "lnext m x = q" "q \<noteq> Some x"
  shows "\<forall>t\<in>set (pop_states l m). recovers (recover_from_failed_pop_front l x (llen m l))
    (final (optimized_pop_front l) m) (pop_states l m) t"
  using assms
  apply (cases q; cases "lcursor m l = Some x")
     apply (simp_all add: op_states)
     apply (unfold recovers_def)
     apply (auto simp: run_simps)
  done

interpretation pop: roll_forward
  "\<lambda>j :: 'v list_job. linear (jmem j) (jlist j) (jnode j # jcontents j)"
  "\<lambda>j. optimized_pop_front (jlist j)"
  "\<lambda>j. recover_from_failed_pop_front (jlist j) (jnode j) (llen (jmem j) (jlist j))"
  jmem "\<lambda>j. 1" "\<lambda>j. pop_states (jlist j) (jmem j)"
proof (unfold_locales, goal_cases)
  case (1 j)
  then show ?case by (auto simp: linear_def op_states)
next
  case (3 j t)
  then have "lhead (jmem j) (jlist j) = Some (jnode j)"
    "lnext (jmem j) (jnode j) = fst_of (jcontents j) None" "fst_of (jcontents j) None \<noteq> Some (jnode j)"
    by (auto simp: linear_def fst_of_def split: list.splits)
  from pop_front_states [OF this] 3 show ?case by blast
qed simp

section \<open>Insertion at the front\<close>

text \<open>A recovery that starts over resets the node's \<open>next\<close> field after the old head already
  points back to the node: the one state that is no crash state of the insertion itself.\<close>

definition front_states :: "addr \<Rightarrow> addr \<Rightarrow> 'v lmem \<Rightarrow> 'v lmem list" where
  "front_states l n m = drop 1 (states (optimized_insert_front l n) m) @
     (case lhead m l of None \<Rightarrow> []
      | Some h \<Rightarrow> [(start_op_log InsertFront l m)\<lparr>lprev := (lprev m)(n := None, h := Some n),
          lnext := (lnext m)(n := None)\<rparr>])"

lemma insert_front_states:
  assumes "lhead m l = h" "h \<noteq> Some n"
  shows "\<forall>t\<in>set (front_states l n m). recovers (recover_from_failed_insert_front l n (llen m l))
    (final (optimized_insert_front l n) m) (front_states l n m) t"
  using assms
  apply (cases h)
   apply (simp_all add: op_states front_states_def)
   apply (unfold recovers_def)
   apply (auto simp: run_simps)
  done

interpretation front: roll_forward
  "\<lambda>j :: 'v list_job. linear (jmem j) (jlist j) (jcontents j) \<and> lowner (jmem j) (jnode j) = None"
  "\<lambda>j. optimized_insert_front (jlist j) (jnode j)"
  "\<lambda>j. recover_from_failed_insert_front (jlist j) (jnode j) (llen (jmem j) (jlist j))"
  jmem "\<lambda>j. 1" "\<lambda>j. front_states (jlist j) (jnode j) (jmem j)"
proof (unfold_locales, goal_cases)
  case (1 j)
  then show ?case by (auto simp: linear_def op_states)
next
  case (2 j)
  then show ?case by (simp add: front_states_def)
next
  case (3 j t)
  then have "lhead (jmem j) (jlist j) \<noteq> Some (jnode j)"
    using linear_fresh [of "jmem j" "jlist j" "jcontents j" "jnode j"]
    by (auto simp: linear_def fst_of_def split: list.splits)
  from insert_front_states [OF refl this] 3 show ?case by blast
qed

section \<open>Sorted insertion\<close>

abbreviation sorted_states ::
  "ListOpCode \<Rightarrow> ('v \<Rightarrow> 'v \<Rightarrow> bool) \<Rightarrow> addr \<Rightarrow> addr \<Rightarrow> 'v lmem \<Rightarrow> 'v lmem list" where
  "sorted_states c gt l n m \<equiv> drop 1 (states (sorted_insert c gt l n) m)"

abbreviation sorted_recovers ::
  "ListOpCode \<Rightarrow> ('v \<Rightarrow> 'v \<Rightarrow> bool) \<Rightarrow> addr \<Rightarrow> addr \<Rightarrow> 'v lmem \<Rightarrow> bool" where
  "sorted_recovers c gt l n m \<equiv> \<forall>t\<in>set (sorted_states c gt l n m).
     recovers (recover_from_failed_insert_sorted gt l n (llen m l))
       (final (sorted_insert c gt l n) m) (sorted_states c gt l n m) t"

lemma sorted_states_empty:
  assumes "lhead m l = None" "lowner m n = None"
  shows "sorted_recovers c gt l n m"
  using assms
  apply (simp add: op_states)
  apply (unfold recovers_def)
  apply (auto simp: run_simps)
  done

lemma sorted_states_tail:
  assumes "lhead m l = Some h" "h \<noteq> n" "lowner m n = None" "p \<noteq> n"
    and f: "\<And>M. lnext M = (lnext m)(n := None) \<Longrightarrow> lprev M = (lprev m)(n := None) \<Longrightarrow>
      lowner M = (lowner m)(n := Some l) \<Longrightarrow> lvalue M = lvalue m \<Longrightarrow>
      find_pos gt M (lvalue m n) h = Some (Inl p)"
  shows "sorted_recovers c gt l n m"
  using assms(1-4)
  apply (simp add: f op_states)
  apply (unfold recovers_def)
  apply (auto simp: run_simps f)
  done

lemma sorted_states_before:
  assumes "lhead m l = Some h" "h \<noteq> n" "lowner m n = None" "p \<noteq> n" "lprev m p = q" "q \<noteq> Some n"
    and f: "\<And>M. lnext M = (lnext m)(n := None) \<Longrightarrow> lprev M = (lprev m)(n := None) \<Longrightarrow>
      lowner M = (lowner m)(n := Some l) \<Longrightarrow> lvalue M = lvalue m \<Longrightarrow>
      find_pos gt M (lvalue m n) h = Some (Inr p)"
  shows "sorted_recovers c gt l n m"
  using assms(1-6)
  apply (cases q)
   apply (simp_all add: f op_states)
   apply (unfold recovers_def)
   apply (auto simp: run_simps f)
  done

lemma seg_prev_mem:
  "seg nx pv ow l p xs q \<Longrightarrow> x \<in> set xs \<Longrightarrow> pv x = p \<or> (\<exists>y\<in>set xs. pv x = Some y)"
proof (induction xs arbitrary: p)
  case (Cons a xs)
  then show ?case using Cons.IH [of "Some a"] by auto
qed simp

lemma sorted_states_linear:
  assumes "linear m l xs" "lowner m n = None"
  shows "sorted_recovers c gt l n m"
proof (cases xs)
  case Nil
  then show ?thesis using assms sorted_states_empty [of m l n c gt] by (simp add: linear_def)
next
  case (Cons x xs')
  let ?r = "case dropWhile (\<lambda>a. gt (lvalue m n) (lvalue m a)) (x # xs') of
      [] \<Rightarrow> Inl (last (x # xs')) | y # _ \<Rightarrow> Inr y"
  have n: "n \<notin> set xs" and lin: "linear m l (x # xs')" and h: "lhead m l = Some x" "x \<noteq> n"
    using linear_fresh [OF assms] assms Cons by (auto simp: linear_def)
  have f: "\<And>M. lnext M = (lnext m)(n := None) \<Longrightarrow> lprev M = (lprev m)(n := None) \<Longrightarrow>
      lowner M = (lowner m)(n := Some l) \<Longrightarrow> lvalue M = lvalue m \<Longrightarrow>
      find_pos gt M (lvalue m n) x = Some ?r"
    using find_pos_linear [OF lin] n Cons by blast
  show ?thesis
  proof (cases "dropWhile (\<lambda>a. gt (lvalue m n) (lvalue m a)) (x # xs')")
    case Nil
    have "last (x # xs') \<noteq> n" using n Cons last_in_set [of "x # xs'"] by auto
    then show ?thesis
      using sorted_states_tail [OF h assms(2), of "last (x # xs')" gt] f unfolding Nil by simp
  next
    case p: (Cons p ps)
    then have "p \<in> set xs" using Cons set_dropWhileD [of p _ "x # xs'"] by (metis list.set_intros(1))
    then have "p \<noteq> n" "lprev m p \<noteq> Some n"
      using n assms(1) seg_prev_mem [of "lnext m" "lprev m" "lowner m" l None xs None p]
      by (auto simp: linear_def)
    then show ?thesis using sorted_states_before [OF h assms(2), of p _ gt] f unfolding p by simp
  qed
qed

interpretation srt: roll_forward
  "\<lambda>j :: 'v list_job. linear (jmem j) (jlist j) (jcontents j) \<and> lowner (jmem j) (jnode j) = None"
  "\<lambda>j. sorted_insert (jcode j) (jgt j) (jlist j) (jnode j)"
  "\<lambda>j. recover_from_failed_insert_sorted (jgt j) (jlist j) (jnode j) (llen (jmem j) (jlist j))"
  jmem "\<lambda>j. 1" "\<lambda>j. sorted_states (jcode j) (jgt j) (jlist j) (jnode j) (jmem j)"
proof (unfold_locales, goal_cases)
  case (1 j)
  then show ?case by (simp add: sorted_insert_def prog_simps)
next
  case (3 j t)
  then show ?case using sorted_states_linear by blast
qed simp

section \<open>Removal\<close>

abbreviation remove_states :: "addr \<Rightarrow> addr \<Rightarrow> 'v lmem \<Rightarrow> 'v lmem list" where
  "remove_states l n m \<equiv> drop 1 (states (optimized_remove l n) m)"

abbreviation remove_recovers :: "addr \<Rightarrow> addr \<Rightarrow> 'v lmem \<Rightarrow> bool" where
  "remove_recovers l n m \<equiv> \<forall>t\<in>set (remove_states l n m).
     recovers (recover_from_failed_remove l n (llen m l)) (final (optimized_remove l n) m)
       (remove_states l n m) t"

lemma remove_states_last:
  assumes "lowner m n = Some l" "llen m l = 1" "lhead m l = Some n"
    and "lcursor m l = None \<or> lcursor m l = Some n" "lnext m n = None" "lprev m n = None"
  shows "remove_recovers l n m"
proof (cases "lcursor m l = None")
  case True
  then have "(lcursor m)(l := None) = lcursor m" by (simp add: fun_upd_idem)
  with True assms show ?thesis
    apply (simp add: op_states)
    apply (unfold recovers_def)
    apply (auto simp: run_simps)
    done
next
  case False
  with assms show ?thesis
    apply (simp add: op_states)
    apply (unfold recovers_def)
    apply (auto simp: run_simps)
    done
qed

lemma remove_states_inner:
  assumes "lowner m n = Some l" "llen m l \<noteq> 1" "lnext m n = q" "lprev m n = p" "q \<noteq> Some n" "p \<noteq> Some n"
  shows "remove_recovers l n m"
proof -
  consider "q = None" "p = None" | y where "q = None" "p = Some y" | x where "q = Some x" "p = None"
    | x y where "q = Some x" "p = Some y" by (cases q; cases p) auto
  then show ?thesis
  proof cases
    case 1
    with assms show ?thesis
      by (cases "lcursor m l = Some n"; cases "lhead m l = Some n")
        (simp_all add: op_states, unfold recovers_def, auto simp: run_simps)
  next
    case 2
    with assms show ?thesis
      by (cases "lcursor m l = Some n"; cases "lhead m l = Some n")
        (simp_all add: op_states, unfold recovers_def, auto simp: run_simps)
  next
    case 3
    with assms show ?thesis
      by (cases "lcursor m l = Some n"; cases "lhead m l = Some n")
        (simp_all add: op_states, unfold recovers_def, auto simp: run_simps)
  next
    case 4
    with assms show ?thesis
      by (cases "lcursor m l = Some n"; cases "lhead m l = Some n")
        (simp_all add: op_states, unfold recovers_def, auto simp: run_simps)
  qed
qed

text \<open>The removals whose recovery is right: from a linear list whose cursor, if set, is a
  member, and from a circular list that keeps a member.\<close>

definition removable :: "'v lmem \<Rightarrow> addr \<Rightarrow> addr \<Rightarrow> addr list \<Rightarrow> bool" where
  "removable m l n xs \<longleftrightarrow> n \<in> set xs \<and>
     (linear m l xs \<and> (case lcursor m l of None \<Rightarrow> True | Some c \<Rightarrow> c \<in> set xs) \<or>
      circular m l xs \<and> length xs \<noteq> 1)"

lemma remove_states_ok:
  assumes "removable m l n xs"
  shows "remove_recovers l n m"
proof -
  obtain as bs where xs: "xs = as @ n # bs" using assms unfolding removable_def by (metis split_list)
  from assms consider "linear m l xs" "case lcursor m l of None \<Rightarrow> True | Some c \<Rightarrow> c \<in> set xs"
    | "circular m l xs" "length xs \<noteq> 1"
    unfolding removable_def by blast
  then show ?thesis
  proof cases
    case 1
    show ?thesis
    proof (cases "as @ bs = []")
      case True
      then have lin: "linear m l [n]" and "lcursor m l = None \<or> lcursor m l = Some n"
        using 1 xs by (simp_all split: option.splits)
      then show ?thesis by (intro remove_states_last [OF linear_single(1-3) _ linear_single(4,5)])
    next
      case False
      have "llen m l = of_nat (length xs)" "length xs < 4096" "length xs \<noteq> 1"
        using 1(1) xs False by (simp_all add: linear_def)
      then have len: "llen m l \<noteq> 1" by (simp add: of_nat_usize_eq_1)
      have "lowner m n = Some l" "lnext m n \<noteq> Some n" "lprev m n \<noteq> Some n"
        using linear_member [of m l as n bs] 1(1) xs by simp_all
      then show ?thesis by (rule remove_states_inner [OF _ len refl refl])
    qed
  next
    case 2
    then have "llen m l = of_nat (length xs)" "length xs < 4096" by (auto simp: circular_def)
    then have len: "llen m l \<noteq> 1" using 2 by (simp add: of_nat_usize_eq_1)
    have d: "distinct (n # bs @ as)" "bs @ as \<noteq> []" using 2 xs by (auto simp: circular_def)
    have "lnext m n = Some (hd (bs @ as))" "lprev m n = Some (last (bs @ as))"
      using ring_unlink(1,2) [OF _ d, of m l] 2 ring_rotate [of m l as "n # bs"] xs
      by (simp_all add: circular_def)
    moreover have "hd (bs @ as) \<noteq> n" "last (bs @ as) \<noteq> n"
      using d hd_in_set [OF d(2)] last_in_set [OF d(2)] by auto
    ultimately have ne: "lnext m n \<noteq> Some n" "lprev m n \<noteq> Some n" by simp_all
    have "lowner m n = Some l" using 2 xs by (simp add: circular_def)
    then show ?thesis by (rule remove_states_inner [OF _ len refl refl ne])
  qed
qed

interpretation rmv: roll_forward
  "\<lambda>j :: 'v list_job. removable (jmem j) (jlist j) (jnode j) (jcontents j)"
  "\<lambda>j. optimized_remove (jlist j) (jnode j)"
  "\<lambda>j. recover_from_failed_remove (jlist j) (jnode j) (llen (jmem j) (jlist j))"
  jmem "\<lambda>j. 1" "\<lambda>j. remove_states (jlist j) (jnode j) (jmem j)"
proof (unfold_locales, goal_cases)
  case (1 j)
  then show ?case by (simp add: optimized_remove_def prog_simps)
next
  case (3 j t)
  then show ?case using remove_states_ok by blast
qed simp

section \<open>Insertion before the cursor\<close>

text \<open>The recovery writes no \<open>list\<close> field, so it is right from the second store on.\<close>

abbreviation ring_states :: "addr \<Rightarrow> addr \<Rightarrow> 'v lmem \<Rightarrow> 'v lmem list" where
  "ring_states l n m \<equiv> drop 2 (states (optimized_insert_before_cursor l n) m)"

abbreviation ring_recovers :: "addr \<Rightarrow> addr \<Rightarrow> 'v lmem \<Rightarrow> bool" where
  "ring_recovers l n m \<equiv> \<forall>t\<in>set (ring_states l n m).
     recovers (recover_from_failed_insert_before_cursor l n (llen m l))
       (final (optimized_insert_before_cursor l n) m) (ring_states l n m) t"

lemma ring_states_empty:
  assumes "lowner m n = None" "lcursor m l = None" "llen m l = 0"
  shows "ring_recovers l n m"
  using assms
  apply (simp add: op_states)
  apply (unfold recovers_def)
  apply (auto simp: run_simps)
  done

lemma ring_states_some:
  assumes "lowner m n = None" "lcursor m l = Some c" "llen m l \<noteq> 0" "c \<noteq> n" "lprev m c = Some p"
    and "p \<noteq> n" "lhead m l \<noteq> Some n"
  shows "ring_recovers l n m"
  using assms
  apply (cases "lhead m l = lcursor m l")
   apply (simp_all add: op_states)
   apply (unfold recovers_def)
   apply (auto simp: run_simps fun_upd_twist [of p n])
  done

lemma ring_states_circular:
  assumes "circular m l xs" "lowner m n = None"
  shows "ring_recovers l n m"
proof (cases xs rule: ends_cases)
  case Nil
  then have "lcursor m l = None" "llen m l = 0" using assms by (simp_all add: circular_def)
  then show ?thesis by (rule ring_states_empty [OF assms(2)])
next
  case (One x)
  have "x \<noteq> n" using circular_fresh [OF assms] One by simp
  moreover have "llen m l \<noteq> 0" "lhead m l \<noteq> Some n"
    using circular_single(2,5) [of m l x] assms One \<open>x \<noteq> n\<close> by simp_all
  ultimately show ?thesis
    using ring_states_some [OF assms(2) circular_single(1) _ _ circular_single(3)] assms(1) One
    by blast
next
  case (More x ys y)
  then have len: "llen m l \<noteq> 0"
    using assms(1) of_nat_usize_eq_0 [of "length xs"] by (simp add: circular_def del: of_nat_Suc)
  have cur: "lcursor m l = Some x" using assms More by (simp add: circular_def)
  have "x \<noteq> n" "lprev m x = Some y" "y \<noteq> n" "lhead m l \<noteq> Some n"
    using assms circular_fresh [OF assms] More by (auto simp: circular_def)
  then show ?thesis by (rule ring_states_some [OF assms(2) cur len])
qed

interpretation rng: roll_forward
  "\<lambda>j :: 'v list_job. circular (jmem j) (jlist j) (jcontents j) \<and> lowner (jmem j) (jnode j) = None"
  "\<lambda>j. optimized_insert_before_cursor (jlist j) (jnode j)"
  "\<lambda>j. recover_from_failed_insert_before_cursor (jlist j) (jnode j) (llen (jmem j) (jlist j))"
  jmem "\<lambda>j. 2" "\<lambda>j. ring_states (jlist j) (jnode j) (jmem j)"
proof (unfold_locales, goal_cases)
  case (1 j)
  then show ?case
    by (auto simp: optimized_insert_before_cursor_def optimized_insert_before_cursor_impl_def
      start_op_log_def prog_simps)
next
  case (3 j t)
  then show ?case using ring_states_circular by blast
qed simp

text \<open>From the log entry on, every state of an operation carries the entry.\<close>

lemma remove_states_log:
  "\<forall>t\<in>set (remove_states l n m). lmicro t = micro_op_old_len RemoveOp (llen m l)"
  by (simp add: op_states split: option.splits)

lemma sorted_states_log:
  "\<forall>t\<in>set (sorted_states c gt l n m). lmicro t = micro_op_old_len c (llen m l)"
  by (simp add: op_states split: option.splits sum.splits)

lemma pop_states_log:
  "\<forall>t\<in>set (pop_states l m). lhead m l \<noteq> None \<longrightarrow> lmicro t = micro_op_old_len PopFront (llen m l)"
  by (simp add: op_states split: option.splits)

lemma ring_states_log:
  "\<forall>t\<in>set (ring_states l n m). lmicro t = micro_op_old_len InsertBeforeCursor (llen m l)"
  by (simp add: op_states split: option.splits)

section \<open>What the operations achieve, power failures included\<close>

lemma final_of: "exec p s = Inr (a, t) \<Longrightarrow> P t \<Longrightarrow> P (final p s)"
  by (simp add: exec_final)

text \<open>Three nodes 1, 2, 3 with values 10, 20, 30, of which 1 and 3 are in list 0 and 2 is free;
  and a circular list 0 with the nodes 1, 2, 3 and the free node 4.\<close>

definition demo_sorted :: "nat lmem" where
  "demo_sorted = \<lparr>lnext = (\<lambda>_. None)(1 := Some 3), lprev = (\<lambda>_. None)(3 := Some 1),
     lowner = (\<lambda>_. None)(1 := Some 0, 3 := Some 0), lvalue = (\<lambda>a. 10 * a),
     llen = (\<lambda>_. 0)(0 := 2), lcursor = (\<lambda>_. None), lhead = (\<lambda>_. None)(0 := Some 1), lmicro = 0\<rparr>"

definition demo_ring :: "nat lmem" where
  "demo_ring = \<lparr>lnext = (\<lambda>_. None)(1 := Some 2, 2 := Some 3, 3 := Some 1),
     lprev = (\<lambda>_. None)(1 := Some 3, 2 := Some 1, 3 := Some 2),
     lowner = (\<lambda>_. None)(1 := Some 0, 2 := Some 0, 3 := Some 0), lvalue = (\<lambda>a. 10 * a),
     llen = (\<lambda>_. 0)(0 := 3), lcursor = (\<lambda>_. None)(0 := Some 1), lhead = (\<lambda>_. None)(0 := Some 2),
     lmicro = 0\<rparr>"

lemma demo_sorted_linear: "linear demo_sorted 0 [1, 3]"
  by (simp add: linear_def demo_sorted_def)

lemma demo_ring_circular: "circular demo_ring 0 [1, 2, 3]"
  by (simp add: circular_def demo_ring_def)

text \<open>Claim C8. A sorted insertion that is cut off anywhere after its log entry, and whose
  recovery is cut off any number of times, is completed by the next recovery: it returns, the
  list is the old one with the node in front of the first node it is not greater than, and no
  other list has changed.\<close>

theorem sorted_insert_survives:
  assumes "linear m l xs" "lowner m n = None" "length xs < 4095" "1 \<le> k"
  shows "\<exists>m'. exec (recover_from_failed_insert_sorted gt l n (llen m l))
      (reboots (recover_from_failed_insert_sorted gt l n (llen m l)) ks
        (crash (sorted_insert c gt l n) k m)) = Inr ((), m') \<and>
    linear m' l (insert_at (\<lambda>a. gt (lvalue m n) (lvalue m a)) n xs) \<and> only_list l m m'"
proof -
  have s: "linear (start_op_log c l m) l xs" "lowner (start_op_log c l m) n = None"
    using assms by (simp_all add: linear_def start_op_log_def)
  obtain m' where m': "exec (optimized_insert_sorted gt l n) (start_op_log c l m) = Inr ((), m')"
    "linear m' l (insert_at (\<lambda>a. gt (lvalue m n) (lvalue m a)) n xs)"
    "only_list l (start_op_log c l m) m'"
    using optimized_insert_sorted_linear [OF s assms(3), of gt] by (auto simp: start_op_log_def)
  then have "final (sorted_insert c gt l n) m = m'"
    by (intro exec_final) (simp add: sorted_insert_def prog_simps)
  moreover have "only_list l m m'" using m'(3) by (simp add: only_list_def start_op_log_def)
  ultimately show ?thesis
    using m'(2) assms srt.survives_reboots [of "\<lparr>jmem = m, jlist = l, jnode = n, jcontents = xs,
      jcode = c, jgt = gt\<rparr>" k ks] by auto
qed

theorem sorted_insert_survives_witness:
  "\<exists>m'. exec (recover_from_failed_insert_sorted (>) 0 2 2)
      (reboots (recover_from_failed_insert_sorted (>) 0 2 2) [1, 3, 2]
        (crash (sorted_insert InsertSortedDelayList (>) 0 2) 5 demo_sorted)) = Inr ((), m') \<and>
    linear m' 0 [1, 2, 3]"
  using sorted_insert_survives [OF demo_sorted_linear, of 2 5 "(>)" "[1, 3, 2]" InsertSortedDelayList]
  by (auto simp: demo_sorted_def insert_at_def)

text \<open>A removal from the front that is cut off anywhere after its log entry is
  completed by the recovery, however often that is cut off: the list loses exactly its first
  node, which is free afterwards, and no other list has changed.\<close>

theorem pop_front_survives:
  assumes "linear m l (x # xs)" "1 \<le> k"
  shows "\<exists>m'. exec (recover_from_failed_pop_front l x (llen m l))
      (reboots (recover_from_failed_pop_front l x (llen m l)) ks
        (crash (optimized_pop_front l) k m)) = Inr ((), m') \<and>
    linear m' l xs \<and> lowner m' x = None \<and> only_list l m m'"
proof -
  obtain m' where m': "exec (optimized_pop_front l) m = Inr (Some x, m')" "linear m' l xs"
    "lowner m' x = None" "only_list l m m'"
    using optimized_pop_front_linear [OF assms(1)] by blast
  then show ?thesis
    using assms exec_final [OF m'(1)] pop.survives_reboots [of "\<lparr>jmem = m, jlist = l, jnode = x,
      jcontents = xs, jcode = PopFront, jgt = \<lambda>_ _. False\<rparr>" k ks] by auto
qed

theorem pop_front_survives_witness:
  "\<exists>m'. exec (recover_from_failed_pop_front 0 1 2)
      (reboots (recover_from_failed_pop_front 0 1 2) [0, 2]
        (crash (optimized_pop_front 0) 3 demo_sorted)) = Inr ((), m') \<and> linear m' 0 [3]"
  using pop_front_survives [OF demo_sorted_linear, of 3 "[0, 2]"] by (auto simp: demo_sorted_def)

text \<open>The same for an insertion at the front.\<close>

theorem insert_front_survives:
  assumes "linear m l xs" "lowner m n = None" "length xs < 4095" "1 \<le> k"
  shows "\<exists>m'. exec (recover_from_failed_insert_front l n (llen m l))
      (reboots (recover_from_failed_insert_front l n (llen m l)) ks
        (crash (optimized_insert_front l n) k m)) = Inr ((), m') \<and>
    linear m' l (n # xs) \<and> only_list l m m'"
proof -
  obtain m' where m': "exec (optimized_insert_front l n) m = Inr ((), m')" "linear m' l (n # xs)"
    "only_list l m m'"
    using optimized_insert_front_linear [OF assms(1-3)] by blast
  then show ?thesis
    using assms exec_final [OF m'(1)] front.survives_reboots [of "\<lparr>jmem = m, jlist = l, jnode = n,
      jcontents = xs, jcode = InsertFront, jgt = \<lambda>_ _. False\<rparr>" k ks] by auto
qed

theorem insert_front_survives_witness:
  "\<exists>m'. exec (recover_from_failed_insert_front 0 2 2)
      (reboots (recover_from_failed_insert_front 0 2 2) [3]
        (crash (optimized_insert_front 0 2) 5 demo_sorted)) = Inr ((), m') \<and> linear m' 0 [2, 1, 3]"
  using insert_front_survives [OF demo_sorted_linear, of 2 5 "[3]"] by (auto simp: demo_sorted_def)

text \<open>An insertion before the cursor of a circular list that is cut off after its
  first two stores (the log entry and the node's \<open>list\<close> field) is completed by the recovery,
  however often that is cut off: the node becomes the last one of the round, and no other list
  has changed.\<close>

theorem insert_before_cursor_survives:
  assumes "circular m l xs" "lowner m n = None" "length xs < 4095" "2 \<le> k"
  shows "\<exists>m'. exec (recover_from_failed_insert_before_cursor l n (llen m l))
      (reboots (recover_from_failed_insert_before_cursor l n (llen m l)) ks
        (crash (optimized_insert_before_cursor l n) k m)) = Inr ((), m') \<and>
    circular m' l (xs @ [n]) \<and> only_list l m m'"
proof -
  obtain m' where m': "exec (optimized_insert_before_cursor l n) m = Inr ((), m')"
    "circular m' l (xs @ [n])" "only_list l m m'"
    using optimized_insert_before_cursor_circular [OF assms(1-3)] by blast
  then show ?thesis
    using assms exec_final [OF m'(1)] rng.survives_reboots [of "\<lparr>jmem = m, jlist = l, jnode = n,
      jcontents = xs, jcode = InsertBeforeCursor, jgt = \<lambda>_ _. False\<rparr>" k ks] by auto
qed

theorem insert_before_cursor_survives_witness:
  "\<exists>m'. exec (recover_from_failed_insert_before_cursor 0 4 3)
      (reboots (recover_from_failed_insert_before_cursor 0 4 3) [2, 1]
        (crash (optimized_insert_before_cursor 0 4) 4 demo_ring)) = Inr ((), m') \<and>
    circular m' 0 [1, 2, 3, 4]"
  using insert_before_cursor_survives [OF demo_ring_circular, of 4 4 "[2, 1]"]
  by (auto simp: demo_ring_def)

text \<open>A removal of a member, from a linear list or from a circular list of at least
  two members, that is cut off after its log entry is completed by the recovery, however often
  that is cut off: exactly that node leaves the list, and no other list has changed.\<close>

theorem remove_survives:
  assumes "removable m l n (xs @ n # ys)" "1 \<le> k"
  shows "\<exists>m'. exec (recover_from_failed_remove l n (llen m l))
      (reboots (recover_from_failed_remove l n (llen m l)) ks
        (crash (optimized_remove l n) k m)) = Inr ((), m') \<and>
    (linear m l (xs @ n # ys) \<longrightarrow> linear m' l (xs @ ys)) \<and>
    (circular m l (xs @ n # ys) \<longrightarrow> circular m' l (xs @ ys)) \<and>
    lowner m' n = None \<and> only_list l m m'"
proof -
  have "linear m l (xs @ n # ys) \<or> circular m l (xs @ n # ys)"
    using assms(1) by (auto simp: removable_def)
  then obtain m' where m': "exec (optimized_remove l n) m = Inr ((), m')"
    "linear m l (xs @ n # ys) \<longrightarrow> linear m' l (xs @ ys)"
    "circular m l (xs @ n # ys) \<longrightarrow> circular m' l (xs @ ys)"
    "lowner m' n = None" "only_list l m m'"
    using optimized_remove_linear [of m l xs n ys] optimized_remove_circular [of m l xs n ys]
    by fastforce
  then show ?thesis
    using assms exec_final [OF m'(1)] rmv.survives_reboots [of "\<lparr>jmem = m, jlist = l, jnode = n,
      jcontents = xs @ n # ys, jcode = RemoveOp, jgt = \<lambda>_ _. False\<rparr>" k ks] by auto
qed

theorem remove_survives_witness:
  "\<exists>m'. exec (recover_from_failed_remove 0 2 3)
      (reboots (recover_from_failed_remove 0 2 3) [1]
        (crash (optimized_remove 0 2) 2 demo_ring)) = Inr ((), m') \<and> circular m' 0 [1, 3]"
  using remove_survives [of demo_ring 0 2 "[1]" "[3]" 2 "[1]"] demo_ring_circular
  by (auto simp: removable_def demo_ring_def)

section \<open>Where the recovery falls short\<close>

text \<open>Removing the only node of a circular list: when the power fails right after the
  log entry, the recovery leaves a list of length 0 whose cursor and head still point to the
  removed node, while the uninterrupted removal clears both.\<close>

theorem remove_last_of_ring_recovery:
  assumes "circular m l [n]"
  shows "\<exists>m'. exec (recover_from_failed_remove l n (llen m l)) (crash (optimized_remove l n) 1 m) =
      Inr ((), m') \<and> llen m' l = 0 \<and> lowner m' n = None \<and> lcursor m' l = Some n \<and> lhead m' l = Some n \<and>
    lcursor (final (optimized_remove l n) m) l = None"
  using circular_single [OF assms] circular_owner [OF assms, of n] by (simp add: run_simps)

definition demo_one :: "nat lmem" where
  "demo_one = \<lparr>lnext = (\<lambda>_. None)(1 := Some 1), lprev = (\<lambda>_. None)(1 := Some 1),
     lowner = (\<lambda>_. None)(1 := Some 0), lvalue = (\<lambda>a. 10 * a), llen = (\<lambda>_. 0)(0 := 1),
     lcursor = (\<lambda>_. None)(0 := Some 1), lhead = (\<lambda>_. None)(0 := Some 1), lmicro = 0\<rparr>"

lemma demo_one_circular: "circular demo_one 0 [1]"
  by (simp add: circular_def demo_one_def)

theorem remove_last_of_ring_recovery_witness:
  "\<exists>m'. exec (recover_from_failed_remove 0 1 1) (crash (optimized_remove 0 1) 1 demo_one) =
      Inr ((), m') \<and> llen m' 0 = 0 \<and> lcursor m' 0 = Some 1"
  using remove_last_of_ring_recovery [OF demo_one_circular] by (auto simp: demo_one_def)

text \<open>Inserting before the cursor: when the power fails right after the log entry, the
  recovery links the node and counts it but leaves its \<open>list\<close> field empty, so that a later
  removal of the node does nothing.\<close>

theorem insert_before_cursor_lost_owner:
  assumes "circular m l xs" "lowner m n = None"
  shows "\<exists>m'. exec (recover_from_failed_insert_before_cursor l n (llen m l))
      (crash (optimized_insert_before_cursor l n) 1 m) = Inr ((), m') \<and>
    lowner m' n = None \<and> llen m' l = llen m l + 1 \<and>
    exec (optimized_remove_impl l n) m' = Inr ((), m')"
proof (cases xs rule: ends_cases)
  case More
  have "llen m l \<noteq> 0"
    using assms(1) More of_nat_usize_eq_0 [of "length xs"] by (simp add: circular_def del: of_nat_Suc)
  then show ?thesis using assms circular_fresh [OF assms] More
    by (simp add: run_simps circular_def)
qed (use assms circular_fresh [OF assms] in \<open>simp_all add: run_simps circular_def\<close>)

theorem insert_before_cursor_lost_owner_witness:
  "\<exists>m'. exec (recover_from_failed_insert_before_cursor 0 4 3)
      (crash (optimized_insert_before_cursor 0 4) 1 demo_ring) = Inr ((), m') \<and> lowner m' 4 = None"
  using insert_before_cursor_lost_owner [OF demo_ring_circular, of 4] by (auto simp: demo_ring_def)

end
