(* ===== verification/Task.thy ===== *)
theory Task
  imports PListCrash
begin

text \<open>
  The scheduler's data of \<open>src/task.rs\<close>: priorities, the items of the scheduler's lists and
  their orders, and the part of the kernel's persistent state the scheduler works on. All lists
  live in one memory with one operation log, as in the source: the ready list of priority
  \<open>p\<close> at address \<open>p\<close>, the delay list at address 8, every wait list of a queue, semaphore
  or event group above. The two nodes embedded in the task structure \<open>t\<close> are
  \<open>sched_node t\<close> and \<open>event_node t\<close>.
\<close>

section \<open>Priorities and states\<close>

type_synonym time = "32 word"
type_synonym tid = nat

definition NUM_PRIORITY_LEVELS :: nat where
  "NUM_PRIORITY_LEVELS = 8"

definition MIN_PRIORITY :: nat where
  "MIN_PRIORITY = NUM_PRIORITY_LEVELS"

definition MAX_DELAY_TIME :: time where
  "MAX_DELAY_TIME = - 1"

datatype Priority = Priority (prio_value: usize)

text \<open>\<open>Ord for Priority\<close>: the comparison of the values with the operands exchanged.\<close>

definition prio_gt :: "Priority \<Rightarrow> Priority \<Rightarrow> bool" where
  "prio_gt a b \<longleftrightarrow> prio_value b > prio_value a"

definition is_higher_than :: "Priority \<Rightarrow> Priority \<Rightarrow> bool" where
  "is_higher_than a b \<longleftrightarrow> prio_value a < prio_value b"

definition is_lower_than :: "Priority \<Rightarrow> Priority \<Rightarrow> bool" where
  "is_lower_than a b \<longleftrightarrow> prio_value a > prio_value b"

datatype ErrorCode = InvalidCode | NoSpace | InvalidParam | TxRetry | TxExit | TxFatal

datatype TaskState = Ready | Blocked | Running | Killed

section \<open>List items\<close>

datatype item =
    SchedListItem (item_task: tid) (wakeup_time: time)
  | BlockedListItem (item_task: tid) (opaque: usize)

text \<open>\<open>Ord for SchedListItem\<close> compares wake-up times, \<open>Ord for BlockedListItem\<close> the priorities of
  the tasks.\<close>

definition sched_gt :: "item \<Rightarrow> item \<Rightarrow> bool" where
  "sched_gt a b \<longleftrightarrow> wakeup_time a > wakeup_time b"

definition blocked_gt :: "(tid \<Rightarrow> Priority) \<Rightarrow> item \<Rightarrow> item \<Rightarrow> bool" where
  "blocked_gt pr a b \<longleftrightarrow> prio_gt (pr (item_task a)) (pr (item_task b))"

interpretation sched_order: item_order sched_gt
  by unfold_locales (auto simp: sched_gt_def)

interpretation blocked_order: item_order "blocked_gt pr"
  by unfold_locales (auto simp: blocked_gt_def prio_gt_def)

section \<open>The kernel state\<close>

datatype ListTxOpCode =
    InvalidTx
  | WaitListPopRemoval
  | WaitListInsert
  | WaitListRemoval
  | UnsortedWaitListInsert
  | DelayListRemoval
  | DelayListInsert
  | ReadyListInsert
  | ActiveListRemove
  | ActiveListRemoveReInsert
  | ActiveListPopReInsert
  | ActiveListPop
  | ActiveListTxCommitted
  | ReadyListNextTx

record task =
  priority :: Priority
  status :: TaskState
  list_tx_done :: bool

record kernel =
  k_lists :: "item lmem"
  log_op :: ListTxOpCode
  log_block_node :: "addr option"
  log_task :: "tid option"
  log_wait_list :: "addr option"
  tasks :: "tid \<Rightarrow> task"
  current_task :: tid
  tick_counter :: time
  next_unblock_time :: time

definition sched_node :: "tid \<Rightarrow> addr" where
  "sched_node t = 2 * t"

definition event_node :: "tid \<Rightarrow> addr" where
  "event_node t = 2 * t + 1"

definition DELAYED_TASK_LIST :: addr where
  "DELAYED_TASK_LIST = 8"

definition on_lists :: "(item lmem, 'a) prog \<Rightarrow> (kernel, 'a) prog" where
  "on_lists p = lift k_lists (\<lambda>m k. k\<lparr>k_lists := m\<rparr>) p"

interpretation lists: lens k_lists "\<lambda>m k. k\<lparr>k_lists := m\<rparr>"
  by unfold_locales simp_all

definition prio_of :: "kernel \<Rightarrow> tid \<Rightarrow> Priority" where
  "prio_of k t = priority (tasks k t)"

definition set_status :: "tid \<Rightarrow> TaskState \<Rightarrow> kernel \<Rightarrow> kernel" where
  "set_status t st k = k\<lparr>tasks := (tasks k)(t := (tasks k t)\<lparr>status := st\<rparr>)\<rparr>"

definition complete_list_transaction :: "tid \<Rightarrow> kernel \<Rightarrow> kernel" where
  "complete_list_transaction t k = k\<lparr>tasks := (tasks k)(t := (tasks k t)\<lparr>list_tx_done := True\<rparr>)\<rparr>"

definition reset_list_transaction :: "tid \<Rightarrow> kernel \<Rightarrow> kernel" where
  "reset_list_transaction t k = k\<lparr>tasks := (tasks k)(t := (tasks k t)\<lparr>list_tx_done := False\<rparr>)\<rparr>"

definition get_wakeup_time :: "kernel \<Rightarrow> tid \<Rightarrow> time" where
  "get_wakeup_time k t = wakeup_time (lvalue (k_lists k) (sched_node t))"

definition set_wakeup_time :: "tid \<Rightarrow> time \<Rightarrow> kernel \<Rightarrow> kernel" where
  "set_wakeup_time t w k = k\<lparr>k_lists := (k_lists k)\<lparr>lvalue :=
     (lvalue (k_lists k))(sched_node t := SchedListItem t w)\<rparr>\<rparr>"

definition is_schedulable :: "kernel \<Rightarrow> tid \<Rightarrow> bool" where
  "is_schedulable k t \<longleftrightarrow> status (tasks k t) = Ready \<or> status (tasks k t) = Running"

definition is_awaken :: "kernel \<Rightarrow> tid \<Rightarrow> bool" where
  "is_awaken k t \<longleftrightarrow> tick_counter k \<ge> get_wakeup_time k t"

definition less_important_than :: "kernel \<Rightarrow> tid \<Rightarrow> tid \<Rightarrow> bool" where
  "less_important_than k t u \<longleftrightarrow> prio_gt (prio_of k u) (prio_of k t)"

text \<open>\<open>TASK_LISTS[prio]\<close>, with its bounds check.\<close>

definition with_sched_list :: "tid \<Rightarrow> (addr \<Rightarrow> (kernel, 'a) prog) \<Rightarrow> (kernel, 'a) prog" where
  "with_sched_list t f = Read (\<lambda>k. let p = unat (prio_value (prio_of k t)) in
     if p < NUM_PRIORITY_LEVELS then f p else Fail Panic)"

section \<open>Moving a task between the scheduler's lists\<close>

definition add_to_delayed_list :: "tid \<Rightarrow> (kernel, unit) prog" where
  "add_to_delayed_list t = Write (set_status t Blocked)
     (seq (on_lists (sorted_insert InsertSortedDelayList sched_gt DELAYED_TASK_LIST (sched_node t)))
       (Read (\<lambda>k. if get_wakeup_time k t < next_unblock_time k
          then writes [\<lambda>k. k\<lparr>next_unblock_time := get_wakeup_time k t\<rparr>] else Halt)))"

definition remove_from_delayed_list :: "tid \<Rightarrow> (kernel, unit) prog" where
  "remove_from_delayed_list t = on_lists (optimized_remove DELAYED_TASK_LIST (sched_node t))"

definition add_to_ready_list :: "tid \<Rightarrow> (kernel, unit) prog" where
  "add_to_ready_list t = seq
     (with_sched_list t (\<lambda>l. on_lists (optimized_insert_before_cursor l (sched_node t))))
     (writes [set_status t Ready])"

definition remove_from_ready_list :: "tid \<Rightarrow> (kernel, unit) prog" where
  "remove_from_ready_list t =
     with_sched_list t (\<lambda>l. on_lists (optimized_remove l (sched_node t)))"

definition waitlist_insert :: "addr \<Rightarrow> tid \<Rightarrow> (kernel, unit) prog" where
  "waitlist_insert wl t = Read (\<lambda>k. on_lists
     (sorted_insert InsertSortedWaitList (blocked_gt (prio_of k)) wl (event_node t)))"

lemmas task_setters = set_status_def complete_list_transaction_def reset_list_transaction_def
  set_wakeup_time_def

section \<open>Shape of the scheduler's lists\<close>

text \<open>What the scheduler's lists mean: the tasks of each ready list from its cursor on, the
  delayed tasks, and the tasks waiting on each wait list.\<close>

record sched =
  ready :: "nat \<Rightarrow> tid list"
  delayed :: "tid list"
  waiting :: "addr \<Rightarrow> tid list"

definition own_items :: "item lmem \<Rightarrow> bool" where
  "own_items m \<longleftrightarrow> (\<forall>t. (\<exists>w. lvalue m (sched_node t) = SchedListItem t w) \<and>
     (\<exists>v. lvalue m (event_node t) = BlockedListItem t v))"

definition lists_rel :: "item lmem \<Rightarrow> sched \<Rightarrow> bool" where
  "lists_rel m A \<longleftrightarrow> own_items m \<and>
     (\<forall>p<8. circular m p (map sched_node (ready A p))) \<and>
     linear m 8 (map sched_node (delayed A)) \<and>
     (\<forall>w>8. linear m w (map event_node (waiting A w)))"

abbreviation sched_rel :: "kernel \<Rightarrow> sched \<Rightarrow> bool" where
  "sched_rel k A \<equiv> lists_rel (k_lists k) A"

lemma sched_node_inj [simp]: "sched_node t = sched_node u \<longleftrightarrow> t = u"
  by (simp add: sched_node_def)

lemma event_node_inj [simp]: "event_node t = event_node u \<longleftrightarrow> t = u"
  by (simp add: event_node_def)

lemma node_kinds [simp]: "sched_node t \<noteq> event_node u" "event_node u \<noteq> sched_node t"
  unfolding sched_node_def event_node_def by presburger+

lemma own_items_task:
  "own_items m \<Longrightarrow> item_task (lvalue m (sched_node t)) = t"
  "own_items m \<Longrightarrow> item_task (lvalue m (event_node t)) = t"
  unfolding own_items_def by (metis item.sel)+

lemma exec_on_lists:
  "exec (on_lists p) k = (case exec p (k_lists k) of Inl e \<Rightarrow> Inl e
     | Inr (a, m) \<Rightarrow> Inr (a, k\<lparr>k_lists := m\<rparr>))"
  unfolding on_lists_def by (rule lists.exec_lift)

lemma states_on_lists:
  "set (states (on_lists p) k) = (\<lambda>m. k\<lparr>k_lists := m\<rparr>) ` set (states p (k_lists k))"
proof -
  have "set (states (on_lists p) k) = {crash (on_lists p) i k | i. True}"
    using crash_in_states [of "on_lists p" _ k] drop_in_crash [of _ 0 "on_lists p" k] by fastforce
  moreover have "set (states p (k_lists k)) = {crash p i (k_lists k) | i. True}"
    using crash_in_states [of p _ "k_lists k"] drop_in_crash [of _ 0 p "k_lists k"] by fastforce
  ultimately show ?thesis by (auto simp: on_lists_def lists.crash_lift)
qed

text \<open>An operation that changes one list only changes one component of the abstract state; the
  log entry is not part of the lists.\<close>

lemma lists_rel_own:
  assumes "lists_rel m A" "only_list l m m'"
  shows "own_items m'"
  using assms unfolding lists_rel_def own_items_def only_list_def by simp

lemma lists_rel_ready:
  assumes "lists_rel m A" "only_list p m m'" "p < 8" "circular m' p (map sched_node ts)"
  shows "lists_rel m' (A\<lparr>ready := (ready A)(p := ts)\<rparr>)"
  unfolding lists_rel_def
  using assms lists_rel_own [OF assms(1,2)] only_list_circular [OF assms(2)]
    only_list_linear [OF assms(2)]
  by (simp add: lists_rel_def)

lemma lists_rel_delayed:
  assumes "lists_rel m A" "only_list 8 m m'" "linear m' 8 (map sched_node ts)"
  shows "lists_rel m' (A\<lparr>delayed := ts\<rparr>)"
  unfolding lists_rel_def
  using assms lists_rel_own [OF assms(1,2)] only_list_circular [OF assms(2)]
    only_list_linear [OF assms(2)]
  by (simp add: lists_rel_def)

lemma lists_rel_waiting:
  assumes "lists_rel m A" "only_list w m m'" "w > 8" "linear m' w (map event_node ts)"
  shows "lists_rel m' (A\<lparr>waiting := (waiting A)(w := ts)\<rparr>)"
  unfolding lists_rel_def
  using assms lists_rel_own [OF assms(1,2)] only_list_circular [OF assms(2)]
    only_list_linear [OF assms(2)]
  by (simp add: lists_rel_def)

lemma lists_rel_micro [simp]: "lists_rel (m\<lparr>lmicro := w\<rparr>) A = lists_rel m A"
  by (simp add: lists_rel_def own_items_def circular_def linear_def)

lemma lists_rel_distinct:
  assumes "lists_rel m A"
  shows "p < 8 \<Longrightarrow> distinct (ready A p)" "distinct (delayed A)" "w > 8 \<Longrightarrow> distinct (waiting A w)"
  using assms by (auto simp: lists_rel_def circular_def linear_def distinct_map)

lemma lists_rel_owner:
  assumes "lists_rel m A"
  shows "p < 8 \<Longrightarrow> lowner m a = Some p \<longleftrightarrow> a \<in> sched_node ` set (ready A p)"
    "lowner m a = Some 8 \<longleftrightarrow> a \<in> sched_node ` set (delayed A)"
    "w > 8 \<Longrightarrow> lowner m a = Some w \<longleftrightarrow> a \<in> event_node ` set (waiting A w)"
  using assms circular_owner linear_owner unfolding lists_rel_def by (metis list.set_map)+

text \<open>Where the two nodes of a task may be.\<close>

lemma sched_node_owner:
  assumes "lists_rel m A" "lowner m (sched_node t) = Some l"
  shows "l \<le> 8"
  using lists_rel_owner(3) [OF assms(1), of l "sched_node t"] assms(2) by (cases "l > 8") auto

lemma event_node_owner:
  assumes "lists_rel m A" "lowner m (event_node t) = Some l"
  shows "8 < l" and "t \<in> set (waiting A l)"
proof -
  show l: "8 < l"
    using lists_rel_owner(1) [OF assms(1), of l "event_node t"] assms(2)
      lists_rel_owner(2) [OF assms(1), of "event_node t"]
    by (cases "l < 8"; cases "l = 8") auto
  show "t \<in> set (waiting A l)"
    using lists_rel_owner(3) [OF assms(1) l, of "event_node t"] assms(2) by auto
qed

section \<open>The moves refine moves on the abstract lists\<close>

lemma insert_at_map: "insert_at P (f x) (map f xs) = map f (insert_at (\<lambda>a. P (f a)) x xs)"
  by (simp add: insert_at_def takeWhile_map dropWhile_map comp_def)

lemma map_split_at:
  "x \<in> set xs \<Longrightarrow> distinct xs \<Longrightarrow> \<exists>as bs. xs = as @ x # bs \<and> remove1 x xs = as @ bs"
  by (metis split_list remove1_append remove1.simps(2) distinct_append
      not_distinct_conv_prefix in_set_conv_decomp_first)

lemma step_remove_ready:
  assumes "sched_rel k A" "unat (prio_value (prio_of k t)) = p" "p < 8" "t \<in> set (ready A p)"
  shows "\<exists>m. exec (remove_from_ready_list t) k = Inr ((), k\<lparr>k_lists := m\<rparr>) \<and>
    only_list p (k_lists k) m \<and> lowner m (sched_node t) = None \<and>
    lists_rel m (A\<lparr>ready := (ready A)(p := remove1 t (ready A p))\<rparr>)"
proof -
  obtain as bs where s: "ready A p = as @ t # bs" "remove1 t (ready A p) = as @ bs"
    using map_split_at assms lists_rel_distinct by metis
  have "circular (k_lists k) p (map sched_node (ready A p))" using assms by (simp add: lists_rel_def)
  then have "circular (k_lists k) p (map sched_node as @ sched_node t # map sched_node bs)"
    unfolding s by simp
  from optimized_remove_circular [OF this] obtain m where
    m: "exec (optimized_remove p (sched_node t)) (k_lists k) = Inr ((), m)"
    "circular m p (map sched_node (as @ bs))" "lowner m (sched_node t) = None" "only_list p (k_lists k) m"
    by auto
  from lists_rel_ready [OF assms(1) m(4) assms(3) m(2)] m assms(2,3) s show ?thesis
    by (intro exI [of _ m])
      (simp add: remove_from_ready_list_def with_sched_list_def exec_on_lists NUM_PRIORITY_LEVELS_def)
qed

lemma step_add_ready:
  assumes "sched_rel k A" "unat (prio_value (prio_of k t)) = p" "p < 8"
    and "lowner (k_lists k) (sched_node t) = None" "length (ready A p) < 4095"
  shows "\<exists>m. exec (add_to_ready_list t) k = Inr ((), set_status t Ready (k\<lparr>k_lists := m\<rparr>)) \<and>
    only_list p (k_lists k) m \<and>
    lists_rel m (A\<lparr>ready := (ready A)(p := ready A p @ [t])\<rparr>)"
proof -
  have "circular (k_lists k) p (map sched_node (ready A p))" using assms by (simp add: lists_rel_def)
  from optimized_insert_before_cursor_circular [OF this assms(4)] assms(5) obtain m where
    m: "exec (optimized_insert_before_cursor p (sched_node t)) (k_lists k) = Inr ((), m)"
    "circular m p (map sched_node (ready A p @ [t]))" "only_list p (k_lists k) m"
    by auto
  from lists_rel_ready [OF assms(1) m(3) assms(3) m(2)] m assms(2,3) show ?thesis
    by (intro exI [of _ m])
      (simp add: add_to_ready_list_def with_sched_list_def exec_on_lists exec_seq NUM_PRIORITY_LEVELS_def)
qed

definition wakes_later :: "kernel \<Rightarrow> tid \<Rightarrow> tid \<Rightarrow> bool" where
  "wakes_later k t u \<longleftrightarrow> get_wakeup_time k t > get_wakeup_time k u"

lemma step_add_delayed:
  assumes "sched_rel k A" "lowner (k_lists k) (sched_node t) = None" "length (delayed A) < 4095"
  shows "\<exists>m. exec (add_to_delayed_list t) k = Inr ((), (set_status t Blocked (k\<lparr>k_lists := m\<rparr>))
      \<lparr>next_unblock_time := min (next_unblock_time k) (get_wakeup_time k t)\<rparr>) \<and>
    only_list 8 (k_lists k) m \<and>
    lists_rel m (A\<lparr>delayed := insert_at (wakes_later k t) t (delayed A)\<rparr>)"
proof -
  let ?c = InsertSortedDelayList
  let ?m0 = "start_op_log ?c 8 (k_lists k)"
  have "linear ?m0 8 (map sched_node (delayed A))" "lowner ?m0 (sched_node t) = None"
    using assms by (simp_all add: lists_rel_def linear_def start_op_log_def)
  from optimized_insert_sorted_linear [OF this, of sched_gt] assms(3) obtain m where
    m: "exec (optimized_insert_sorted sched_gt 8 (sched_node t)) ?m0 = Inr ((), m)"
    "linear m 8 (insert_at (\<lambda>a. sched_gt (lvalue ?m0 (sched_node t)) (lvalue ?m0 a)) (sched_node t)
        (map sched_node (delayed A)))" "only_list 8 ?m0 m"
    by auto
  have e: "exec (sorted_insert ?c sched_gt 8 (sched_node t)) (k_lists k) = Inr ((), m)"
    using m(1) by (simp add: sorted_insert_def)
  have l: "linear m 8 (map sched_node (insert_at (wakes_later k t) t (delayed A)))"
    using m(2) by (simp add: insert_at_map start_op_log_def sched_gt_def wakes_later_def [abs_def] get_wakeup_time_def [abs_def])
  have o: "only_list 8 (k_lists k) m" using m(3) by (simp add: only_list_def start_op_log_def)
  then have v: "lvalue m = lvalue (k_lists k)" by (simp add: only_list_def)
  from lists_rel_delayed [OF assms(1) o l] o e v show ?thesis
    by (intro exI [of _ m])
      (simp add: add_to_delayed_list_def exec_on_lists exec_seq DELAYED_TASK_LIST_def set_status_def
        get_wakeup_time_def min_def)
qed

lemma step_remove_delayed:
  assumes "sched_rel k A" "t \<in> set (delayed A)"
  shows "\<exists>m. exec (remove_from_delayed_list t) k = Inr ((), k\<lparr>k_lists := m\<rparr>) \<and>
    only_list 8 (k_lists k) m \<and> lowner m (sched_node t) = None \<and>
    lists_rel m (A\<lparr>delayed := remove1 t (delayed A)\<rparr>)"
proof -
  obtain as bs where s: "delayed A = as @ t # bs" "remove1 t (delayed A) = as @ bs"
    using map_split_at assms lists_rel_distinct by metis
  have "linear (k_lists k) 8 (map sched_node as @ sched_node t # map sched_node bs)"
    using assms s by (simp add: lists_rel_def)
  from optimized_remove_linear [OF this] obtain m where
    m: "exec (optimized_remove 8 (sched_node t)) (k_lists k) = Inr ((), m)"
    "linear m 8 (map sched_node (as @ bs))" "lowner m (sched_node t) = None" "only_list 8 (k_lists k) m"
    by auto
  from lists_rel_delayed [OF assms(1) m(4) m(2)] m s show ?thesis
    by (intro exI [of _ m])
      (simp add: remove_from_delayed_list_def exec_on_lists DELAYED_TASK_LIST_def)
qed

lemma step_waitlist_insert:
  assumes "sched_rel k A" "w > 8" "lowner (k_lists k) (event_node t) = None" "length (waiting A w) < 4095"
  shows "\<exists>m. exec (waitlist_insert w t) k = Inr ((), k\<lparr>k_lists := m\<rparr>) \<and>
    only_list w (k_lists k) m \<and>
    lists_rel m (A\<lparr>waiting := (waiting A)(w :=
      insert_at (\<lambda>u. prio_gt (prio_of k t) (prio_of k u)) t (waiting A w))\<rparr>)"
proof -
  let ?c = InsertSortedWaitList
  let ?m0 = "start_op_log ?c w (k_lists k)"
  have "linear ?m0 w (map event_node (waiting A w))" "lowner ?m0 (event_node t) = None"
    using assms by (simp_all add: lists_rel_def linear_def start_op_log_def)
  from optimized_insert_sorted_linear [OF this, of "blocked_gt (prio_of k)"] assms(4) obtain m where
    m: "exec (optimized_insert_sorted (blocked_gt (prio_of k)) w (event_node t)) ?m0 = Inr ((), m)"
    "linear m w (insert_at (\<lambda>a. blocked_gt (prio_of k) (lvalue ?m0 (event_node t)) (lvalue ?m0 a)) (event_node t)
        (map event_node (waiting A w)))" "only_list w ?m0 m"
    by auto
  have e: "exec (sorted_insert ?c (blocked_gt (prio_of k)) w (event_node t)) (k_lists k) = Inr ((), m)"
    using m(1) by (simp add: sorted_insert_def)
  have own: "own_items (k_lists k)" using assms(1) by (simp add: lists_rel_def)
  have l: "linear m w (map event_node (insert_at (\<lambda>u. prio_gt (prio_of k t) (prio_of k u)) t (waiting A w)))"
    using m(2) by (simp add: insert_at_map start_op_log_def blocked_gt_def own_items_task [OF own])
  have o: "only_list w (k_lists k) m" using m(3) by (simp add: only_list_def start_op_log_def)
  from lists_rel_waiting [OF assms(1) o assms(2) l] o e show ?thesis
    by (intro exI [of _ m]) (simp add: waitlist_insert_def exec_on_lists)
qed

lemma step_waitlist_pop:
  assumes "sched_rel k A" "w > 8" "waiting A w = t # ts"
  shows "\<exists>m. exec (on_lists (optimized_pop_front w)) k = Inr (Some (event_node t), k\<lparr>k_lists := m\<rparr>) \<and>
    only_list w (k_lists k) m \<and> lowner m (event_node t) = None \<and>
    lists_rel m (A\<lparr>waiting := (waiting A)(w := ts)\<rparr>)"
proof -
  have "linear (k_lists k) w (event_node t # map event_node ts)" using assms by (auto simp: lists_rel_def)
  from optimized_pop_front_linear [OF this] obtain m where
    m: "exec (optimized_pop_front w) (k_lists k) = Inr (Some (event_node t), m)"
    "linear m w (map event_node ts)" "lowner m (event_node t) = None" "only_list w (k_lists k) m"
    by auto
  from lists_rel_waiting [OF assms(1) m(4) assms(2) m(2)] m show ?thesis
    by (intro exI [of _ m]) (simp add: exec_on_lists)
qed

lemma step_waitlist_remove:
  assumes "sched_rel k A" "w > 8" "t \<in> set (waiting A w)"
  shows "\<exists>m. exec (on_lists (optimized_remove w (event_node t))) k = Inr ((), k\<lparr>k_lists := m\<rparr>) \<and>
    only_list w (k_lists k) m \<and> lowner m (event_node t) = None \<and>
    lists_rel m (A\<lparr>waiting := (waiting A)(w := remove1 t (waiting A w))\<rparr>)"
proof -
  obtain as bs where s: "waiting A w = as @ t # bs" "remove1 t (waiting A w) = as @ bs"
    using map_split_at assms lists_rel_distinct by metis
  have "linear (k_lists k) w (map event_node as @ event_node t # map event_node bs)"
    using assms s by (auto simp: lists_rel_def)
  from optimized_remove_linear [OF this] obtain m where
    m: "exec (optimized_remove w (event_node t)) (k_lists k) = Inr ((), m)"
    "linear m w (map event_node (as @ bs))" "lowner m (event_node t) = None" "only_list w (k_lists k) m"
    by auto
  from lists_rel_waiting [OF assms(1) m(4) assms(2) m(2)] m s show ?thesis
    by (intro exI [of _ m]) (simp add: exec_on_lists)
qed

lemma step_delayed_pop:
  assumes "sched_rel k A" "delayed A = t # ts"
  shows "\<exists>m. exec (on_lists (optimized_pop_front 8)) k = Inr (Some (sched_node t), k\<lparr>k_lists := m\<rparr>) \<and>
    only_list 8 (k_lists k) m \<and> lowner m (sched_node t) = None \<and>
    lists_rel m (A\<lparr>delayed := ts\<rparr>)"
proof -
  have "linear (k_lists k) 8 (sched_node t # map sched_node ts)" using assms by (auto simp: lists_rel_def)
  from optimized_pop_front_linear [OF this] obtain m where
    m: "exec (optimized_pop_front 8) (k_lists k) = Inr (Some (sched_node t), m)"
    "linear m 8 (map sched_node ts)" "lowner m (sched_node t) = None" "only_list 8 (k_lists k) m"
    by auto
  from lists_rel_delayed [OF assms(1) m(4) m(2)] m show ?thesis
    by (intro exI [of _ m]) (simp add: exec_on_lists)
qed

end
