(* ===== verification/ListTx.thy ===== *)
theory ListTx
  imports Task
begin

text \<open>
  The list transactions of \<open>src/list.rs\<close>: the moves of a task between its ready list, the delay
  list and a wait list, made atomic with respect to power failures by the transaction log
  \<open>LIST_TX_OP_LOG\<close> (which move is under way, and on what) together with the micro-operation
  log (which list operation of it). After a power failure \<open>recover_list_transaction\<close> of
  \<open>src/recover.rs\<close> looks at both and rolls the move forward.
\<close>

section \<open>The transaction log\<close>

definition set_tx_op :: "ListTxOpCode \<Rightarrow> kernel \<Rightarrow> kernel" where
  "set_tx_op c k = k\<lparr>log_op := c\<rparr>"

definition set_block_node_ptr :: "addr option \<Rightarrow> kernel \<Rightarrow> kernel" where
  "set_block_node_ptr p k = k\<lparr>log_block_node := p\<rparr>"

definition set_task_ptr :: "tid option \<Rightarrow> kernel \<Rightarrow> kernel" where
  "set_task_ptr t k = k\<lparr>log_task := t\<rparr>"

definition set_wait_list_ptr :: "addr option \<Rightarrow> kernel \<Rightarrow> kernel" where
  "set_wait_list_ptr w k = k\<lparr>log_wait_list := w\<rparr>"

definition set_micro :: "usize \<Rightarrow> kernel \<Rightarrow> kernel" where
  "set_micro w k = k\<lparr>k_lists := (k_lists k)\<lparr>lmicro := w\<rparr>\<rparr>"

definition set_micro_op_old_len :: "ListOpCode \<Rightarrow> usize \<Rightarrow> kernel \<Rightarrow> kernel" where
  "set_micro_op_old_len c n k = set_micro (micro_op_old_len c n) k"

definition commit :: "(kernel, unit) prog" where
  "commit = writes [set_micro 0, \<lambda>k. complete_list_transaction (current_task k) k, set_tx_op InvalidTx]"

definition invalidate :: "(kernel, unit) prog" where
  "invalidate = writes [set_micro 0, set_tx_op InvalidTx]"

text \<open>A recovery starts from the opcode and the old length in the log; the node pointer it needs
  is unwrapped without a check.\<close>

definition with_log_entry :: "(ListOpCode \<Rightarrow> usize \<Rightarrow> (kernel, 'a) prog) \<Rightarrow> (kernel, 'a) prog" where
  "with_log_entry f = Read (\<lambda>k. case get_micro_op (lmicro (k_lists k)) of
     None \<Rightarrow> Fail Undefined
   | Some c \<Rightarrow> f c (get_old_len (lmicro (k_lists k))))"

definition unwrap_unchecked :: "'b option \<Rightarrow> ('b \<Rightarrow> ('s, 'a) prog) \<Rightarrow> ('s, 'a) prog" where
  "unwrap_unchecked p f = (case p of None \<Rightarrow> Fail Undefined | Some a \<Rightarrow> f a)"

definition task_at :: "addr \<Rightarrow> kernel \<Rightarrow> tid" where
  "task_at a k = item_task (lvalue (k_lists k) a)"

lemmas log_setters = set_tx_op_def set_block_node_ptr_def set_task_ptr_def set_wait_list_ptr_def
  set_micro_def set_micro_op_old_len_def

section \<open>Waking the first waiter\<close>

definition roll_forward_pop_remove_from_waitlist :: "addr \<Rightarrow> (kernel, unit) prog" where
  "roll_forward_pop_remove_from_waitlist wl = Read (\<lambda>k.
     if list_tx_done (tasks k (current_task k)) then Halt
     else Write (set_block_node_ptr (lhead (k_lists k) wl))
         (Write (set_tx_op WaitListPopRemoval)
         (seq (bind (on_lists (optimized_pop_front wl)) (\<lambda>r. case r of
                  None \<Rightarrow> Halt
                | Some n \<Rightarrow> Read (\<lambda>k. let t = task_at n k in
                    seq (remove_from_delayed_list t) (add_to_ready_list t))))
              commit)))"

definition recover_and_roll_forward_of_waitlist_pop_remove :: "(kernel, unit) prog" where
  "recover_and_roll_forward_of_waitlist_pop_remove = with_log_entry (\<lambda>opc old_len.
     Read (\<lambda>k. unwrap_unchecked (log_block_node k) (\<lambda>n.
       let t = task_at n k in
       seq (case opc of
          PopFront \<Rightarrow> seq
            (case lowner (k_lists k) n of
               None \<Rightarrow> Halt
             | Some l \<Rightarrow> on_lists (recover_from_failed_pop_front l n old_len))
            (seq (remove_from_delayed_list t) (add_to_ready_list t))
        | RemoveOp \<Rightarrow> seq
            (on_lists (recover_from_failed_remove DELAYED_TASK_LIST (sched_node t) old_len))
            (add_to_ready_list t)
        | InsertBeforeCursor \<Rightarrow> seq
            (with_sched_list t (\<lambda>l. on_lists
              (recover_from_failed_insert_before_cursor l (sched_node t) old_len)))
            (writes [set_status t Ready])
        | InvalidOp \<Rightarrow> Halt
        | _ \<Rightarrow> Fail Panic)
       commit)))"

section \<open>Waking a given waiter of an event group\<close>

definition roll_forward_remove_from_unsorted_waitlist :: "addr \<Rightarrow> addr \<Rightarrow> (kernel, unit) prog" where
  "roll_forward_remove_from_unsorted_waitlist wl n =
     Write (set_block_node_ptr (Some n))
    (Write (set_tx_op WaitListRemoval)
    (seq (on_lists (optimized_remove wl n))
    (Read (\<lambda>k. let t = task_at n k in
       seq (remove_from_delayed_list t) (seq (add_to_ready_list t) invalidate)))))"

definition recover_and_roll_forward_of_unsorted_waitlist_remove :: "(kernel, unit) prog" where
  "recover_and_roll_forward_of_unsorted_waitlist_remove = with_log_entry (\<lambda>opc old_len.
     Read (\<lambda>k. unwrap_unchecked (log_block_node k) (\<lambda>n.
       let t = task_at n k in
       seq (case opc of
          RemoveOp \<Rightarrow> (case lowner (k_lists k) n of
             None \<Rightarrow> seq
               (on_lists (recover_from_failed_remove DELAYED_TASK_LIST (sched_node t) old_len))
               (add_to_ready_list t)
           | Some l \<Rightarrow> seq (on_lists (recover_from_failed_remove l n old_len))
               (seq (remove_from_delayed_list t) (add_to_ready_list t)))
        | InsertBeforeCursor \<Rightarrow> seq
            (with_sched_list t (\<lambda>l. on_lists
              (recover_from_failed_insert_before_cursor l (sched_node t) old_len)))
            (writes [set_status t Ready])
        | InvalidOp \<Rightarrow> Halt
        | _ \<Rightarrow> Fail Panic)
       invalidate)))"

section \<open>Blocking a task on a wait list\<close>

definition roll_forward_insert_into_waitlist :: "addr \<Rightarrow> tid \<Rightarrow> (kernel, unit) prog" where
  "roll_forward_insert_into_waitlist wl t =
     Write (set_wait_list_ptr (Some wl))
    (Write (set_tx_op WaitListInsert)
    (seq (remove_from_ready_list t)
    (seq (waitlist_insert wl t)
    (seq (add_to_delayed_list t) invalidate))))"

definition atomic_roll_forward_insert_into_waitlist ::
  "addr \<Rightarrow> tid \<Rightarrow> time \<Rightarrow> (kernel, unit) prog" where
  "atomic_roll_forward_insert_into_waitlist wl t w =
     Write (set_wakeup_time t w) (roll_forward_insert_into_waitlist wl t)"

definition roll_forward_insert_into_unsorted_waitlist :: "addr \<Rightarrow> tid \<Rightarrow> (kernel, unit) prog" where
  "roll_forward_insert_into_unsorted_waitlist wl t =
     Write (set_wait_list_ptr (Some wl))
    (Write (set_tx_op UnsortedWaitListInsert)
    (seq (remove_from_ready_list t)
    (seq (on_lists (optimized_insert_front wl (event_node t)))
    (seq (add_to_delayed_list t) invalidate))))"

definition recover_and_roll_forward_of_waitlist_insert :: "(kernel, unit) prog" where
  "recover_and_roll_forward_of_waitlist_insert = with_log_entry (\<lambda>opc old_len.
     Read (\<lambda>k. unwrap_unchecked (log_wait_list k) (\<lambda>wl.
       let t = current_task k in
       seq (case opc of
          RemoveOp \<Rightarrow> seq
            (with_sched_list t (\<lambda>l. on_lists (recover_from_failed_remove l (sched_node t) old_len)))
            (seq (waitlist_insert wl t) (add_to_delayed_list t))
        | InsertSortedWaitList \<Rightarrow> seq
            (on_lists (recover_from_failed_insert_sorted (blocked_gt (prio_of k)) wl (event_node t)
               old_len))
            (add_to_delayed_list t)
        | InsertSortedDelayList \<Rightarrow> seq
            (on_lists (recover_from_failed_insert_sorted sched_gt DELAYED_TASK_LIST (sched_node t)
               old_len))
            (writes [set_status t Blocked])
        | InvalidOp \<Rightarrow> Halt
        | _ \<Rightarrow> Fail Panic)
       invalidate)))"

definition recover_and_roll_forward_of_unsorted_waitlist_insert :: "(kernel, unit) prog" where
  "recover_and_roll_forward_of_unsorted_waitlist_insert = with_log_entry (\<lambda>opc old_len.
     Read (\<lambda>k. unwrap_unchecked (log_wait_list k) (\<lambda>wl.
       let t = current_task k in
       seq (case opc of
          RemoveOp \<Rightarrow> seq
            (with_sched_list t (\<lambda>l. on_lists (recover_from_failed_remove l (sched_node t) old_len)))
            (seq (waitlist_insert wl t) (add_to_delayed_list t))
        | InsertFront \<Rightarrow> seq
            (on_lists (recover_from_failed_insert_front wl (event_node t) old_len))
            (add_to_delayed_list t)
        | InsertSortedDelayList \<Rightarrow> seq
            (on_lists (recover_from_failed_insert_sorted sched_gt DELAYED_TASK_LIST (sched_node t)
               old_len))
            (writes [set_status t Blocked])
        | InvalidOp \<Rightarrow> Halt
        | _ \<Rightarrow> Fail Panic)
       invalidate)))"

section \<open>The delay list\<close>

definition roll_forward_remove_from_delaylist :: "(kernel, unit) prog" where
  "roll_forward_remove_from_delaylist =
     Write (set_tx_op DelayListRemoval)
    (bind (on_lists (optimized_pop_front DELAYED_TASK_LIST)) (\<lambda>r. unwrap_unchecked r (\<lambda>n.
       Read (\<lambda>k. let t = task_at n k in
         seq (case lowner (k_lists k) (event_node t) of
            None \<Rightarrow> Halt
          | Some wl \<Rightarrow> on_lists (optimized_remove wl (event_node t)))
         (seq (add_to_ready_list t) invalidate)))))"

definition recover_and_roll_forward_of_delaylist_removal :: "(kernel, unit) prog" where
  "recover_and_roll_forward_of_delaylist_removal = with_log_entry (\<lambda>opc old_len.
     Read (\<lambda>k. unwrap_unchecked (log_block_node k) (\<lambda>n.
       let t = task_at n k in
       seq (case opc of
          PopFront \<Rightarrow> seq
            (case lowner (k_lists k) n of
               None \<Rightarrow> Halt
             | Some l \<Rightarrow> on_lists (recover_from_failed_pop_front l n old_len))
            (Read (\<lambda>k. seq (case lowner (k_lists k) (event_node t) of
                 None \<Rightarrow> Halt
               | Some wl \<Rightarrow> on_lists (optimized_remove wl (event_node t)))
              (add_to_ready_list t)))
        | RemoveOp \<Rightarrow> unwrap_unchecked (lowner (k_lists k) (event_node t)) (\<lambda>wl. seq
            (on_lists (recover_from_failed_remove wl (event_node t) old_len))
            (add_to_ready_list t))
        | InsertBeforeCursor \<Rightarrow> seq
            (with_sched_list t (\<lambda>l. on_lists
              (recover_from_failed_insert_before_cursor l (sched_node t) old_len)))
            (writes [set_status t Ready])
        | InvalidOp \<Rightarrow> Halt
        | _ \<Rightarrow> Fail Panic)
       invalidate)))"

definition roll_forward_insert_into_delaylist :: "(kernel, unit) prog" where
  "roll_forward_insert_into_delaylist = Read (\<lambda>k.
     if list_tx_done (tasks k (current_task k)) then Halt
     else Write (set_tx_op DelayListInsert)
       (let t = current_task k in
        seq (remove_from_ready_list t) (seq (add_to_delayed_list t) commit)))"

definition recover_and_roll_forward_of_delaylist_insert :: "(kernel, unit) prog" where
  "recover_and_roll_forward_of_delaylist_insert = with_log_entry (\<lambda>opc old_len.
     Read (\<lambda>k. let t = current_task k in
       seq (case opc of
          RemoveOp \<Rightarrow> seq
            (with_sched_list t (\<lambda>l. on_lists (recover_from_failed_remove l (sched_node t) old_len)))
            (add_to_delayed_list t)
        | InsertSortedDelayList \<Rightarrow> seq
            (on_lists (recover_from_failed_insert_sorted sched_gt DELAYED_TASK_LIST (sched_node t)
               old_len))
            (writes [set_status t Blocked])
        | InvalidOp \<Rightarrow> Halt
        | _ \<Rightarrow> Fail Panic)
       commit))"

section \<open>The ready lists\<close>

definition roll_forward_insert_into_readylist :: "tid \<Rightarrow> (kernel, unit) prog" where
  "roll_forward_insert_into_readylist t =
     Write (set_task_ptr (Some t))
    (Write (set_tx_op ReadyListInsert)
    (seq (add_to_ready_list t) invalidate))"

definition recover_and_roll_forward_of_readylist_insert :: "(kernel, unit) prog" where
  "recover_and_roll_forward_of_readylist_insert = with_log_entry (\<lambda>opc old_len.
     Read (\<lambda>k. unwrap_unchecked (log_task k) (\<lambda>t.
       seq (case opc of
          InsertBeforeCursor \<Rightarrow> seq
            (with_sched_list t (\<lambda>l. on_lists
              (recover_from_failed_insert_before_cursor l (sched_node t) old_len)))
            (writes [set_status t Ready])
        | InvalidOp \<Rightarrow> Halt
        | _ \<Rightarrow> Fail Panic)
       commit)))"

definition store_current :: "tid \<Rightarrow> kernel \<Rightarrow> kernel" where
  "store_current t k = k\<lparr>current_task := t\<rparr>"

definition atomic_roll_foward_context_switch :: "tid \<Rightarrow> tid \<Rightarrow> addr \<Rightarrow> (kernel, unit) prog" where
  "atomic_roll_foward_context_switch t prev l =
     Write (set_task_ptr (Some prev))
    (Write (set_micro_op_old_len ReadyListNextOp 0)
    (Write (set_status t Running)
    (Read (\<lambda>k. seq (if status (tasks k prev) \<noteq> Blocked then writes [set_status prev Ready] else Halt)
    (seq (on_lists (plist_next l))
    (writes [store_current t, set_micro_op_old_len InvalidOp 0]))))))"

definition recover_and_roll_forward_context_switch :: "(kernel, unit) prog" where
  "recover_and_roll_forward_context_switch = with_log_entry (\<lambda>opc old_len. case opc of
     ReadyListNextOp \<Rightarrow> Read (\<lambda>k. case log_task k of
       None \<Rightarrow> Fail Panic
     | Some prev \<Rightarrow> with_sched_list prev (\<lambda>l. Read (\<lambda>k. case plist_cursor l (k_lists k) of
         None \<Rightarrow> Fail Panic
       | Some c \<Rightarrow> seq
           (if item_task c = prev then Write (set_status prev Ready)
              (bind (on_lists (plist_next l)) (\<lambda>r. case r of
                 None \<Rightarrow> Fail Panic
               | Some i \<Rightarrow> writes [set_status (item_task i) Running, store_current (item_task i)]))
            else writes [set_status (item_task c) Running, store_current (item_task c)])
           (writes [set_micro_op_old_len InvalidOp 0]))))
   | InvalidOp \<Rightarrow> Halt
   | _ \<Rightarrow> Fail Panic)"

section \<open>The dispatcher of the reboot\<close>

definition recover_list_transaction :: "(kernel, unit) prog" where
  "recover_list_transaction = seq
     (Read (\<lambda>k. case log_op k of
        InvalidTx \<Rightarrow> Halt
      | WaitListPopRemoval \<Rightarrow> recover_and_roll_forward_of_waitlist_pop_remove
      | WaitListInsert \<Rightarrow> recover_and_roll_forward_of_waitlist_insert
      | WaitListRemoval \<Rightarrow> recover_and_roll_forward_of_unsorted_waitlist_remove
      | UnsortedWaitListInsert \<Rightarrow> recover_and_roll_forward_of_unsorted_waitlist_insert
      | DelayListRemoval \<Rightarrow> recover_and_roll_forward_of_delaylist_removal
      | DelayListInsert \<Rightarrow> recover_and_roll_forward_of_delaylist_insert
      | ReadyListInsert \<Rightarrow> recover_and_roll_forward_of_readylist_insert
      | _ \<Rightarrow> Fail Panic))
     recover_and_roll_forward_context_switch"

section \<open>What the transactions do when nothing fails\<close>

lemmas tx_simps = exec_seq exec_bind commit_def invalidate_def prog_simps log_setters task_setters unwrap_unchecked_def

lemma delay_current_refines:
  assumes "sched_rel k A" "current_task k = t" "\<not> list_tx_done (tasks k t)"
    and "unat (prio_value (prio_of k t)) = p" "p < 8" "t \<in> set (ready A p)" "length (delayed A) < 4095"
  shows "\<exists>k'. exec roll_forward_insert_into_delaylist k = Inr ((), k') \<and>
    sched_rel k' (A\<lparr>ready := (ready A)(p := remove1 t (ready A p)),
      delayed := insert_at (wakes_later k t) t (delayed A)\<rparr>) \<and>
    status (tasks k' t) = Blocked \<and> list_tx_done (tasks k' t) \<and>
    next_unblock_time k' = min (next_unblock_time k) (get_wakeup_time k t) \<and> log_op k' = InvalidTx"
proof -
  let ?k = "set_tx_op DelayListInsert k"
  have r: "sched_rel ?k A" "unat (prio_value (prio_of ?k t)) = p"
    using assms by (simp_all add: set_tx_op_def prio_of_def)
  obtain m1 where m1: "exec (remove_from_ready_list t) ?k = Inr ((), ?k\<lparr>k_lists := m1\<rparr>)"
    "only_list p (k_lists ?k) m1" "lowner m1 (sched_node t) = None"
    "lists_rel m1 (A\<lparr>ready := (ready A)(p := remove1 t (ready A p))\<rparr>)"
    using step_remove_ready [OF r assms(5,6)] by auto
  have w: "wakes_later (?k\<lparr>k_lists := m1\<rparr>) t = wakes_later k t"
     "get_wakeup_time (?k\<lparr>k_lists := m1\<rparr>) t = get_wakeup_time k t"
    using m1(2) by (simp_all add: wakes_later_def [abs_def] get_wakeup_time_def [abs_def] only_list_def set_tx_op_def)
  from step_add_delayed [of "?k\<lparr>k_lists := m1\<rparr>" "A\<lparr>ready := (ready A)(p := remove1 t (ready A p))\<rparr>" t] 
    m1(3,4) assms(7) w show ?thesis
    using m1(1) assms(2,3)
    by (auto simp: roll_forward_insert_into_delaylist_def tx_simps)
qed

lemma block_on_waitlist_refines:
  assumes "sched_rel k A" "unat (prio_value (prio_of k t)) = p" "p < 8" "t \<in> set (ready A p)" 
    and "8 < w" "lowner (k_lists k) (event_node t) = None" "length (waiting A w) < 4095" "length (delayed A) < 4095"
  shows "\<exists>k'. exec (roll_forward_insert_into_waitlist w t) k = Inr ((), k') \<and>
    sched_rel k' (A\<lparr>ready := (ready A)(p := remove1 t (ready A p)),
      waiting := (waiting A)(w := insert_at (\<lambda>u. prio_gt (prio_of k t) (prio_of k u)) t (waiting A w)),
      delayed := insert_at (wakes_later k t) t (delayed A)\<rparr>) \<and>
    status (tasks k' t) = Blocked \<and>
    next_unblock_time k' = min (next_unblock_time k) (get_wakeup_time k t) \<and> log_op k' = InvalidTx"
proof -
  let ?k = "set_tx_op WaitListInsert (set_wait_list_ptr (Some w) k)"
  let ?A1 = "A\<lparr>ready := (ready A)(p := remove1 t (ready A p))\<rparr>"
  let ?A2 = "?A1\<lparr>waiting := (waiting A)(w := insert_at (\<lambda>u. prio_gt (prio_of k t) (prio_of k u)) t (waiting A w))\<rparr>"
  have r: "sched_rel ?k A" "unat (prio_value (prio_of ?k t)) = p"
    using assms by (simp_all add: log_setters prio_of_def)
  obtain m1 where m1: "exec (remove_from_ready_list t) ?k = Inr ((), ?k\<lparr>k_lists := m1\<rparr>)"
    "only_list p (k_lists k) m1" "lowner m1 (sched_node t) = None" "lists_rel m1 ?A1"
    using step_remove_ready [OF r assms(3,4)] by (auto simp: log_setters)
  have ev: "lowner m1 (event_node t) = None"
  proof (cases "lowner m1 (event_node t)")
    case (Some l)
    then have "8 < l" using event_node_owner(1) [OF m1(4)] by auto
    then show ?thesis using m1(2) assms(3,6) Some by (auto simp: only_list_def)
  qed
  have pr: "prio_of (?k\<lparr>k_lists := m1\<rparr>) = prio_of k" by (simp add: prio_of_def [abs_def] log_setters)
  obtain m2 where m2: "exec (waitlist_insert w t) (?k\<lparr>k_lists := m1\<rparr>) = Inr ((), ?k\<lparr>k_lists := m2\<rparr>)"
    "only_list w m1 m2" "lists_rel m2 ?A2"
    using step_waitlist_insert [of "?k\<lparr>k_lists := m1\<rparr>" ?A1 w t] m1(4) assms(5,7) ev pr by auto
  have sn: "lowner m2 (sched_node t) = None"
  proof (cases "lowner m2 (sched_node t)")
    case (Some l)
    then have "l \<le> 8" using sched_node_owner [OF m2(3)] by auto
    then show ?thesis using m2(2) assms(5) m1(3) Some by (auto simp: only_list_def)
  qed
  have w: "wakes_later (?k\<lparr>k_lists := m2\<rparr>) t = wakes_later k t"
     "get_wakeup_time (?k\<lparr>k_lists := m2\<rparr>) t = get_wakeup_time k t"
    using m1(2) m2(2) by (simp_all add: wakes_later_def [abs_def] get_wakeup_time_def [abs_def] only_list_def)
  from step_add_delayed [of "?k\<lparr>k_lists := m2\<rparr>" ?A2 t] m2(3) sn assms(8) w show ?thesis
    using m1(1) m2(1) by (auto simp: roll_forward_insert_into_waitlist_def tx_simps)
qed

lemma wake_first_waiter_refines:
  assumes "sched_rel k A" "\<not> list_tx_done (tasks k (current_task k))" "8 < w" "waiting A w = t # ts" "t \<in> set (delayed A)"
    and "unat (prio_value (prio_of k t)) = p" "p < 8" "length (ready A p) < 4095"
  shows "\<exists>k'. exec (roll_forward_pop_remove_from_waitlist w) k = Inr ((), k') \<and>
    sched_rel k' (A\<lparr>waiting := (waiting A)(w := ts), delayed := remove1 t (delayed A),
      ready := (ready A)(p := ready A p @ [t])\<rparr>) \<and>
    status (tasks k' t) = Ready \<and> list_tx_done (tasks k' (current_task k)) \<and> log_op k' = InvalidTx"
proof -
  let ?k = "set_tx_op WaitListPopRemoval (set_block_node_ptr (lhead (k_lists k) w) k)"
  let ?A1 = "A\<lparr>waiting := (waiting A)(w := ts)\<rparr>"
  let ?A2 = "?A1\<lparr>delayed := remove1 t (delayed A)\<rparr>"
  obtain m1 where m1: "exec (on_lists (optimized_pop_front w)) ?k = Inr (Some (event_node t), ?k\<lparr>k_lists := m1\<rparr>)"
    "lists_rel m1 ?A1"
    using step_waitlist_pop [of ?k A w t ts] assms(1,3,4) by (auto simp: log_setters)
  obtain m2 where m2: "exec (remove_from_delayed_list t) (?k\<lparr>k_lists := m1\<rparr>) = Inr ((), ?k\<lparr>k_lists := m2\<rparr>)"
    "lowner m2 (sched_node t) = None" "lists_rel m2 ?A2"
    using step_remove_delayed [of "?k\<lparr>k_lists := m1\<rparr>" ?A1 t] m1(2) assms(5) by auto
  have "task_at (event_node t) (?k\<lparr>k_lists := m1\<rparr>) = t"
    using own_items_task(2) [of m1 t] m1(2) by (simp add: task_at_def lists_rel_def)
  moreover have "unat (prio_value (prio_of (?k\<lparr>k_lists := m2\<rparr>) t)) = p"
    using assms(6) by (simp add: prio_of_def log_setters)
  ultimately show ?thesis
    using step_add_ready [of "?k\<lparr>k_lists := m2\<rparr>" ?A2 t p] m1(1) m2 assms(2,7,8)
    by (auto simp: roll_forward_pop_remove_from_waitlist_def tx_simps)
qed

lemma lists_rel_waiting_cong:
  assumes "lists_rel m (A\<lparr>waiting := W\<rparr>)" "\<And>w. w > 8 \<Longrightarrow> W' w = W w"
  shows "lists_rel m (A\<lparr>waiting := W'\<rparr>)"
  using assms by (simp add: lists_rel_def)

lemma wake_delayed_refines:
  assumes "sched_rel k A" "delayed A = t # ts"
    and "unat (prio_value (prio_of k t)) = p" "p < 8" "length (ready A p) < 4095"
  shows "\<exists>k'. exec roll_forward_remove_from_delaylist k = Inr ((), k') \<and>
    sched_rel k' (A\<lparr>delayed := ts, waiting := \<lambda>w. remove1 t (waiting A w),
      ready := (ready A)(p := ready A p @ [t])\<rparr>) \<and>
    status (tasks k' t) = Ready \<and> log_op k' = InvalidTx \<and>
    tick_counter k' = tick_counter k \<and> next_unblock_time k' = next_unblock_time k \<and>
    lvalue (k_lists k') = lvalue (k_lists k) \<and> prio_of k' = prio_of k \<and> current_task k' = current_task k"
proof -
  let ?k = "set_tx_op DelayListRemoval k"
  let ?A1 = "A\<lparr>delayed := ts\<rparr>"
  obtain m1 where m1: "exec (on_lists (optimized_pop_front 8)) ?k =
      Inr (Some (sched_node t), ?k\<lparr>k_lists := m1\<rparr>)"
    "only_list 8 (k_lists k) m1" "lowner m1 (sched_node t) = None" "lists_rel m1 ?A1"
    using step_delayed_pop [of ?k A t ts] assms(1,2) by (auto simp: log_setters)
  have tk: "task_at (sched_node t) (?k\<lparr>k_lists := m1\<rparr>) = t"
    using own_items_task(1) [of m1 t] m1(4) by (simp add: task_at_def lists_rel_def)
  let ?rm = "case lowner m1 (event_node t) of None \<Rightarrow> Halt
    | Some wl \<Rightarrow> on_lists (optimized_remove wl (event_node t))"
  obtain m2 where m2: "exec ?rm (?k\<lparr>k_lists := m1\<rparr>) = Inr ((), ?k\<lparr>k_lists := m2\<rparr>)"
    "lowner m2 (sched_node t) = None" "lvalue m2 = lvalue m1"
    "lists_rel m2 (?A1\<lparr>waiting := \<lambda>w. remove1 t (waiting A w)\<rparr>)"
  proof (cases "lowner m1 (event_node t)")
    case None
    then have "\<And>w. w > 8 \<Longrightarrow> t \<notin> set (waiting A w)"
      using lists_rel_owner(3) [OF m1(4), of _ "event_node t"] by auto
    then have "lists_rel m1 (?A1\<lparr>waiting := \<lambda>w. remove1 t (waiting A w)\<rparr>)"
      using lists_rel_waiting_cong [of m1 "waiting A" ?A1 "\<lambda>w. remove1 t (waiting A w)"] m1(4)
      by (simp add: remove1_idem)
    then show ?thesis using that [of m1] None m1(3) by simp
  next
    case (Some l)
    have l: "8 < l" "t \<in> set (waiting ?A1 l)" using event_node_owner [OF m1(4) Some] by auto
    obtain m2 where m2: "exec (on_lists (optimized_remove l (event_node t))) (?k\<lparr>k_lists := m1\<rparr>) =
        Inr ((), ?k\<lparr>k_lists := m2\<rparr>)" "only_list l m1 m2"
      "lists_rel m2 (?A1\<lparr>waiting := (waiting A)(l := remove1 t (waiting A l))\<rparr>)"
      using step_waitlist_remove [of "?k\<lparr>k_lists := m1\<rparr>" ?A1 l t] m1(4) l by auto
    have "w > 8 \<Longrightarrow> w \<noteq> l \<Longrightarrow> t \<notin> set (waiting A w)" for w
      using lists_rel_owner(3) [OF m1(4), of w "event_node t"] Some by auto
    then have "lists_rel m2 (?A1\<lparr>waiting := \<lambda>w. remove1 t (waiting A w)\<rparr>)"
      by (intro lists_rel_waiting_cong [OF m2(3)]) (auto simp: remove1_idem)
    moreover have "lowner m2 (sched_node t) = None"
    proof (cases "lowner m2 (sched_node t)")
      case s: (Some l')
      then have "l' \<le> 8" using sched_node_owner [OF m2(3)] by auto
      then show ?thesis using m2(2) m1(3) s l(1) by (auto simp: only_list_def)
    qed
    ultimately show ?thesis using that [of m2] m2 Some by (simp add: only_list_def)
  qed
  have "unat (prio_value (prio_of (?k\<lparr>k_lists := m2\<rparr>) t)) = p"
    using assms(3) by (simp add: prio_of_def log_setters)
  from step_add_ready [OF _ this, of "A\<lparr>delayed := ts, waiting := \<lambda>w. remove1 t (waiting A w)\<rparr>"]
    m2(2,4) assms(4,5)
  obtain m3 where m3: "exec (add_to_ready_list t) (?k\<lparr>k_lists := m2\<rparr>) =
      Inr ((), set_status t Ready (?k\<lparr>k_lists := m3\<rparr>))" "only_list p m2 m3"
    "lists_rel m3 (A\<lparr>delayed := ts, waiting := \<lambda>w. remove1 t (waiting A w),
       ready := (ready A)(p := ready A p @ [t])\<rparr>)"
    by auto
  moreover have "lvalue m3 = lvalue (k_lists k)"
    using m1(2) m2(3) m3(2) by (simp add: only_list_def)
  ultimately show ?thesis
    using m1(1) m2(1) tk
    by (auto simp: roll_forward_remove_from_delaylist_def DELAYED_TASK_LIST_def tx_simps Let_def
      prio_of_def [abs_def] cong: option.case_cong)
qed

lemma make_ready_refines:
  assumes "sched_rel k A" "lowner (k_lists k) (sched_node t) = None"
    and "unat (prio_value (prio_of k t)) = p" "p < 8" "length (ready A p) < 4095"
  shows "\<exists>k'. exec (roll_forward_insert_into_readylist t) k = Inr ((), k') \<and>
    sched_rel k' (A\<lparr>ready := (ready A)(p := ready A p @ [t])\<rparr>) \<and>
    status (tasks k' t) = Ready \<and> log_op k' = InvalidTx"
proof -
  let ?k = "set_tx_op ReadyListInsert (set_task_ptr (Some t) k)"
  have "sched_rel ?k A" "unat (prio_value (prio_of ?k t)) = p" "lowner (k_lists ?k) (sched_node t) = None"
    using assms by (simp_all add: log_setters prio_of_def)
  from step_add_ready [OF this(1,2) assms(4) this(3) assms(5)] show ?thesis
    by (auto simp: roll_forward_insert_into_readylist_def tx_simps)
qed

lemma context_switch_refines:
  assumes "sched_rel k A" "p < 8" "ready A p = c # cs" "t = hd (cs @ [c])" "t \<noteq> prev"
  shows "\<exists>k'. exec (atomic_roll_foward_context_switch t prev p) k = Inr ((), k') \<and>
    sched_rel k' (A\<lparr>ready := (ready A)(p := cs @ [c])\<rparr>) \<and> current_task k' = t \<and>
    status (tasks k' t) = Running \<and>
    status (tasks k' prev) = (if status (tasks k prev) = Blocked then Blocked else Ready) \<and>
    (\<forall>u. u \<noteq> t \<longrightarrow> u \<noteq> prev \<longrightarrow> tasks k' u = tasks k u)"
proof -
  let ?w = "micro_op_old_len ReadyListNextOp 0"
  have "circular (k_lists k) p (map sched_node (c # cs))"
    using assms unfolding lists_rel_def by metis
  then have "circular ((k_lists k)\<lparr>lmicro := ?w\<rparr>) p (sched_node c # map sched_node cs)"
    by (simp add: circular_def)
  from plist_next_circular [OF this] obtain m v where
    m: "exec (plist_next p) ((k_lists k)\<lparr>lmicro := ?w\<rparr>) = Inr (v, m)"
    "circular m p (map sched_node (cs @ [c]))" "only_list p (k_lists k) m"
    by (auto simp: only_list_def)
  have "lists_rel m (A\<lparr>ready := (ready A)(p := cs @ [c])\<rparr>)"
    by (rule lists_rel_ready [OF assms(1) m(3) assms(2) m(2)])
  then show ?thesis using m(1) assms(5)
    by (auto simp: atomic_roll_foward_context_switch_def tx_simps exec_on_lists store_current_def)
qed

end
