(* ===== verification/ListTxCrash.thy ===== *)
theory ListTxCrash
  imports ListTx
begin

text \<open>
  Crash consistency of the list transaction behind \<open>task_delay\<close>: the current task leaves its
  ready list and enters the delay list. Every memory content the transaction and its recovery
  go through is listed; from each of them \<open>recover_list_transaction\<close> ends in the state the
  uninterrupted transaction reaches. The pieces are the crash lemmas of the two list operations,
  glued together at the level of the kernel state.
\<close>

lemma recovers_on_lists:
  assumes "recovers p m' ms (k_lists k)" "\<And>x. x \<in> set ms \<Longrightarrow> k\<lparr>k_lists := x\<rparr> \<in> set ss"
  shows "recovers (on_lists p) (k\<lparr>k_lists := m'\<rparr>) ss k"
  using assms by (auto simp: recovers_def exec_on_lists states_on_lists)

lemma with_log_entry_recovers:
  assumes "lmicro (k_lists k) = micro_op_old_len c old" "old < 4096" "recovers (f c old) k' ss k"
  shows "recovers (with_log_entry f) k' ss k"
  using assms micro_log_roundtrip [OF assms(2), of c]
  by (simp add: with_log_entry_def recovers_Read)

section \<open>The states of the transaction\<close>

definition delay_pre :: "kernel \<Rightarrow> tid \<Rightarrow> addr \<Rightarrow> sched \<Rightarrow> bool" where
  "delay_pre k t p A \<longleftrightarrow> sched_rel k A \<and> current_task k = t \<and> \<not> list_tx_done (tasks k t) \<and>
     unat (prio_value (prio_of k t)) = p \<and> p < 8 \<and> t \<in> set (ready A p) \<and> length (ready A p) \<noteq> 1 \<and>
     length (delayed A) < 4095 \<and> next_unblock_time k \<le> get_wakeup_time k t"

abbreviation delay_removed :: "kernel \<Rightarrow> tid \<Rightarrow> addr \<Rightarrow> item lmem" where
  "delay_removed k t p \<equiv> final (optimized_remove p (sched_node t)) (k_lists k)"

abbreviation delay_inserted :: "kernel \<Rightarrow> tid \<Rightarrow> addr \<Rightarrow> item lmem" where
  "delay_inserted k t p \<equiv>
     final (sorted_insert InsertSortedDelayList sched_gt 8 (sched_node t)) (delay_removed k t p)"

definition delay_open :: "kernel \<Rightarrow> kernel" where
  "delay_open k = set_tx_op DelayListInsert k"

definition delay_blocked :: "kernel \<Rightarrow> tid \<Rightarrow> kernel" where
  "delay_blocked k t = set_status t Blocked (delay_open k)"

definition delay_commit :: "kernel \<Rightarrow> tid \<Rightarrow> addr \<Rightarrow> kernel list" where
  "delay_commit k t p = (let c1 = (delay_blocked k t)\<lparr>k_lists := (delay_inserted k t p)\<lparr>lmicro := 0\<rparr>\<rparr>;
     c2 = complete_list_transaction t c1 in [c1, c2, set_tx_op InvalidTx c2])"

definition delay_states :: "kernel \<Rightarrow> tid \<Rightarrow> addr \<Rightarrow> kernel list" where
  "delay_states k t p = (let rs = remove_states p (sched_node t) (k_lists k) in
     map (\<lambda>m. (delay_open k)\<lparr>k_lists := m\<rparr>) rs @
     map (\<lambda>m. (delay_blocked k t)\<lparr>k_lists := m\<rparr>)
       (rs @ sorted_states InsertSortedDelayList sched_gt 8 (sched_node t) (delay_removed k t p)) @
     delay_commit k t p)"

abbreviation delay_final :: "kernel \<Rightarrow> tid \<Rightarrow> addr \<Rightarrow> kernel" where
  "delay_final k t p \<equiv> last (delay_commit k t p)"

section \<open>The facts about the two list operations\<close>

lemma delay_facts:
  assumes "delay_pre k t p A"
  shows "removable (k_lists k) p (sched_node t) (map sched_node (ready A p))"
    and "exec (optimized_remove p (sched_node t)) (k_lists k) = Inr ((), delay_removed k t p)"
    and "lvalue (delay_removed k t p) = lvalue (k_lists k)"
    and "linear (delay_removed k t p) 8 (map sched_node (delayed A))"
    and "lowner (delay_removed k t p) (sched_node t) = None"
    and "exec (sorted_insert InsertSortedDelayList sched_gt 8 (sched_node t)) (delay_removed k t p) =
      Inr ((), delay_inserted k t p)"
    and "lvalue (delay_inserted k t p) = lvalue (k_lists k)"
    and "llen (k_lists k) p < 4096" "llen (delay_removed k t p) 8 < 4096"
proof -
  have circ: "circular (k_lists k) p (map sched_node (ready A p))" and t: "t \<in> set (ready A p)" "p < 8"
    and rel: "sched_rel k A" and one: "length (ready A p) \<noteq> 1"
    using assms by (auto simp: delay_pre_def lists_rel_def)
  show "removable (k_lists k) p (sched_node t) (map sched_node (ready A p))"
    using circ t one by (auto simp: removable_def)
  obtain as bs where s: "ready A p = as @ t # bs" using t split_list by metis
  have "circular (k_lists k) p (map sched_node as @ sched_node t # map sched_node bs)"
    using circ s by simp
  from optimized_remove_circular [OF this] obtain m where
    m: "exec (optimized_remove p (sched_node t)) (k_lists k) = Inr ((), m)"
    "lowner m (sched_node t) = None" "only_list p (k_lists k) m"
    by auto
  have mA: "delay_removed k t p = m" using m(1) by (rule exec_final)
  show "exec (optimized_remove p (sched_node t)) (k_lists k) = Inr ((), delay_removed k t p)"
    using m(1) mA by simp
  show v: "lvalue (delay_removed k t p) = lvalue (k_lists k)"
    using m(3) mA by (simp add: only_list_def)
  show lin: "linear (delay_removed k t p) 8 (map sched_node (delayed A))"
    using only_list_linear [OF m(3), of 8] rel t(2) mA by (simp add: lists_rel_def)
  show fresh: "lowner (delay_removed k t p) (sched_node t) = None" using m(2) mA by simp
  let ?m0 = "start_op_log InsertSortedDelayList 8 (delay_removed k t p)"
  have "linear ?m0 8 (map sched_node (delayed A))" "lowner ?m0 (sched_node t) = None"
    using lin fresh by (simp_all add: linear_def start_op_log_def)
  from optimized_insert_sorted_linear [OF this, of sched_gt] assms obtain m' where
    m': "exec (sorted_insert InsertSortedDelayList sched_gt 8 (sched_node t)) (delay_removed k t p) =
      Inr ((), m')" "only_list 8 ?m0 m'"
    by (auto simp: delay_pre_def sorted_insert_def)
  have mB: "delay_inserted k t p = m'" using m'(1) by (rule exec_final)
  show "exec (sorted_insert InsertSortedDelayList sched_gt 8 (sched_node t)) (delay_removed k t p) =
      Inr ((), delay_inserted k t p)"
    using m'(1) mB by simp
  show "lvalue (delay_inserted k t p) = lvalue (k_lists k)"
    using m'(2) mB v by (simp add: only_list_def start_op_log_def)
  have small: "x < 4096 \<Longrightarrow> (of_nat x :: usize) < 4096" for x
    by (simp add: word_less_nat_alt unat_of_nat take_bit_nat_eq_self)
  show "llen (k_lists k) p < 4096" using circ small [of "length (ready A p)"] by (simp add: circular_def)
  show "llen (delay_removed k t p) 8 < 4096" using lin small [of "length (delayed A)"] by (simp add: linear_def)
qed

lemma recovers_on_lists':
  assumes "recovers p m' ms m" "\<And>x. x \<in> set ms \<Longrightarrow> k\<lparr>k_lists := x\<rparr> \<in> set ss"
  shows "recovers (on_lists p) (k\<lparr>k_lists := m'\<rparr>) ss (k\<lparr>k_lists := m\<rparr>)"
  using recovers_on_lists [of p m' ms "k\<lparr>k_lists := m\<rparr>" ss] assms by simp

lemma delay_in_states:
  assumes "x \<in> set (remove_states p (sched_node t) (k_lists k))"
  shows "(delay_open k)\<lparr>k_lists := x\<rparr> \<in> set (delay_states k t p)"
    and "(delay_blocked k t)\<lparr>k_lists := x\<rparr> \<in> set (delay_states k t p)"
  using assms by (auto simp: delay_states_def Let_def simp del: One_nat_def)

lemma delay_in_states':
  assumes "x \<in> set (sorted_states InsertSortedDelayList sched_gt 8 (sched_node t) (delay_removed k t p))"
  shows "(delay_blocked k t)\<lparr>k_lists := x\<rparr> \<in> set (delay_states k t p)"
  using assms by (auto simp: delay_states_def Let_def simp del: One_nat_def)

lemma last_in_drop_states: "i \<le> nwrites p s \<Longrightarrow> final p s \<in> set (drop i (states p s))"
  using crash_in_drop [of i "nwrites p s" p s] by (simp add: crash_all)

lemma delay_removed_in: "delay_removed k t p \<in> set (remove_states p (sched_node t) (k_lists k))"
  by (rule last_in_drop_states) (simp add: optimized_remove_def prog_simps)

lemma delay_inserted_in: "delay_inserted k t p \<in> set (sorted_states InsertSortedDelayList sched_gt 8 (sched_node t) (delay_removed k t p))"
  by (rule last_in_drop_states) (simp add: sorted_insert_def prog_simps)

lemma delay_commit_eqs:
  assumes "delay_commit k t p = [c1, c2, c3]"
  shows "set_micro 0 ((delay_blocked k t)\<lparr>k_lists := delay_inserted k t p\<rparr>) = c1"
    and "set_micro 0 c1 = c1" "set_micro 0 c2 = c2"
    and "complete_list_transaction t c1 = c2" "complete_list_transaction t c2 = c2"
    and "set_tx_op InvalidTx c2 = c3" "current_task c1 = current_task k" "current_task c2 = current_task k"
  using assms
  by (auto simp: delay_commit_def Let_def log_setters task_setters delay_blocked_def delay_open_def)

lemma delay_commit_recovers:
  assumes "delay_pre k t p A"
    and "x = (delay_blocked k t)\<lparr>k_lists := delay_inserted k t p\<rparr> \<or> x \<in> set (butlast (delay_commit k t p))"
  shows "recovers commit (delay_final k t p) (delay_states k t p) x"
proof -
  obtain c1 c2 c3 where c: "delay_commit k t p = [c1, c2, c3]" by (simp add: delay_commit_def Let_def)
  note eqs = delay_commit_eqs [OF c]
  have cur: "current_task k = t" using assms(1) by (simp add: delay_pre_def)
  have s: "c1 \<in> set (delay_states k t p)" "c2 \<in> set (delay_states k t p)" "c3 \<in> set (delay_states k t p)"
    using c by (simp_all add: delay_states_def Let_def)
  have x: "x \<in> set (delay_states k t p)" and "x = (delay_blocked k t)\<lparr>k_lists := delay_inserted k t p\<rparr> \<or> x = c1 \<or> x = c2"
    using assms(2) c delay_in_states' [OF delay_inserted_in] s by auto
  then show ?thesis using s eqs cur c
    unfolding commit_def writes.simps
    by (elim disjE; intro recovers_intros; simp add: recovers_Return)
qed

lemma delay_insert_recovers:
  assumes "delay_pre k t p A" "x = delay_open k \<or> x = delay_blocked k t"
  shows "recovers (add_to_delayed_list t) ((delay_blocked k t)\<lparr>k_lists := delay_inserted k t p\<rparr>) 
     (delay_states k t p) (x\<lparr>k_lists := delay_removed k t p\<rparr>)"
proof -
  let ?b = "(delay_blocked k t)\<lparr>k_lists := delay_removed k t p\<rparr>"
  have x: "x\<lparr>k_lists := delay_removed k t p\<rparr> \<in> set (delay_states k t p)"
    "set_status t Blocked (x\<lparr>k_lists := delay_removed k t p\<rparr>) = ?b"
    using assms(2) delay_in_states [OF delay_removed_in] by (auto simp: delay_blocked_def set_status_def)
  let ?q = "sorted_insert InsertSortedDelayList sched_gt 8 (sched_node t)"
  have "set (states ?q (delay_removed k t p)) = insert (delay_removed k t p) (set (sorted_states InsertSortedDelayList sched_gt 8 (sched_node t) (delay_removed k t p)))"
    by (simp add: sorted_insert_def prog_simps)
  then have ins: "recovers (on_lists ?q) ((delay_blocked k t)\<lparr>k_lists := delay_inserted k t p\<rparr>) (delay_states k t p) ?b"
    using delay_facts(6) [OF assms(1)] delay_in_states(2) [OF delay_removed_in] delay_in_states'
    by (auto simp: recovers_def exec_on_lists states_on_lists)
  have "\<not> get_wakeup_time ((delay_blocked k t)\<lparr>k_lists := delay_inserted k t p\<rparr>) t < next_unblock_time (delay_blocked k t)"
    using assms(1) delay_facts(7) [OF assms(1)] by (simp add: delay_pre_def get_wakeup_time_def delay_blocked_def delay_open_def set_status_def set_tx_op_def not_less)
  then have "recovers (Read (\<lambda>k. if get_wakeup_time k t < next_unblock_time k
          then writes [\<lambda>k. k\<lparr>next_unblock_time := get_wakeup_time k t\<rparr>] else Halt)) 
     ((delay_blocked k t)\<lparr>k_lists := delay_inserted k t p\<rparr>) (delay_states k t p) ((delay_blocked k t)\<lparr>k_lists := delay_inserted k t p\<rparr>)"
    using delay_in_states' [OF delay_inserted_in] by (intro recovers_Read) (simp add: recovers_Return)
  from recovers_seq [OF ins this] show ?thesis
    unfolding add_to_delayed_list_def DELAYED_TASK_LIST_def using x by (intro recovers_Write) simp_all
qed

lemma delay_idle: "delay_pre k t p A \<Longrightarrow> x \<in> set (delay_commit k t p) \<Longrightarrow> recovers recover_and_roll_forward_context_switch x (delay_states k t p) x"
  unfolding recover_and_roll_forward_context_switch_def
  by (rule with_log_entry_recovers [of _ InvalidOp 0])
     (auto simp: delay_commit_def Let_def log_setters task_setters micro_op_old_len_def delay_states_def recovers_Return)

lemma delay_dispatch:
  assumes "delay_pre k t p A" "log_op x = DelayListInsert" "recovers recover_and_roll_forward_of_delaylist_insert (delay_final k t p) (delay_states k t p) x"
  shows "recovers recover_list_transaction (delay_final k t p) (delay_states k t p) x"
  unfolding recover_list_transaction_def
  using assms delay_idle [OF assms(1), of "delay_final k t p"]
  by (intro recovers_seq [of _ "delay_final k t p"] recovers_Read) (simp_all add: delay_commit_def Let_def)

lemma delay_recovers_remove:
  assumes "delay_pre k t p A" "b = delay_open k \<or> b = delay_blocked k t" "m \<in> set (remove_states p (sched_node t) (k_lists k))"
  shows "recovers recover_and_roll_forward_of_delaylist_insert (delay_final k t p) (delay_states k t p) (b\<lparr>k_lists := m\<rparr>)"
proof -
  note f = delay_facts [OF assms(1)]
  have b: "current_task b = t" "unat (prio_value (prio_of b t)) = p" "p < 8"
    using assms(1,2) by (auto simp: delay_pre_def delay_open_def delay_blocked_def log_setters task_setters prio_of_def)
  have log: "lmicro m = micro_op_old_len RemoveOp (llen (k_lists k) p)"
    using remove_states_log assms(3) by blast
  have in_ss: "x \<in> set (remove_states p (sched_node t) (k_lists k)) \<Longrightarrow> b\<lparr>k_lists := x\<rparr> \<in> set (delay_states k t p)" for x
    using assms(2) delay_in_states [of x p t k] by auto
  have "recovers (recover_from_failed_remove p (sched_node t) (llen (k_lists k) p)) (delay_removed k t p)
      (remove_states p (sched_node t) (k_lists k)) m"
    using remove_states_ok [OF f(1)] assms(3) by blast
  then have rm: "recovers (on_lists (recover_from_failed_remove p (sched_node t) (llen (k_lists k) p)))
      (b\<lparr>k_lists := delay_removed k t p\<rparr>) (delay_states k t p) (b\<lparr>k_lists := m\<rparr>)"
    using in_ss by (rule recovers_on_lists')
  show ?thesis
    unfolding recover_and_roll_forward_of_delaylist_insert_def
    using b recovers_seq [OF recovers_seq [OF rm delay_insert_recovers [OF assms(1,2)]] delay_commit_recovers [OF assms(1) disjI1 [OF refl]]]
    by (intro with_log_entry_recovers [of _ RemoveOp "llen (k_lists k) p"] recovers_Read)
       (simp_all add: log f(8) Let_def with_sched_list_def prio_of_def NUM_PRIORITY_LEVELS_def recovers_seq recovers_Read seq_simps)
qed

lemma delay_recovers_insert:
  assumes "delay_pre k t p A" "m \<in> set (sorted_states InsertSortedDelayList sched_gt 8 (sched_node t) (delay_removed k t p))"
  shows "recovers recover_and_roll_forward_of_delaylist_insert (delay_final k t p) (delay_states k t p) ((delay_blocked k t)\<lparr>k_lists := m\<rparr>)"
proof -
  let ?b = "delay_blocked k t" and ?i = "(delay_blocked k t)\<lparr>k_lists := delay_inserted k t p\<rparr>"
  note f = delay_facts [OF assms(1)]
  have b: "current_task ?b = t"
    using assms(1) by (auto simp: delay_pre_def delay_open_def delay_blocked_def log_setters task_setters)
  have log: "lmicro m = micro_op_old_len InsertSortedDelayList (llen (delay_removed k t p) 8)"
    using sorted_states_log assms(2) by blast
  have "recovers (recover_from_failed_insert_sorted sched_gt 8 (sched_node t) (llen (delay_removed k t p) 8)) (delay_inserted k t p)
      (sorted_states InsertSortedDelayList sched_gt 8 (sched_node t) (delay_removed k t p)) m"
    using sorted_states_linear [OF f(4,5)] assms(2) by blast
  then have ins: "recovers (on_lists (recover_from_failed_insert_sorted sched_gt 8 (sched_node t) (llen (delay_removed k t p) 8))) ?i
      (delay_states k t p) (?b\<lparr>k_lists := m\<rparr>)"
    using delay_in_states' by (rule recovers_on_lists')
  have "set_status t Blocked ?i = ?i" by (simp add: delay_blocked_def set_status_def)
  then have st: "recovers (writes [set_status t Blocked]) ?i (delay_states k t p) ?i"
    using delay_in_states' [OF delay_inserted_in] by (simp add: recovers_intros)
  show ?thesis
    unfolding recover_and_roll_forward_of_delaylist_insert_def
    using b recovers_seq [OF recovers_seq [OF ins st] delay_commit_recovers [OF assms(1) disjI1 [OF refl]]]
    by (intro with_log_entry_recovers [of _ InsertSortedDelayList "llen (delay_removed k t p) 8"] recovers_Read)
       (simp_all add: log f(9) Let_def DELAYED_TASK_LIST_def)
qed

lemma delay_recovers_commit:
  assumes "delay_pre k t p A" "x \<in> set (butlast (delay_commit k t p))"
  shows "recovers recover_and_roll_forward_of_delaylist_insert (delay_final k t p) (delay_states k t p) x"
proof -
  have x: "x \<in> set (delay_states k t p)" "lmicro (k_lists x) = micro_op_old_len InvalidOp 0"
    using assms(2) by (auto simp: delay_commit_def delay_states_def Let_def micro_op_old_len_def log_setters task_setters)
  show ?thesis
    unfolding recover_and_roll_forward_of_delaylist_insert_def
    using x delay_commit_recovers [OF assms(1) disjI2 [OF assms(2)]]
    by (intro with_log_entry_recovers [of _ InvalidOp 0] recovers_Read) (simp_all add: Let_def seq_simps)
qed

lemma delay_recovers:
  assumes "delay_pre k t p A" "x \<in> set (delay_states k t p)"
  shows "recovers recover_list_transaction (delay_final k t p) (delay_states k t p) x"
proof -
  let ?rs = "remove_states p (sched_node t) (k_lists k)"
  let ?is = "sorted_states InsertSortedDelayList sched_gt 8 (sched_node t) (delay_removed k t p)"
  from assms(2) consider m where "x = (delay_open k)\<lparr>k_lists := m\<rparr>" "m \<in> set ?rs"
    | m where "x = (delay_blocked k t)\<lparr>k_lists := m\<rparr>" "m \<in> set ?rs"
    | m where "x = (delay_blocked k t)\<lparr>k_lists := m\<rparr>" "m \<in> set ?is"
    | "x \<in> set (butlast (delay_commit k t p))" | "x = delay_final k t p"
    by (auto simp: delay_states_def delay_commit_def Let_def)
  then show ?thesis
  proof cases
    case (1 m)
    then show ?thesis using delay_recovers_remove [OF assms(1) disjI1 [OF refl]]
      by (intro delay_dispatch [OF assms(1)]) (simp_all add: delay_open_def set_tx_op_def)
  next
    case (2 m)
    then show ?thesis using delay_recovers_remove [OF assms(1) disjI2 [OF refl]]
      by (intro delay_dispatch [OF assms(1)]) (simp_all add: delay_open_def delay_blocked_def set_tx_op_def set_status_def)
  next
    case (3 m)
    then show ?thesis using delay_recovers_insert [OF assms(1)]
      by (intro delay_dispatch [OF assms(1)]) (simp_all add: delay_open_def delay_blocked_def set_tx_op_def set_status_def)
  next
    case 4
    then show ?thesis using delay_recovers_commit [OF assms(1) 4]
      by (intro delay_dispatch [OF assms(1)])
        (auto simp: delay_commit_def Let_def delay_open_def delay_blocked_def set_tx_op_def task_setters)
  next
    case 5
    have "log_op x = InvalidTx" unfolding 5 by (simp add: delay_commit_def Let_def set_tx_op_def)
    then show ?thesis using delay_idle [OF assms(1), of x] 5
      unfolding recover_list_transaction_def
      by (simp add: recovers_Read seq_simps delay_commit_def Let_def)
  qed
qed

lemma on_lists_Write: "on_lists (Write w p) = Write (\<lambda>k. k\<lparr>k_lists := w (k_lists k)\<rparr>) (on_lists p)"
  by (simp add: on_lists_def)

lemma delay_tx_states:
  assumes "delay_pre k t p A"
  shows "states roll_forward_insert_into_delaylist k = k # delay_open k # states
      (seq (on_lists (optimized_remove_impl p (sched_node t))) (seq (add_to_delayed_list t) commit))
      ((delay_open k)\<lparr>k_lists := start_op_log RemoveOp p (k_lists k)\<rparr>)"
  using assms
  by (simp add: roll_forward_insert_into_delaylist_def delay_pre_def Let_def remove_from_ready_list_def
    with_sched_list_def NUM_PRIORITY_LEVELS_def prio_of_def delay_open_def set_tx_op_def
    optimized_remove_def on_lists_Write seq_simps)

lemma delay_tx_recovers:
  assumes "delay_pre k t p A"
  shows "recovers (seq (on_lists (optimized_remove_impl p (sched_node t))) (seq (add_to_delayed_list t) commit))
     (delay_final k t p) (delay_states k t p) ((delay_open k)\<lparr>k_lists := start_op_log RemoveOp p (k_lists k)\<rparr>)"
proof -
  have "recovers (optimized_remove_impl p (sched_node t)) (delay_removed k t p) 
     (remove_states p (sched_node t) (k_lists k)) (start_op_log RemoveOp p (k_lists k))"
    using delay_facts(2) [OF assms] by (simp add: recovers_def optimized_remove_def)
  then have "recovers (on_lists (optimized_remove_impl p (sched_node t))) ((delay_open k)\<lparr>k_lists := delay_removed k t p\<rparr>)
     (delay_states k t p) ((delay_open k)\<lparr>k_lists := start_op_log RemoveOp p (k_lists k)\<rparr>)"
    using delay_in_states(1) by (rule recovers_on_lists')
  then show ?thesis
    using delay_insert_recovers [OF assms disjI1 [OF refl]] delay_commit_recovers [OF assms disjI1 [OF refl]]
    by (blast intro: recovers_seq)
qed

lemma delay_tx_final:
  assumes "delay_pre k t p A"
  shows "final roll_forward_insert_into_delaylist k = delay_final k t p"
proof -
  let ?q = "seq (on_lists (optimized_remove_impl p (sched_node t))) (seq (add_to_delayed_list t) commit)"
  let ?s = "(delay_open k)\<lparr>k_lists := start_op_log RemoveOp p (k_lists k)\<rparr>"
  have "final roll_forward_insert_into_delaylist k = last (states roll_forward_insert_into_delaylist k)"
    by (simp add: last_state)
  also have "\<dots> = final ?q ?s" unfolding delay_tx_states [OF assms] by (simp add: last_state)
  also have "\<dots> = delay_final k t p" using delay_tx_recovers [OF assms] by (auto simp: recovers_def exec_final)
  finally show ?thesis .
qed

record delay_job =
  dj_kernel :: kernel
  dj_prio :: addr
  dj_sched :: sched

abbreviation dj_task :: "delay_job \<Rightarrow> tid" where
  "dj_task j \<equiv> current_task (dj_kernel j)"

interpretation delay_tx: roll_forward
  "\<lambda>j. delay_pre (dj_kernel j) (dj_task j) (dj_prio j) (dj_sched j)"
  "\<lambda>j. roll_forward_insert_into_delaylist" "\<lambda>j. recover_list_transaction" dj_kernel "\<lambda>j. 2"
  "\<lambda>j. delay_states (dj_kernel j) (dj_task j) (dj_prio j)"
proof (unfold_locales, goal_cases)
  case (1 j)
  then show ?case
    using delay_tx_states [OF 1] length_states [of roll_forward_insert_into_delaylist "dj_kernel j"] by simp
next
  case (2 j)
  then show ?case
    using delay_tx_states [OF 2] delay_tx_recovers [OF 2] by (simp add: recovers_def)
next
  case (3 j x)
  then show ?case using delay_recovers [OF 3] delay_tx_final [OF 3(1)] by simp
qed

section \<open>What it amounts to\<close>

text \<open>Two tasks of priority 1, the first of them running, and a clock that is about to reach the
  next wake-up time.\<close>

definition demo_kernel :: kernel where
  "demo_kernel = \<lparr>k_lists = \<lparr>lnext = (\<lambda>_. None)(2 := Some 4, 4 := Some 2),
       lprev = (\<lambda>_. None)(2 := Some 4, 4 := Some 2), lowner = (\<lambda>_. None)(2 := Some 1, 4 := Some 1),
       lvalue = (\<lambda>a. if even a then SchedListItem (a div 2) 50 else BlockedListItem (a div 2) 0),
       llen = (\<lambda>_. 0)(1 := 2), lcursor = (\<lambda>_. None)(1 := Some 2), lhead = (\<lambda>_. None)(1 := Some 2),
       lmicro = 0\<rparr>,
     log_op = InvalidTx, log_block_node = None, log_task = None, log_wait_list = None,
     tasks = (\<lambda>t. \<lparr>priority = Priority 1, status = Ready, list_tx_done = False\<rparr>),
     current_task = 1, tick_counter = 9, next_unblock_time = 10\<rparr>"

definition demo_sched :: sched where
  "demo_sched = \<lparr>ready = (\<lambda>_. [])(1 := [1, 2]), delayed = [], waiting = (\<lambda>_. [])\<rparr>"

lemma demo_kernel_rel: "sched_rel demo_kernel demo_sched"
  by (auto simp: demo_kernel_def demo_sched_def lists_rel_def own_items_def circular_def linear_def
    sched_node_def event_node_def)



section \<open>Where the recovery of the transaction falls short\<close>

text \<open>Claim C39. A power failure between the transaction's first store (the transaction code) and
  the log entry of its first list operation loses the delay: the recovery finds no list
  operation, does nothing and commits, and the task's retried call is then bypassed, so that the
  task stays on its ready list.\<close>

theorem delay_lost_before_first_list_op:
  assumes "lmicro (k_lists k) = 0" "\<not> list_tx_done (tasks k (current_task k))"
  shows "\<exists>k'. exec recover_list_transaction (crash roll_forward_insert_into_delaylist 1 k) = Inr ((), k') \<and>
    k_lists k' = k_lists k \<and> status (tasks k' (current_task k)) = status (tasks k (current_task k)) \<and>
    exec roll_forward_insert_into_delaylist k' = Inr ((), k')"
proof -
  have r: "get_micro_op 0 = Some InvalidOp" by (simp add: get_micro_op_def)
  have "(k_lists k)\<lparr>lmicro := 0\<rparr> = k_lists k" using assms(1) by simp
  with assms show ?thesis
    by (simp add: roll_forward_insert_into_delaylist_def Let_def crash.simps recover_list_transaction_def
      recover_and_roll_forward_of_delaylist_insert_def recover_and_roll_forward_context_switch_def
      with_log_entry_def tx_simps r)
qed

theorem delay_lost_before_first_list_op_witness:
  "\<exists>k'. exec recover_list_transaction (crash roll_forward_insert_into_delaylist 1 demo_kernel) = Inr ((), k') \<and>
    sched_rel k' demo_sched \<and> exec roll_forward_insert_into_delaylist k' = Inr ((), k')"
proof -
  have "lmicro (k_lists demo_kernel) = 0" "\<not> list_tx_done (tasks demo_kernel (current_task demo_kernel))"
    by (simp_all add: demo_kernel_def)
  from delay_lost_before_first_list_op [OF this] show ?thesis using demo_kernel_rel by auto
qed

text \<open>A recovery that finds the insertion into the delay list under way never moves the
  clock's next wake-up time, although the insertion itself would: a task whose wake-up time is
  the earliest is then not looked at when its time has come.\<close>

theorem delay_recovery_keeps_unblock_time:
  assumes "get_micro_op (lmicro (k_lists k)) = Some InsertSortedDelayList"
    and "exec recover_and_roll_forward_of_delaylist_insert k = Inr ((), k')"
  shows "next_unblock_time k' = next_unblock_time k"
  using assms
  by (auto simp: recover_and_roll_forward_of_delaylist_insert_def with_log_entry_def Let_def tx_simps
    exec_on_lists split: sum.splits)

text \<open>The power failed right after the log entry of the insertion: task 1 has left its ready list
  and is to wake up at tick 50, the next wake-up time is 100.\<close>

definition demo_late :: kernel where
  "demo_late = demo_kernel\<lparr>k_lists := (k_lists demo_kernel)\<lparr>lnext := (\<lambda>_. None)(2 := Some 4, 4 := Some 4),
     lprev := (\<lambda>_. None)(2 := Some 4, 4 := Some 4), lowner := (\<lambda>_. None)(4 := Some 1),
     llen := (\<lambda>_. 0)(1 := 1), lcursor := (\<lambda>_. None)(1 := Some 4), lhead := (\<lambda>_. None)(1 := Some 4),
     lmicro := micro_op_old_len InsertSortedDelayList 0\<rparr>,
     log_op := DelayListInsert, next_unblock_time := 100\<rparr>"

theorem delay_recovery_keeps_unblock_time_witness:
  "\<exists>k'. exec recover_and_roll_forward_of_delaylist_insert demo_late = Inr ((), k') \<and>
    lhead (k_lists k') 8 = Some (sched_node 1) \<and> get_wakeup_time k' 1 = 50 \<and> next_unblock_time k' = 100"
proof -
  have log: "get_micro_op (lmicro (k_lists demo_late)) = Some InsertSortedDelayList"
    "get_old_len (lmicro (k_lists demo_late)) = 0"
    using micro_log_roundtrip [of 0 InsertSortedDelayList] by (simp_all add: demo_late_def)
  obtain m' where m': "exec (recover_from_failed_insert_sorted sched_gt 8 (sched_node 1) 0)
      (k_lists demo_late) = Inr ((), m')"
    "lhead m' 8 = Some (sched_node 1)" "lvalue m' = lvalue (k_lists demo_late)"
    by (simp add: demo_late_def demo_kernel_def sched_node_def run_simps)
  have c: "current_task demo_late = 1" "wakeup_time (lvalue (k_lists demo_late) (sched_node 1)) = 50"
    by (simp_all add: demo_late_def demo_kernel_def sched_node_def)
  then obtain k' where k': "exec recover_and_roll_forward_of_delaylist_insert demo_late = Inr ((), k')"
    "lhead (k_lists k') 8 = Some (sched_node 1)" "get_wakeup_time k' 1 = 50"
    using log m'
    by (simp add: recover_and_roll_forward_of_delaylist_insert_def with_log_entry_def Let_def tx_simps
      exec_on_lists DELAYED_TASK_LIST_def get_wakeup_time_def)
  then show ?thesis
    using delay_recovery_keeps_unblock_time [OF log(1) k'(1)] by (simp add: demo_late_def)
qed

end
