(* ===== verification/Sched.thy ===== *)
theory Sched
  imports ListTxCrash
begin

text \<open>
  The scheduler (\<open>src/task.rs\<close>, and the clock of \<open>src/time.rs\<close>): the tick handler that wakes delayed
  tasks, delaying the current task, and the choice of the next task to run.
\<close>

section \<open>The clock\<close>

definition inc_tick :: "kernel \<Rightarrow> kernel" where
  "inc_tick k = k\<lparr>tick_counter := tick_counter k + 1\<rparr>"

definition set_next_unblock_time :: "time \<Rightarrow> kernel \<Rightarrow> kernel" where
  "set_next_unblock_time x k = k\<lparr>next_unblock_time := x\<rparr>"

text \<open>\<open>get_ticks().checked_add(wait_ticks)\<close>.\<close>

definition expiry :: "kernel \<Rightarrow> time \<Rightarrow> time option" where
  "expiry k wait_ticks = (if unat (tick_counter k) + unat wait_ticks < 2 ^ 32
     then Some (tick_counter k + wait_ticks) else None)"

definition update_countdown :: "time \<Rightarrow> time \<Rightarrow> time" where
  "update_countdown cur_time expiry_time = (if cur_time \<ge> expiry_time then 0 else expiry_time - cur_time)"

section \<open>The tick handler\<close>

text \<open>The loop over the delay list; every turn takes one task out, so 4096 turns are enough.\<close>

primrec wake_loop :: "nat \<Rightarrow> time \<Rightarrow> (kernel, unit) prog" where
  "wake_loop 0 cur_ticks = Fail Diverges"
| "wake_loop (Suc n) cur_ticks = Read (\<lambda>k. case peek_front DELAYED_TASK_LIST (k_lists k) of
     None \<Rightarrow> Halt
   | Some i \<Rightarrow> if wakeup_time i > cur_ticks then Halt
       else seq roll_forward_remove_from_delaylist (wake_loop n cur_ticks))"

definition process_tick :: "(kernel, unit) prog" where
  "process_tick = Write inc_tick (Read (\<lambda>k. let cur_ticks = tick_counter k in
     if cur_ticks \<ge> next_unblock_time k then
       seq (wake_loop 4096 cur_ticks)
         (Read (\<lambda>k. writes [set_next_unblock_time (case peek_front DELAYED_TASK_LIST (k_lists k) of
            None \<Rightarrow> MAX_DELAY_TIME | Some i \<Rightarrow> wakeup_time i)]))
     else Halt))"

definition task_delay :: "time \<Rightarrow> (kernel, unit) prog" where
  "task_delay nticks = Read (\<lambda>k. case expiry k nticks of None \<Rightarrow> Fail Panic
     | Some w \<Rightarrow> Write (set_wakeup_time (current_task k) w) roll_forward_insert_into_delaylist)"

section \<open>The choice of the next task\<close>

text \<open>\<open>jit t\<close> is the recovery of task \<open>t\<close> after a power failure (\<open>Task::jit_recovery\<close>), run before the
  task is switched to.\<close>

primrec switch_loop :: "(tid \<Rightarrow> (kernel, unit) prog) \<Rightarrow> tid \<Rightarrow> nat list \<Rightarrow> (kernel, unit) prog" where
  "switch_loop jit prev [] = Fail Panic"
| "switch_loop jit prev (i # is) = Read (\<lambda>k. case peek_next i (k_lists k) of
     None \<Rightarrow> switch_loop jit prev is
   | Some x \<Rightarrow> let t = item_task x in
       seq (jit t) (if t \<noteq> prev then atomic_roll_foward_context_switch t prev i else Halt))"

definition task_switch :: "(tid \<Rightarrow> (kernel, unit) prog) \<Rightarrow> (kernel, unit) prog" where
  "task_switch jit = Read (\<lambda>k. switch_loop jit (current_task k) [0..<NUM_PRIORITY_LEVELS])"

section \<open>What the tick handler does\<close>

text \<open>Waking one task, and all tasks whose time has come.\<close>

definition wake_task :: "(tid \<Rightarrow> nat) \<Rightarrow> tid \<Rightarrow> sched \<Rightarrow> sched" where
  "wake_task pr t A = A\<lparr>delayed := tl (delayed A), waiting := \<lambda>w. remove1 t (waiting A w),
     ready := (ready A)(pr t := ready A (pr t) @ [t])\<rparr>"

abbreviation prio_nat :: "kernel \<Rightarrow> tid \<Rightarrow> nat" where
  "prio_nat k t \<equiv> unat (prio_value (prio_of k t))"

definition wake_due :: "kernel \<Rightarrow> time \<Rightarrow> sched \<Rightarrow> sched" where
  "wake_due k now A = fold (wake_task (prio_nat k)) (takeWhile (\<lambda>t. get_wakeup_time k t \<le> now) (delayed A)) A"

text \<open>Every delayed task has a valid priority and would find room in its ready list.\<close>

definition roomy :: "kernel \<Rightarrow> sched \<Rightarrow> bool" where
  "roomy k A \<longleftrightarrow> (\<forall>t\<in>set (delayed A). prio_nat k t < 8) \<and> (\<forall>p<8. length (ready A p) + length (delayed A) < 4096)"

lemma peek_front_delayed:
  assumes "sched_rel k A"
  shows "peek_front DELAYED_TASK_LIST (k_lists k) = (case delayed A of [] \<Rightarrow> None
    | t # ts \<Rightarrow> Some (lvalue (k_lists k) (sched_node t)))"
proof -
  have "lhead (k_lists k) 8 = fst_of (map sched_node (delayed A)) None"
    using assms by (simp add: lists_rel_def linear_def)
  then show ?thesis by (cases "delayed A") (simp_all add: peek_front_def DELAYED_TASK_LIST_def)
qed

lemma wake_due_Cons:
  assumes "delayed A = t # ts" "get_wakeup_time k t \<le> now"
  shows "wake_due k now A = wake_due k now (wake_task (prio_nat k) t A)"
  using assms by (simp add: wake_due_def wake_task_def)

lemma wake_loop_refines:
  assumes "sched_rel k A" "roomy k A" "length (delayed A) < n"
  shows "\<exists>k'. exec (wake_loop n now) k = Inr ((), k') \<and> sched_rel k' (wake_due k now A) \<and>
    get_wakeup_time k' = get_wakeup_time k \<and> tick_counter k' = tick_counter k \<and>
    current_task k' = current_task k \<and> lvalue (k_lists k') = lvalue (k_lists k)"
  using assms
proof (induction n arbitrary: k A)
  case (Suc n)
  note peek = peek_front_delayed [OF Suc.prems(1)]
  show ?case
  proof (cases "delayed A")
    case Nil
    then show ?thesis using Suc.prems(1) peek by (simp add: wake_due_def)
  next
    case (Cons t ts)
    then have pf: "peek_front DELAYED_TASK_LIST (k_lists k) = Some (lvalue (k_lists k) (sched_node t))"
      using peek by simp
    show ?thesis
    proof (cases "get_wakeup_time k t \<le> now")
      case False
      then show ?thesis using Suc.prems(1) pf Cons by (auto simp: wake_due_def get_wakeup_time_def not_le)
    next
      case True
      let ?A = "wake_task (prio_nat k) t A"
      have p: "prio_nat k t < 8" using Suc.prems(2) Cons by (simp add: roomy_def)
      then have "length (ready A (prio_nat k t)) < 4095" using Suc.prems(2) Cons by (fastforce simp: roomy_def)
      from wake_delayed_refines [OF Suc.prems(1) Cons refl p this] obtain k1 where
        k1: "exec roll_forward_remove_from_delaylist k = Inr ((), k1)" "sched_rel k1 ?A"
          "lvalue (k_lists k1) = lvalue (k_lists k)" "prio_of k1 = prio_of k"
          "tick_counter k1 = tick_counter k" "current_task k1 = current_task k"
        using Cons by (auto simp: wake_task_def)
      have w: "get_wakeup_time k1 = get_wakeup_time k" using k1(3) by (simp add: get_wakeup_time_def [abs_def])
      have "roomy k1 ?A" using Suc.prems(2) k1(4) Cons by (auto simp: roomy_def wake_task_def)
      moreover have "length (delayed ?A) < n" using Suc.prems(3) Cons by (simp add: wake_task_def)
      ultimately obtain k2 where k2: "exec (wake_loop n now) k1 = Inr ((), k2)" "sched_rel k2 (wake_due k1 now ?A)"
         "get_wakeup_time k2 = get_wakeup_time k1" "tick_counter k2 = tick_counter k1"
         "current_task k2 = current_task k1" "lvalue (k_lists k2) = lvalue (k_lists k1)"
        using Suc.IH [OF k1(2)] by blast
      have "wake_due k1 now ?A = wake_due k now A"
        using wake_due_Cons [OF Cons True] w k1(4) by (simp add: wake_due_def)
      moreover have "exec (wake_loop (Suc n) now) k = Inr ((), k2)"
        using pf True k1(1) k2(1) by (simp add: get_wakeup_time_def exec_seq)
      ultimately show ?thesis using k1 k2 w by auto
    qed
  qed
qed simp

lemma delayed_wake_due: "delayed (wake_due k now A) = dropWhile (\<lambda>t. get_wakeup_time k t \<le> now) (delayed A)"
proof -
  have "delayed (fold (wake_task pr) ts A) = drop (length ts) (delayed A)" for pr ts
    by (induction ts arbitrary: A) (simp_all add: wake_task_def drop_Suc)
  then show ?thesis by (simp add: wake_due_def dropWhile_eq_drop)
qed

text \<open>The delay list is sorted by wake-up time, and the next wake-up time is not later than any of them.\<close>

definition timely :: "kernel \<Rightarrow> sched \<Rightarrow> bool" where
  "timely k A \<longleftrightarrow> sorted (map (get_wakeup_time k) (delayed A)) \<and>
     (\<forall>t\<in>set (delayed A). next_unblock_time k \<le> get_wakeup_time k t)"

lemma wake_due_late:
  "\<forall>t\<in>set (delayed A). now < get_wakeup_time k t \<Longrightarrow> wake_due k now A = A"
  by (cases "delayed A") (auto simp: wake_due_def)

lemma sorted_dropWhile_later:
  assumes "sorted (map f xs)" "x \<in> set (dropWhile (\<lambda>t. f t \<le> n) xs)"
  shows "n < (f x :: 'a :: linorder)"
  using assms by (induction xs) (auto split: if_splits simp: not_le intro: less_le_trans)

lemma sorted_map_dropWhile: "sorted (map f xs) \<Longrightarrow> sorted (map f (dropWhile P xs))"
  by (induction xs) auto


text \<open>Task 1 runs, task 2 waits for an item of queue 20.\<close>

definition demo_waiting :: kernel where
  "demo_waiting = demo_kernel\<lparr>k_lists := (k_lists demo_kernel)\<lparr>
     lnext := (\<lambda>_. None)(2 := Some 2), lprev := (\<lambda>_. None)(2 := Some 2),
     lowner := (\<lambda>_. None)(2 := Some 1, 4 := Some 8, 5 := Some 20),
     llen := (\<lambda>_. 0)(1 := 1, 8 := 1, 20 := 1), lcursor := (\<lambda>_. None)(1 := Some 2),
     lhead := (\<lambda>_. None)(1 := Some 2, 8 := Some 4, 20 := Some 5)\<rparr>\<rparr>"

lemma demo_waiting_rel:
  "sched_rel demo_waiting \<lparr>ready = (\<lambda>_. [])(1 := [1]), delayed = [2], waiting = (\<lambda>_. [])(20 := [2])\<rparr>"
  by (auto simp: demo_waiting_def demo_kernel_def lists_rel_def own_items_def circular_def linear_def
    sched_node_def event_node_def)


lemma task_switch_step:
  assumes "sched_rel k A" "p < 8" "ready A p = c # cs" "\<forall>i<p. ready A i = []" "t = hd (cs @ [c])" "t \<noteq> current_task k"
    and jit: "\<And>k. sched_rel k A \<Longrightarrow> \<exists>k'. exec (jit t) k = Inr ((), k') \<and> sched_rel k' A \<and>
      (\<forall>u. status (tasks k' u) = status (tasks k u))"
  shows "\<exists>k'. exec (task_switch jit) k = Inr ((), k') \<and> current_task k' = t \<and>
    sched_rel k' (A\<lparr>ready := (ready A)(p := cs @ [c])\<rparr>) \<and> status (tasks k' t) = Running \<and>
    status (tasks k' (current_task k)) = (if status (tasks k (current_task k)) = Blocked then Blocked else Ready)"
proof -
  let ?prev = "current_task k"
  have circ: "circular (k_lists k) i (map sched_node (ready A i))" if "i < 8" for i
    using assms(1) that by (simp add: lists_rel_def)
  have empty: "peek_next i (k_lists k) = None" if "i < p" for i
  proof -
    have "circular (k_lists k) i []" using circ [of i] assms(2,4) that by simp
    then show ?thesis by (simp add: circular_def peek_next_def)
  qed
  have "own_items (k_lists k)" using assms(1) by (simp add: lists_rel_def)
  moreover have "peek_next p (k_lists k) = Some (lvalue (k_lists k) (sched_node t))"
    using circ [OF assms(2)] assms(3,5) by (cases cs) (auto simp: circular_def peek_next_def)
  ultimately have here: "\<exists>x. peek_next p (k_lists k) = Some x \<and> item_task x = t" using own_items_task(1) by auto
  obtain k1 where k1: "exec (jit t) k = Inr ((), k1)" "sched_rel k1 A" "\<forall>u. status (tasks k1 u) = status (tasks k u)"
    using jit [OF assms(1)] by blast
  have loop: "exec (switch_loop jit ?prev (is @ p # js)) k = exec (atomic_roll_foward_context_switch t ?prev p) k1"
    if "\<forall>i\<in>set is. i < p" for "is" js
    using that by (induction "is") (use here k1(1) assms(6) in \<open>auto simp: empty exec_seq Let_def\<close>)
  have "[0..<NUM_PRIORITY_LEVELS] = [0..<p] @ [p..<8]"
    unfolding NUM_PRIORITY_LEVELS_def using assms(2) by (metis le_add_diff_inverse less_imp_le_nat upt_add_eq_append zero_le)
  then have "[0..<NUM_PRIORITY_LEVELS] = [0..<p] @ p # [Suc p..<8]"
    using upt_conv_Cons [OF assms(2)] by (simp only:)
  then have "exec (task_switch jit) k = exec (atomic_roll_foward_context_switch t ?prev p) k1"
    using loop [of "[0..<p]"] by (simp add: task_switch_def)
  moreover obtain k' where "exec (atomic_roll_foward_context_switch t ?prev p) k1 = Inr ((), k')"
    "sched_rel k' (A\<lparr>ready := (ready A)(p := cs @ [c])\<rparr>)" "current_task k' = t" "status (tasks k' t) = Running"
    "status (tasks k' ?prev) = (if status (tasks k1 ?prev) = Blocked then Blocked else Ready)"
    using context_switch_refines [OF k1(2) assms(2,3,5,6)] by blast
  ultimately show ?thesis using k1(3) by simp
qed

text \<open>Claim C12. The scheduler picks the most important ready task and shares the processor in turn: of the
  non-empty ready lists it takes the one of the highest priority, switches to the member after its
  cursor unless that is the running task, and leaves that task at the cursor.\<close>

theorem task_switch_picks_highest:
  assumes "sched_rel k A" "p < 8" "ready A p = c # cs" "\<forall>i<p. ready A i = []" "t = hd (cs @ [c])" "t \<noteq> current_task k"
    and jit: "\<And>k. sched_rel k A \<Longrightarrow> \<exists>k'. exec (jit t) k = Inr ((), k') \<and> sched_rel k' A \<and>
      (\<forall>u. status (tasks k' u) = status (tasks k u))"
  shows "\<exists>k'. exec (task_switch jit) k = Inr ((), k') \<and> current_task k' = t \<and>
    sched_rel k' (A\<lparr>ready := (ready A)(p := cs @ [c])\<rparr>) \<and> status (tasks k' t) = Running \<and>
    status (tasks k' (current_task k)) = (if status (tasks k (current_task k)) = Blocked then Blocked else Ready)"
  using assms(1-6) jit by (rule task_switch_step)

theorem task_switch_picks_highest_witness:
  "\<exists>k'. exec (task_switch (\<lambda>_. Halt)) demo_kernel = Inr ((), k') \<and> current_task k' = 2 \<and>
    sched_rel k' (demo_sched\<lparr>ready := (ready demo_sched)(1 := [2] @ [1])\<rparr>) \<and> status (tasks k' 2) = Running \<and>
    status (tasks k' (current_task demo_kernel)) =
      (if status (tasks demo_kernel (current_task demo_kernel)) = Blocked then Blocked else Ready)"
  by (rule task_switch_picks_highest [OF demo_kernel_rel]) (simp_all add: demo_sched_def demo_kernel_def)

section \<open>No ready task of the highest priority starves\<close>

primrec switches :: "(tid \<Rightarrow> (kernel, unit) prog) \<Rightarrow> nat \<Rightarrow> (kernel, unit) prog" where
  "switches jit 0 = Halt"
| "switches jit (Suc n) = seq (switches jit n) (task_switch jit)"

lemma switches_rotate:
  assumes "sched_rel k A" "p < 8" "ready A p = current_task k # cs" "cs \<noteq> []" "\<forall>i<p. ready A i = []"
    and jit: "\<And>t k A. sched_rel k A \<Longrightarrow> \<exists>k'. exec (jit t) k = Inr ((), k') \<and> sched_rel k' A \<and>
      (\<forall>u. status (tasks k' u) = status (tasks k u))"
  shows "\<exists>k'. exec (switches jit n) k = Inr ((), k') \<and> current_task k' = hd (rotate n (ready A p)) \<and>
    sched_rel k' (A\<lparr>ready := (ready A)(p := rotate n (ready A p))\<rparr>)"
proof (induction n)
  case 0
  have "current_task k = hd (ready A p)" using assms(3) by simp
  then show ?case using assms(1) by simp
next
  case (Suc n)
  let ?xs = "rotate n (ready A p)" and ?A = "\<lambda>xs. A\<lparr>ready := (ready A)(p := xs)\<rparr>"
  from Suc obtain k1 where k1: "exec (switches jit n) k = Inr ((), k1)" "current_task k1 = hd ?xs" "sched_rel k1 (?A ?xs)"
    by blast
  obtain c ds where c: "?xs = c # ds" using assms(3) by (cases ?xs) auto
  have "length ?xs = Suc (length cs)" using assms(3) by simp
  then have ds: "ds \<noteq> []" using c assms(4) by auto
  have "circular (k_lists k) p (map sched_node (ready A p))" using assms(1,2) by (simp add: lists_rel_def)
  then have "distinct (ready A p)" by (auto simp: circular_def distinct_map)
  then have "distinct ?xs" by simp
  then have "hd (ds @ [c]) \<noteq> current_task k1" using c ds k1(2) by (cases ds) auto
  with task_switch_step [OF k1(3) assms(2), of c ds "hd (ds @ [c])" jit] obtain k' where
    "exec (task_switch jit) k1 = Inr ((), k')" "current_task k' = hd (ds @ [c])" "sched_rel k' (?A (ds @ [c]))"
    using c assms(5) jit by auto
  moreover have "rotate (Suc n) (ready A p) = ds @ [c]" using c by simp
  ultimately show ?case unfolding switches.simps exec_seq k1(1)
    by (intro exI [of _ k'] conjI) (simp_all only: sum.case prod.case)
qed



section \<open>Delaying a task\<close>

lemma set_wakeup_time_rel: "sched_rel k A \<Longrightarrow> sched_rel (set_wakeup_time t w k) A"
  by (simp add: set_wakeup_time_def lists_rel_def own_items_def linear_def circular_def)

text \<open>Delaying the current task takes it out of its ready list and enters it into the delay list,
  sorted by wake-up time, with the current time plus the delay; a sum beyond the range of the clock
  panics before anything is changed.\<close>

theorem task_delay_blocks:
  assumes "sched_rel k A" "current_task k = t" "\<not> list_tx_done (tasks k t)" "prio_nat k t = p" "p < 8"
    and "t \<in> set (ready A p)" "length (delayed A) < 4095"
  shows "if unat (tick_counter k) + unat n < 2 ^ 32
    then \<exists>k'. exec (task_delay n) k = Inr ((), k') \<and> status (tasks k' t) = Blocked \<and>
      next_unblock_time k' = min (next_unblock_time k) (tick_counter k + n) \<and>
      sched_rel k' (A\<lparr>ready := (ready A)(p := remove1 t (ready A p)),
        delayed := insert_at (\<lambda>u. tick_counter k + n > get_wakeup_time (set_wakeup_time t (tick_counter k + n) k) u)
          t (delayed A)\<rparr>)
    else exec (task_delay n) k = Inl Panic"
proof (cases "unat (tick_counter k) + unat n < 2 ^ 32")
  case True
  let ?w = "tick_counter k + n"
  let ?k = "set_wakeup_time t ?w k"
  have k: "sched_rel ?k A" "current_task ?k = t" "\<not> list_tx_done (tasks ?k t)" "prio_nat ?k t = p"
     "next_unblock_time ?k = next_unblock_time k"
    using assms(1-4) set_wakeup_time_rel by (simp_all add: set_wakeup_time_def prio_of_def)
  have w: "get_wakeup_time ?k t = ?w" by (simp add: get_wakeup_time_def set_wakeup_time_def)
  then have "wakes_later ?k t = (\<lambda>u. ?w > get_wakeup_time ?k u)" by (simp add: wakes_later_def [abs_def])
  then show ?thesis using True delay_current_refines [OF k(1-4) assms(5-7)] assms(2) w k(5)
    by (auto simp: task_delay_def expiry_def)
qed (simp add: task_delay_def expiry_def)

theorem task_delay_blocks_witness:
  "\<exists>k'. exec (task_delay 41) demo_kernel = Inr ((), k') \<and> status (tasks k' 1) = Blocked \<and> next_unblock_time k' = 10 \<and>
    sched_rel k' (demo_sched\<lparr>ready := (\<lambda>_. [])(1 := [2]), delayed := [1]\<rparr>)"
proof -
  have "current_task demo_kernel = 1" "\<not> list_tx_done (tasks demo_kernel 1)" "prio_nat demo_kernel 1 = 1"
     "1 \<in> set (ready demo_sched 1)" "length (delayed demo_sched) < 4095" 
    by (simp_all add: demo_kernel_def demo_sched_def prio_of_def)
  from task_delay_blocks [OF demo_kernel_rel this(1-3) _ this(4,5), of 41] show ?thesis
    by (auto simp: demo_kernel_def demo_sched_def insert_at_def min_def)
qed

section \<open>Sleeping on a wait list\<close>

text \<open>What the blocking operations of queues, semaphores and event groups rely on.\<close>

lemma sleep_refines:
  assumes "sched_rel k A" "prio_nat k t = p" "p < 8" "t \<in> set (ready A p)"
    and "8 < wl" "lowner (k_lists k) (event_node t) = None" "length (waiting A wl) < 4095" "length (delayed A) < 4095"
  shows "\<exists>k'. exec (atomic_roll_forward_insert_into_waitlist wl t w) k = Inr ((), k') \<and>
    sched_rel k' (A\<lparr>ready := (ready A)(p := remove1 t (ready A p)),
      waiting := (waiting A)(wl := insert_at (\<lambda>u. prio_gt (prio_of k t) (prio_of k u)) t (waiting A wl)),
      delayed := insert_at (\<lambda>u. w > get_wakeup_time (set_wakeup_time t w k) u) t (delayed A)\<rparr>) \<and>
    status (tasks k' t) = Blocked"
proof -
  let ?k = "set_wakeup_time t w k"
  have pr: "prio_of ?k = prio_of k" by (simp add: prio_of_def [abs_def] set_wakeup_time_def)
  have wk: "wakes_later ?k t = (\<lambda>u. w > get_wakeup_time ?k u)"
    by (simp add: wakes_later_def [abs_def] get_wakeup_time_def set_wakeup_time_def fun_eq_iff)
  have "lowner (k_lists ?k) (event_node t) = None" using assms(6) by (simp add: set_wakeup_time_def)
  then show ?thesis
    using block_on_waitlist_refines [OF set_wakeup_time_rel [OF assms(1), of t w], where t = t and p = p and w = wl] assms(2-8)
    unfolding pr wk by (auto simp: atomic_roll_forward_insert_into_waitlist_def)
qed

lemma demo_facts: "expiry demo_kernel 5 = Some 14" "prio_nat demo_kernel 1 = 1"
  "1 \<in> set (ready demo_sched 1)" "lowner (k_lists demo_kernel) (event_node 1) = None"
  by (simp_all add: expiry_def demo_kernel_def demo_sched_def prio_of_def event_node_def)

lemma demo_sleeps:
  assumes "8 < wl"
  shows "\<exists>k'. exec (atomic_roll_forward_insert_into_waitlist wl 1 14) demo_kernel = Inr ((), k') \<and>
    sched_rel k' (demo_sched\<lparr>ready := (\<lambda>_. [])(1 := [2]), waiting := (\<lambda>_. [])(wl := [1]), delayed := [1]\<rparr>) \<and>
    status (tasks k' 1) = Blocked"
  using sleep_refines [OF demo_kernel_rel demo_facts(2) _ demo_facts(3) assms demo_facts(4), of 14]
  by (auto simp: demo_sched_def insert_at_def)

end
