(* ===== verification/Queue.thy ===== *)
theory Queue
  imports Sched
begin

text \<open>
  Message queues (\<open>src/queue.rs\<close>): a ring buffer of items of a fixed size in persistent memory, with
  two wait lists. The buffer is a map from offsets to bytes; positions are byte offsets that run from
  0 to \<open>tail\<close> and wrap to 0. Sending and receiving block the task on a wait list of the queue.
\<close>

section \<open>The ring buffer\<close>

datatype QueueErr = NoMemory | InvalidQueueParam | QueueDeleted | QueueFull | QueueEmpty

record queue =
  q_length :: nat
  q_item_size :: nat
  q_buffer :: "nat \<Rightarrow> byte"
  read_pos :: nat
  write_pos :: nat
  q_tail :: nat
  items_enqueued :: nat
  blocked_readers :: addr
  blocked_writers :: addr

text \<open>\<open>Queue::new\<close> after its two allocations have succeeded; the product is computed on \<open>usize\<close>.\<close>

definition queue_new :: "nat \<Rightarrow> nat \<Rightarrow> (nat \<Rightarrow> byte) \<Rightarrow> addr \<Rightarrow> addr \<Rightarrow> queue option" where
  "queue_new len item_size buf readers writers = (if len = 0 then None
     else Some \<lparr>q_length = len, q_item_size = item_size, q_buffer = buf, read_pos = 0, write_pos = 0,
       q_tail = (item_size * len) mod 2 ^ 32, items_enqueued = 0,
       blocked_readers = readers, blocked_writers = writers\<rparr>)"

definition is_full :: "queue \<Rightarrow> bool" where
  "is_full q \<longleftrightarrow> items_enqueued q = q_length q"

definition queue_is_empty :: "queue \<Rightarrow> bool" where
  "queue_is_empty q \<longleftrightarrow> items_enqueued q = 0"

text \<open>The copy of \<open>item_size\<close> bytes into the buffer.\<close>

definition copy_item :: "nat \<Rightarrow> byte list \<Rightarrow> nat \<Rightarrow> (queue, unit) prog" where
  "copy_item dst item n =
     writes (map (\<lambda>i q. q\<lparr>q_buffer := (q_buffer q)(dst + i := item ! i)\<rparr>) [0..<n])"

definition push_back :: "byte list \<Rightarrow> (queue, QueueErr + unit) prog" where
  "push_back item = Read (\<lambda>q. if is_full q then Return (Inl QueueFull)
     else seq (copy_item (write_pos q) item (q_item_size q))
       (seq (writes [\<lambda>q. q\<lparr>write_pos := write_pos q + q_item_size q\<rparr>])
       (seq (Read (\<lambda>q. if write_pos q = q_tail q then writes [\<lambda>q. q\<lparr>write_pos := 0\<rparr>] else Halt))
         (Write (\<lambda>q. q\<lparr>items_enqueued := items_enqueued q + 1\<rparr>) (Return (Inr ()))))))"

definition push_front :: "byte list \<Rightarrow> (queue, QueueErr + unit) prog" where
  "push_front item = Read (\<lambda>q. if is_full q then Return (Inl QueueFull)
     else Write (\<lambda>q. q\<lparr>read_pos := if read_pos q = 0 then q_tail q - q_item_size q else read_pos q - q_item_size q\<rparr>)
       (Read (\<lambda>q. seq (copy_item (read_pos q) item (q_item_size q))
         (Write (\<lambda>q. q\<lparr>items_enqueued := items_enqueued q + 1\<rparr>) (Return (Inr ()))))))"

definition dequeue :: "nat \<Rightarrow> (queue, QueueErr + byte list) prog" where
  "dequeue n = Read (\<lambda>q. if queue_is_empty q then Return (Inl QueueEmpty)
     else let item = map (\<lambda>i. q_buffer q (read_pos q + i)) [0..<n] in
       Write (\<lambda>q. q\<lparr>read_pos := read_pos q + n\<rparr>)
       (seq (Read (\<lambda>q. if read_pos q = q_tail q then writes [\<lambda>q. q\<lparr>read_pos := 0\<rparr>] else Halt))
         (Write (\<lambda>q. q\<lparr>items_enqueued := items_enqueued q - 1\<rparr>) (Return (Inr item)))))"

section \<open>A queue holds a list of items\<close>

definition slot :: "queue \<Rightarrow> nat \<Rightarrow> nat" where
  "slot q i = q_item_size q * (i mod q_length q)"

definition q_holds :: "queue \<Rightarrow> nat \<Rightarrow> byte list list \<Rightarrow> bool" where
  "q_holds q r xs \<longleftrightarrow> 0 < q_length q \<and> 0 < q_item_size q \<and> q_tail q = q_item_size q * q_length q \<and>
     r < q_length q \<and> read_pos q = slot q r \<and> write_pos q = slot q (r + length xs) \<and>
     items_enqueued q = length xs \<and> length xs \<le> q_length q \<and>
     (\<forall>i<length xs. length (xs ! i) = q_item_size q \<and>
        (\<forall>k<q_item_size q. q_buffer q (slot q (r + i) + k) = xs ! i ! k))"

definition represents :: "queue \<Rightarrow> byte list list \<Rightarrow> bool" where
  "represents q xs \<longleftrightarrow> (\<exists>r. q_holds q r xs)"

lemma copy_item_fold:
  "fold (\<lambda>w. w) (map (\<lambda>i q. q\<lparr>q_buffer := (q_buffer q)(dst + i := item ! i)\<rparr>) [0..<k]) q =
   q\<lparr>q_buffer := \<lambda>i. if dst \<le> i \<and> i < dst + k then item ! (i - dst) else q_buffer q i\<rparr>"
proof (induction k)
  case 0
  have "(\<lambda>i. if dst \<le> i \<and> i < dst + 0 then item ! (i - dst) else q_buffer q i) = q_buffer q"
    by (auto simp: fun_eq_iff)
  then show ?case by simp
next
  case (Suc k)
  have "(\<lambda>i. if dst \<le> i \<and> i < dst + k then item ! (i - dst) else q_buffer q i)(dst + k := item ! k) =
    (\<lambda>i. if dst \<le> i \<and> i < dst + Suc k then item ! (i - dst) else q_buffer q i)"
    by (auto simp: fun_eq_iff)
  then show ?case using Suc by (simp del: fun_upd_apply)
qed

text \<open>Different slots do not overlap.\<close>

lemma slot_disjoint:
  assumes "k < sz" "sz * (a :: nat) \<le> sz * b + k" "sz * b + k < sz * a + sz"
  shows "a = b"
proof -
  have "sz * a < sz * Suc b" using assms(1,2) by simp
  then have "a \<le> b" by (metis less_Suc_eq_le mult_less_cancel1)
  moreover have "sz * b < sz * Suc a" using assms(3) by simp
  then have "b \<le> a" by (metis less_Suc_eq_le mult_less_cancel1)
  ultimately show ?thesis by simp
qed

lemma mod_ring_neq:
  fixes n :: nat
  assumes "i < j" "j < i + n"
  shows "i mod n \<noteq> j mod n"
proof
  assume "i mod n = j mod n"
  then have "n dvd j - i" using assms(1) mod_eq_dvd_iff_nat [of i j n] by simp
  then show False using assms nat_dvd_not_less [of "j - i" n] by simp
qed

lemma slot_Suc:
  assumes "0 < q_length q" "0 < q_item_size q" "q_tail q = q_item_size q * q_length q"
  shows "slot q (Suc i) = (if slot q i + q_item_size q = q_tail q then 0 else slot q i + q_item_size q)"
proof -
  have "slot q i + q_item_size q = q_item_size q * Suc (i mod q_length q)" by (simp add: slot_def)
  then have "slot q i + q_item_size q = q_tail q \<longleftrightarrow> Suc (i mod q_length q) = q_length q"
    using assms(2,3) by (simp only: mult_cancel1) simp
  then show ?thesis by (simp add: slot_def mod_Suc)
qed

text \<open>Bytes written to the slots that no item occupies are not seen.\<close>

lemma q_holds_free:
  assumes "q_holds q r xs" "length xs < q_length q"
    and "\<And>i. \<not> (slot q (r + length xs) \<le> i \<and> i < slot q (r + length xs) + q_item_size q) \<Longrightarrow> b i = q_buffer q i"
  shows "q_holds (q\<lparr>q_buffer := b\<rparr>) r xs"
proof -
  let ?n = "q_length q" and ?sz = "q_item_size q"
  have "b (slot q (r + i) + k) = q_buffer q (slot q (r + i) + k)" if "i < length xs" "k < ?sz" for i k
  proof (rule assms(3))
    have "(r + i) mod ?n \<noteq> (r + length xs) mod ?n" using mod_ring_neq [of "r + i" "r + length xs" ?n] that(1) assms(2) by simp
    then show "\<not> (slot q (r + length xs) \<le> slot q (r + i) + k \<and> slot q (r + i) + k < slot q (r + length xs) + ?sz)"
      using slot_disjoint [OF that(2), of "(r + length xs) mod ?n" "(r + i) mod ?n"] by (auto simp: slot_def)
  qed
  then show ?thesis using assms(1) by (simp add: q_holds_def slot_def)
qed

abbreviation put_item :: "queue \<Rightarrow> nat \<Rightarrow> byte list \<Rightarrow> nat \<Rightarrow> queue" where
  "put_item q dst item k \<equiv> q\<lparr>q_buffer := \<lambda>i. if dst \<le> i \<and> i < dst + k then item ! (i - dst) else q_buffer q i\<rparr>"

lemma exec_copy_item: "exec (copy_item dst item n) q = Inr ((), put_item q dst item n)"
  by (simp add: copy_item_def exec_writes copy_item_fold del: fun_upd_apply)

lemma states_copy_item:
  assumes "t \<in> set (states (copy_item dst item n) q)"
  shows "\<exists>k\<le>n. t = put_item q dst item k"
proof -
  obtain k where "k \<le> n" "t = fold (\<lambda>w. w) (take k (map (\<lambda>i q. q\<lparr>q_buffer := (q_buffer q)(dst + i := item ! i)\<rparr>) [0..<n])) q"
    using drop_in_crash [of t 0 "copy_item dst item n" q] assms
    by (fastforce simp: crash_writes copy_item_def)
  then show ?thesis using copy_item_fold [of dst item k q] by (intro exI [of _ k]) (simp add: take_map del: fun_upd_apply)
qed

lemma q_holds_item:
  assumes "q_holds q r xs" "length xs < q_length q" "length x = q_item_size q"
  shows "q_holds ((put_item q (slot q (r + length xs)) x (q_item_size q))
    \<lparr>write_pos := slot q (Suc (r + length xs)), items_enqueued := Suc (length xs)\<rparr>) r (xs @ [x])"
proof -
  let ?q = "put_item q (slot q (r + length xs)) x (q_item_size q)"
  have h: "q_holds ?q r xs" by (rule q_holds_free [OF assms(1,2)]) auto
  have "\<forall>k<q_item_size q. q_buffer ?q (slot q (r + length xs) + k) = x ! k" by simp
  then show ?thesis using h assms(2,3)
    by (auto simp: q_holds_def slot_def nth_append less_Suc_eq)
qed

lemma exec_push_back:
  assumes "q_holds q r xs" "length xs < q_length q"
  shows "exec (push_back x) q = Inr (Inr (), (put_item q (slot q (r + length xs)) x (q_item_size q))
    \<lparr>write_pos := slot q (Suc (r + length xs)), items_enqueued := Suc (length xs)\<rparr>)"
proof -
  have q: "slot q (Suc (r + length xs)) = (if slot q (r + length xs) + q_item_size q = q_tail q then 0
     else slot q (r + length xs) + q_item_size q)"
    using assms(1) by (intro slot_Suc) (simp_all add: q_holds_def)
  have "write_pos q = slot q (r + length xs)" "items_enqueued q = length xs" "\<not> is_full q"
    using assms by (simp_all add: q_holds_def is_full_def)
  then show ?thesis using q by (simp add: push_back_def exec_seq exec_copy_item)
qed

text \<open>The slot in front of the read position.\<close>

definition before :: "queue \<Rightarrow> nat \<Rightarrow> nat" where
  "before q r = (if r = 0 then q_length q - 1 else r - 1)"

lemma before_ring:
  assumes "r < q_length q"
  shows "before q r < q_length q" "(before q r + Suc i) mod q_length q = (r + i) mod q_length q"
    and "0 < q_item_size q \<Longrightarrow> q_tail q = q_item_size q * q_length q \<Longrightarrow>
      slot q (before q r) = (if slot q r = 0 then q_tail q - q_item_size q else slot q r - q_item_size q)"
proof -
  show b: "before q r < q_length q" using assms by (auto simp: before_def)
  show "(before q r + Suc i) mod q_length q = (r + i) mod q_length q"
    using assms mod_add_self1 [of "q_length q" i] by (cases "r = 0") (simp_all add: before_def)
  show "0 < q_item_size q \<Longrightarrow> q_tail q = q_item_size q * q_length q \<Longrightarrow>
      slot q (before q r) = (if slot q r = 0 then q_tail q - q_item_size q else slot q r - q_item_size q)"
    using assms by (cases r) (simp_all add: slot_def before_def diff_mult_distrib2)
qed

lemma q_holds_front:
  assumes "q_holds q r xs" "length xs < q_length q" "length x = q_item_size q"
  shows "q_holds ((put_item q (slot q (before q r)) x (q_item_size q))
    \<lparr>read_pos := slot q (before q r), items_enqueued := Suc (length xs)\<rparr>) (before q r) (x # xs)"
proof -
  let ?n = "q_length q" and ?b = "before q r"
  have r: "r < ?n" "q_item_size q > 0" using assms(1) by (simp_all add: q_holds_def)
  note br = before_ring [OF r(1)]
  have same: "q_buffer (put_item q (slot q ?b) x (q_item_size q)) (slot q (r + i) + k) = q_buffer q (slot q (r + i) + k)"
    if "i < length xs" "k < q_item_size q" for i k
  proof -
    have "(r + i) mod ?n \<noteq> ?b mod ?n"
      using mod_ring_neq [of ?b "?b + Suc i" ?n] br(2) [of i] that(1) assms(2) by simp
    then show ?thesis using slot_disjoint [OF that(2), of "?b mod ?n" "(r + i) mod ?n"] by (auto simp: slot_def)
  qed
  have "length ((x # xs) ! i) = q_item_size q \<and>
    (\<forall>k<q_item_size q. q_buffer (put_item q (slot q ?b) x (q_item_size q)) (slot q (?b + i) + k) = (x # xs) ! i ! k)"
    if "i < Suc (length xs)" for i
  proof (cases i)
    case 0
    then show ?thesis using assms(3) by simp
  next
    case (Suc i')
    then have "slot q (?b + i) = slot q (r + i')" using br(2) [of i'] by (simp add: slot_def)
    moreover have "i' < length xs" using that Suc by simp
    ultimately show ?thesis using same [of i'] assms(1) Suc by (simp add: q_holds_def)
  qed
  moreover have "write_pos q = slot q (?b + length (x # xs))"
    using assms(1) br(2) [of "length xs"] by (simp add: q_holds_def slot_def)
  ultimately show ?thesis using assms(1,2) br(1) by (simp add: q_holds_def slot_def)
qed

lemma exec_push_front:
  assumes "q_holds q r xs" "length xs < q_length q"
  shows "exec (push_front x) q = Inr (Inr (), (put_item q (slot q (before q r)) x (q_item_size q))
    \<lparr>read_pos := slot q (before q r), items_enqueued := Suc (length xs)\<rparr>)"
proof -
  have "slot q (before q r) = (if slot q r = 0 then q_tail q - q_item_size q else slot q r - q_item_size q)"
    using assms(1) by (intro before_ring(3)) (simp_all add: q_holds_def)
  moreover have "read_pos q = slot q r" "items_enqueued q = length xs" "\<not> is_full q"
    using assms by (simp_all add: q_holds_def is_full_def)
  ultimately show ?thesis by (simp add: push_front_def exec_seq exec_copy_item cong: if_cong)
qed

lemma dequeue_spec:
  assumes "q_holds q r (x # xs)"
  shows "exec (dequeue (q_item_size q)) q = Inr (Inr x, q\<lparr>read_pos := slot q (Suc r), items_enqueued := length xs\<rparr>)"
    and "q_holds (q\<lparr>read_pos := slot q (Suc r), items_enqueued := length xs\<rparr>) (Suc r mod q_length q) xs"
proof -
  have s: "slot q (Suc r) = (if slot q r + q_item_size q = q_tail q then 0 else slot q r + q_item_size q)"
    using assms by (intro slot_Suc) (simp_all add: q_holds_def)
  have f: "read_pos q = slot q r" "items_enqueued q = Suc (length xs)" "\<not> queue_is_empty q" "length x = q_item_size q"
    and b: "\<forall>k<q_item_size q. q_buffer q (slot q r + k) = x ! k"
    using assms by (auto simp: q_holds_def queue_is_empty_def)
  have "map (\<lambda>i. q_buffer q (slot q r + i)) [0..<q_item_size q] = x"
    using b f(4) by (intro nth_equalityI) simp_all
  then show "exec (dequeue (q_item_size q)) q = Inr (Inr x, q\<lparr>read_pos := slot q (Suc r), items_enqueued := length xs\<rparr>)"
    using f s by (simp add: dequeue_def exec_seq)
  have "length (xs ! i) = q_item_size q \<and> (\<forall>k<q_item_size q. q_buffer q (slot q (Suc r + i) + k) = xs ! i ! k)"
    if "i < length xs" for i
    using assms that unfolding q_holds_def by (metis Suc_less_eq add_Suc_shift length_Cons nth_Cons_Suc)
  then show "q_holds (q\<lparr>read_pos := slot q (Suc r), items_enqueued := length xs\<rparr>) (Suc r mod q_length q) xs"
    using assms by (simp add: q_holds_def slot_def mod_simps)
qed

section \<open>Any sequence of operations\<close>

text \<open>What a bounded double-ended queue promises its clients, and what follows for any sequence of
  operations: it behaves as on a list.\<close>

datatype 'x qop = SendBack 'x | SendFront 'x | Receive

fun qop_spec :: "nat \<Rightarrow> 'x qop \<Rightarrow> 'x list \<Rightarrow> (QueueErr + 'x option) \<times> 'x list" where
  "qop_spec n (SendBack x) xs = (if length xs = n then (Inl QueueFull, xs) else (Inr None, xs @ [x]))"
| "qop_spec n (SendFront x) xs = (if length xs = n then (Inl QueueFull, xs) else (Inr None, x # xs))"
| "qop_spec n Receive xs = (case xs of [] \<Rightarrow> (Inl QueueEmpty, []) | x # ys \<Rightarrow> (Inr (Some x), ys))"

fun ops_spec :: "nat \<Rightarrow> 'x qop list \<Rightarrow> 'x list \<Rightarrow> (QueueErr + 'x option) list \<times> 'x list" where
  "ops_spec n [] xs = ([], xs)"
| "ops_spec n (c # cs) xs = (case qop_spec n c xs of (r, ys) \<Rightarrow>
     case ops_spec n cs ys of (rs, zs) \<Rightarrow> (r # rs, zs))"

primrec qop_run :: "('x \<Rightarrow> ('q, QueueErr + unit) prog) \<Rightarrow> ('x \<Rightarrow> ('q, QueueErr + unit) prog) \<Rightarrow>
    ('q, QueueErr + 'x) prog \<Rightarrow> 'x qop \<Rightarrow> ('q, QueueErr + 'x option) prog" where
  "qop_run pb pf dq (SendBack x) = bind (pb x) (\<lambda>r. Return (map_sum id (\<lambda>_. None) r))"
| "qop_run pb pf dq (SendFront x) = bind (pf x) (\<lambda>r. Return (map_sum id (\<lambda>_. None) r))"
| "qop_run pb pf dq Receive = bind dq (\<lambda>r. Return (map_sum id Some r))"

primrec ops_run :: "('x \<Rightarrow> ('q, QueueErr + unit) prog) \<Rightarrow> ('x \<Rightarrow> ('q, QueueErr + unit) prog) \<Rightarrow>
    ('q, QueueErr + 'x) prog \<Rightarrow> 'x qop list \<Rightarrow> ('q, (QueueErr + 'x option) list) prog" where
  "ops_run pb pf dq [] = Return []"
| "ops_run pb pf dq (c # cs) = bind (qop_run pb pf dq c) (\<lambda>r. bind (ops_run pb pf dq cs) (\<lambda>rs. Return (r # rs)))"

primrec op_item :: "('x \<Rightarrow> bool) \<Rightarrow> 'x qop \<Rightarrow> bool" where
  "op_item P (SendBack x) \<longleftrightarrow> P x"
| "op_item P (SendFront x) \<longleftrightarrow> P x"
| "op_item P Receive \<longleftrightarrow> True"

locale bounded_deque =
  fixes rep :: "nat \<times> 'p \<Rightarrow> 'q \<Rightarrow> 'x list \<Rightarrow> bool"
    and fits :: "'p \<Rightarrow> 'x \<Rightarrow> bool"
    and pb pf :: "'x \<Rightarrow> ('q, QueueErr + unit) prog"
    and dq :: "'p \<Rightarrow> ('q, QueueErr + 'x) prog"
  assumes bounded: "rep (n, p) q xs \<Longrightarrow> length xs \<le> n"
    and add_last: "rep (n, p) q xs \<Longrightarrow> length xs < n \<Longrightarrow> fits p x \<Longrightarrow>
      \<exists>q'. exec (pb x) q = Inr (Inr (), q') \<and> rep (n, p) q' (xs @ [x])"
    and add_last_full: "rep (n, p) q xs \<Longrightarrow> length xs = n \<Longrightarrow> exec (pb x) q = Inr (Inl QueueFull, q)"
    and add_first: "rep (n, p) q xs \<Longrightarrow> length xs < n \<Longrightarrow> fits p x \<Longrightarrow>
      \<exists>q'. exec (pf x) q = Inr (Inr (), q') \<and> rep (n, p) q' (x # xs)"
    and add_first_full: "rep (n, p) q xs \<Longrightarrow> length xs = n \<Longrightarrow> exec (pf x) q = Inr (Inl QueueFull, q)"
    and take_first: "rep (n, p) q (x # xs) \<Longrightarrow> \<exists>q'. exec (dq p) q = Inr (Inr x, q') \<and> rep (n, p) q' xs"
    and take_none: "rep (n, p) q [] \<Longrightarrow> exec (dq p) q = Inr (Inl QueueEmpty, q)"
begin

lemma one_op:
  assumes "rep (n, p) q xs" "op_item (fits p) c"
  shows "\<exists>q'. exec (qop_run pb pf (dq p) c) q = Inr (fst (qop_spec n c xs), q') \<and> rep (n, p) q' (snd (qop_spec n c xs))"
proof (cases c)
  case (SendBack x)
  then show ?thesis using assms add_last add_last_full bounded [OF assms(1)]
    by (cases "length xs = n") (fastforce simp: exec_bind)+
next
  case (SendFront x)
  then show ?thesis using assms add_first add_first_full bounded [OF assms(1)]
    by (cases "length xs = n") (fastforce simp: exec_bind)+
next
  case Receive
  then show ?thesis using assms take_first take_none by (cases xs) (fastforce simp: exec_bind)+
qed

lemma all_ops:
  "rep (n, p) q xs \<Longrightarrow> \<forall>c\<in>set cs. op_item (fits p) c \<Longrightarrow>
   \<exists>q'. exec (ops_run pb pf (dq p) cs) q = Inr (fst (ops_spec n cs xs), q') \<and> rep (n, p) q' (snd (ops_spec n cs xs))"
proof (induction cs arbitrary: q xs)
  case (Cons c cs)
  obtain q1 where q1: "exec (qop_run pb pf (dq p) c) q = Inr (fst (qop_spec n c xs), q1)"
      "rep (n, p) q1 (snd (qop_spec n c xs))"
    using one_op Cons.prems by (metis list.set_intros(1))
  obtain q2 where "exec (ops_run pb pf (dq p) cs) q1 = Inr (fst (ops_spec n cs (snd (qop_spec n c xs))), q2)"
      "rep (n, p) q2 (snd (ops_spec n cs (snd (qop_spec n c xs))))"
    using Cons.IH [OF q1(2)] Cons.prems by auto
  then show ?case using q1(1) by (auto simp: exec_bind split: prod.split)
qed simp

end

fun ring_rep :: "nat \<times> nat \<Rightarrow> queue \<Rightarrow> byte list list \<Rightarrow> bool" where
  "ring_rep (n, sz) q xs \<longleftrightarrow> q_length q = n \<and> q_item_size q = sz \<and> represents q xs"

interpretation ring: bounded_deque ring_rep "\<lambda>sz x. length x = sz" push_back push_front dequeue
proof
  fix n p q xs and x :: "byte list"
  assume r: "ring_rep (n, p) q xs"
  then obtain i where i: "q_holds q i xs" "q_length q = n" "q_item_size q = p" by (auto simp: represents_def)
  show "length xs \<le> n" using i by (simp add: q_holds_def)
  show "\<exists>q'. exec (push_back x) q = Inr (Inr (), q') \<and> ring_rep (n, p) q' (xs @ [x])"
    if "length xs < n" "length x = p"
    using exec_push_back [OF i(1)] q_holds_item [OF i(1)] i(2,3) that by (fastforce simp: represents_def)
  show "exec (push_back x) q = Inr (Inl QueueFull, q)" if "length xs = n"
    using i that by (simp add: push_back_def is_full_def q_holds_def)
  show "\<exists>q'. exec (push_front x) q = Inr (Inr (), q') \<and> ring_rep (n, p) q' (x # xs)"
    if "length xs < n" "length x = p"
    using exec_push_front [OF i(1)] q_holds_front [OF i(1)] i(2,3) that by (fastforce simp: represents_def)
  show "exec (push_front x) q = Inr (Inl QueueFull, q)" if "length xs = n"
    using i that by (simp add: push_front_def is_full_def q_holds_def)
next
  fix n p q xs and x :: "byte list"
  assume "ring_rep (n, p) q (x # xs)"
  then obtain i where i: "q_holds q i (x # xs)" "q_length q = n" "q_item_size q = p" by (auto simp: represents_def)
  then show "\<exists>q'. exec (dequeue p) q = Inr (Inr x, q') \<and> ring_rep (n, p) q' xs"
    using dequeue_spec [OF i(1)] by (fastforce simp: represents_def)
next
  fix n p q
  assume "ring_rep (n, p) q []"
  then show "exec (dequeue p) q = Inr (Inl QueueEmpty, q)"
    by (auto simp: represents_def q_holds_def dequeue_def queue_is_empty_def)
qed

text \<open>Claim C10. The ring buffer is a bounded double-ended queue: any sequence of sends to the back, sends
  to the front and receives returns exactly what the same operations on a list of at most \<open>length\<close>
  items return, full and empty included, and leaves the queue holding that list.\<close>

theorem queue_refines_list:
  assumes "represents q xs" "\<forall>c\<in>set cs. op_item (\<lambda>x. length x = q_item_size q) c"
  shows "\<exists>q'. exec (ops_run push_back push_front (dequeue (q_item_size q)) cs) q =
      Inr (fst (ops_spec (q_length q) cs xs), q') \<and> represents q' (snd (ops_spec (q_length q) cs xs))"
  using ring.all_ops [of "q_length q" "q_item_size q" q xs cs] assms by auto

lemma new_represents:
  assumes "0 < sz" "0 < len" "sz * len < 2 ^ 32"
  shows "\<exists>q. queue_new len sz buf rd wr = Some q \<and> represents q [] \<and> q_length q = len \<and> q_item_size q = sz"
proof -
  obtain q where q: "queue_new len sz buf rd wr = Some q" using assms(2) by (simp add: queue_new_def)
  then have "q_holds q 0 []" using assms by (auto simp: queue_new_def q_holds_def slot_def)
  then show ?thesis using q assms(2) by (auto simp: represents_def queue_new_def)
qed

definition demo_queue :: queue where
  "demo_queue = the (queue_new 3 2 (\<lambda>_. 0) 20 21)"

lemma demo_queue_empty: "represents demo_queue []" "q_item_size demo_queue = 2" "q_length demo_queue = 3"
  using new_represents [of 2 3 "\<lambda>_. 0" 20 21] by (auto simp: demo_queue_def)

theorem queue_refines_list_witness:
  "\<exists>q'. exec (ops_run push_back push_front (dequeue (q_item_size demo_queue))
        [SendBack [1, 2], SendFront [3, 4], Receive, Receive, Receive]) demo_queue =
      Inr (fst (ops_spec (q_length demo_queue) [SendBack [1, 2], SendFront [3, 4], Receive, Receive, Receive] []), q') \<and>
    represents q' (snd (ops_spec (q_length demo_queue) [SendBack [1, 2], SendFront [3, 4], Receive, Receive, Receive] []))"
  by (rule queue_refines_list) (use demo_queue_empty in simp_all)

text \<open>The copy of an item into the buffer is not logged, and need not be: wherever a send to the
  back is cut off, taking back the two logged positions gives a queue with the old contents.\<close>

theorem torn_push_back_invisible:
  assumes "represents q xs" "length xs < q_length q" "t \<in> set (states (push_back x) q)"
  shows "represents (t\<lparr>write_pos := write_pos q, items_enqueued := items_enqueued q\<rparr>) xs"
proof -
  obtain r where r: "q_holds q r xs" using assms(1) by (auto simp: represents_def)
  let ?d = "slot q (r + length xs)" and ?sz = "q_item_size q"
  let ?c = "copy_item ?d x ?sz"
  have f: "write_pos q = ?d" "items_enqueued q = length xs" "\<not> is_full q"
    using r assms(2) by (simp_all add: q_holds_def is_full_def)
  have "\<exists>k w n. k \<le> ?sz \<and> t = (put_item q ?d x k)\<lparr>write_pos := w, items_enqueued := n\<rparr>"
  proof -
    have "t \<in> set (states (seq ?c (seq (writes [\<lambda>q. q\<lparr>write_pos := write_pos q + q_item_size q\<rparr>])
       (seq (Read (\<lambda>q. if write_pos q = q_tail q then writes [\<lambda>q. q\<lparr>write_pos := 0\<rparr>] else Halt))
         (Write (\<lambda>q. q\<lparr>items_enqueued := items_enqueued q + 1\<rparr>) (Return (Inr () :: QueueErr + unit)))))) q)"
      using assms(3) f by (simp add: push_back_def)
    then consider k where "k \<le> ?sz" "t = put_item q ?d x k"
      | "\<exists>w n. t = (put_item q ?d x ?sz)\<lparr>write_pos := w, items_enqueued := n\<rparr>"
      unfolding seq_def
    proof (cases rule: states_bind_cases)
      case 1
      then show ?thesis using states_copy_item that(1) by blast
    next
      case (2 a u)
      have "v = v\<lparr>write_pos := write_pos v, items_enqueued := items_enqueued v\<rparr>" for v :: queue by simp
      then have e: "\<exists>w n. v\<lparr>write_pos := w', items_enqueued := n'\<rparr> = v\<lparr>write_pos := w, items_enqueued := n\<rparr>"
        "\<exists>w n. v = v\<lparr>write_pos := w, items_enqueued := n\<rparr>" 
        "\<exists>w n. v\<lparr>write_pos := w'\<rparr> = v\<lparr>write_pos := w, items_enqueued := n\<rparr>" for v :: queue and w' n'
        by (metis queue.surjective queue.update_convs(5,7))+
      show ?thesis using 2 that(2) e by (auto simp: exec_copy_item split: if_splits)
    qed
    then show ?thesis
    proof cases
      case (1 k)
      moreover have "put_item q ?d x k = (put_item q ?d x k)\<lparr>write_pos := write_pos q, items_enqueued := items_enqueued q\<rparr>" by simp
      ultimately show ?thesis by blast
    qed blast
  qed
  then obtain k w n where k: "k \<le> ?sz" "t = (put_item q ?d x k)\<lparr>write_pos := w, items_enqueued := n\<rparr>" by blast
  then have "t\<lparr>write_pos := write_pos q, items_enqueued := items_enqueued q\<rparr> = put_item q ?d x k" by simp
  moreover have "q_holds (put_item q ?d x k) r xs" using k(1) by (intro q_holds_free [OF r assms(2)]) auto
  ultimately show ?thesis by (auto simp: represents_def)
qed

theorem torn_push_back_invisible_witness:
  "represents ((crash (push_back [1, 2]) 1 demo_queue)
    \<lparr>write_pos := write_pos demo_queue, items_enqueued := items_enqueued demo_queue\<rparr>) []"
  by (rule torn_push_back_invisible [OF demo_queue_empty(1) _ crash_in_states]) (simp add: demo_queue_empty)

section \<open>Sending and receiving\<close>

record qsys =
  qs_k :: kernel
  qs_q :: queue

definition on_queue :: "(queue, 'a) prog \<Rightarrow> (qsys, 'a) prog" where
  "on_queue p = lift qs_q (\<lambda>q s. s\<lparr>qs_q := q\<rparr>) p"

definition on_kernel :: "(kernel, 'a) prog \<Rightarrow> (qsys, 'a) prog" where
  "on_kernel p = lift qs_k (\<lambda>k s. s\<lparr>qs_k := k\<rparr>) p"

datatype 'a outcome = Finished 'a | Yielded time

text \<open>Putting the calling task to sleep on a wait list until the wake-up time, which is set once.\<close>

definition sleep_on :: "(queue \<Rightarrow> addr) \<Rightarrow> tid \<Rightarrow> time \<Rightarrow> time option \<Rightarrow> (qsys, 'a outcome) prog" where
  "sleep_on wl t wait_ticks wakeup = Read (\<lambda>s.
     case (case wakeup of Some w \<Rightarrow> Some w | None \<Rightarrow> expiry (qs_k s) wait_ticks) of
       None \<Rightarrow> Fail Panic
     | Some w \<Rightarrow> seq (on_kernel (atomic_roll_forward_insert_into_waitlist (wl (qs_q s)) t w)) (Return (Yielded w)))"

definition wake_one :: "(queue \<Rightarrow> addr) \<Rightarrow> (qsys, unit) prog" where
  "wake_one wl = Read (\<lambda>s. on_kernel (roll_forward_pop_remove_from_waitlist (wl (qs_q s))))"

definition queue_send_pass :: "bool \<Rightarrow> byte list \<Rightarrow> tid \<Rightarrow> time \<Rightarrow> time option \<Rightarrow>
    (qsys, (QueueErr + unit) outcome) prog" where
  "queue_send_pass is_back item t wait_ticks wakeup =
     bind (on_queue (if is_back then push_back item else push_front item)) (\<lambda>r. case r of
       Inl _ \<Rightarrow> if wait_ticks \<noteq> 0 then sleep_on blocked_writers t wait_ticks wakeup
         else Return (Finished (Inl QueueFull))
     | Inr _ \<Rightarrow> seq (wake_one blocked_readers) (Return (Finished (Inr ()))))"

definition queue_receive_pass :: "nat \<Rightarrow> tid \<Rightarrow> time \<Rightarrow> time option \<Rightarrow>
    (qsys, (QueueErr + byte list) outcome) prog" where
  "queue_receive_pass n t wait_ticks wakeup =
     bind (on_queue (dequeue n)) (\<lambda>r. case r of
       Inl _ \<Rightarrow> if wait_ticks \<noteq> 0 then sleep_on blocked_readers t wait_ticks wakeup
         else Return (Finished (Inl QueueEmpty))
     | Inr v \<Rightarrow> seq (wake_one blocked_writers) (Return (Finished (Inr v))))"

text \<open>The loops. What the other tasks do between a yield and the next turn of this task is an argument:
  one state change for every wake-up; when they are used up the task is still asleep.\<close>

primrec queue_send_impl :: "(qsys \<Rightarrow> qsys) list \<Rightarrow> bool \<Rightarrow> byte list \<Rightarrow> tid \<Rightarrow> time \<Rightarrow> time option \<Rightarrow>
    (qsys, (QueueErr + unit) outcome) prog" where
  "queue_send_impl [] is_back item t wait_ticks wakeup = queue_send_pass is_back item t wait_ticks wakeup"
| "queue_send_impl (e # es) is_back item t wait_ticks wakeup =
     bind (queue_send_pass is_back item t wait_ticks wakeup) (\<lambda>r. case r of
       Finished v \<Rightarrow> Return (Finished v)
     | Yielded w \<Rightarrow> Write e (Read (\<lambda>s.
         queue_send_impl es is_back item t (update_countdown (tick_counter (qs_k s)) w) (Some w))))"

primrec queue_receive :: "(qsys \<Rightarrow> qsys) list \<Rightarrow> nat \<Rightarrow> tid \<Rightarrow> time \<Rightarrow> time option \<Rightarrow>
    (qsys, (QueueErr + byte list) outcome) prog" where
  "queue_receive [] n t wait_ticks wakeup = queue_receive_pass n t wait_ticks wakeup"
| "queue_receive (e # es) n t wait_ticks wakeup =
     bind (queue_receive_pass n t wait_ticks wakeup) (\<lambda>r. case r of
       Finished v \<Rightarrow> Return (Finished v)
     | Yielded w \<Rightarrow> Write e (Read (\<lambda>s.
         queue_receive es n t (update_countdown (tick_counter (qs_k s)) w) (Some w))))"

definition queue_block_until_not_empty :: "tid \<Rightarrow> time \<Rightarrow> bool \<Rightarrow> (qsys, bool) prog" where
  "queue_block_until_not_empty t wait_ticks forever = Read (\<lambda>s. if queue_is_empty (qs_q s) then
     (case (if forever then Some (- 1) else expiry (qs_k s) wait_ticks) of None \<Rightarrow> Fail Panic
      | Some w \<Rightarrow> seq (on_kernel (atomic_roll_forward_insert_into_waitlist (blocked_readers (qs_q s)) t w)) (Return True))
     else Return False)"

interpretation queue_part: lens qs_q "\<lambda>q s. s\<lparr>qs_q := q\<rparr>"
  by unfold_locales simp_all

interpretation kernel_part: lens qs_k "\<lambda>k s. s\<lparr>qs_k := k\<rparr>"
  by unfold_locales simp_all

lemmas qsys_lift = on_queue_def on_kernel_def queue_part.exec_lift kernel_part.exec_lift

text \<open>Sending to a queue that is not full stores the item behind the others and wakes the first
  task waiting to receive: it leaves the wait list and the delay list and becomes ready.\<close>

theorem send_wakes_reader:
  assumes "represents (qs_q s) xs" "length xs < q_length (qs_q s)" "length item = q_item_size (qs_q s)"
    and "sched_rel (qs_k s) A" "\<not> list_tx_done (tasks (qs_k s) (current_task (qs_k s)))"
    and "blocked_readers (qs_q s) = wl" "8 < wl" "waiting A wl = u # us" "u \<in> set (delayed A)"
    and "unat (prio_value (prio_of (qs_k s) u)) = p" "p < 8" "length (ready A p) < 4095"
  shows "\<exists>s'. exec (queue_send_impl es True item t wait_ticks None) s = Inr (Finished (Inr ()), s') \<and>
    represents (qs_q s') (xs @ [item]) \<and>
    sched_rel (qs_k s') (A\<lparr>waiting := (waiting A)(wl := us), delayed := remove1 u (delayed A),
      ready := (ready A)(p := ready A p @ [u])\<rparr>) \<and> status (tasks (qs_k s') u) = Ready"
proof -
  obtain r where r: "q_holds (qs_q s) r xs" using assms(1) by (auto simp: represents_def)
  let ?q = "(put_item (qs_q s) (slot (qs_q s) (r + length xs)) item (q_item_size (qs_q s)))
    \<lparr>write_pos := slot (qs_q s) (Suc (r + length xs)), items_enqueued := Suc (length xs)\<rparr>"
  have q: "represents ?q (xs @ [item])" using q_holds_item [OF r assms(2,3)] by (auto simp: represents_def)
  obtain k where k: "exec (roll_forward_pop_remove_from_waitlist wl) (qs_k s) = Inr ((), k)"
      "sched_rel k (A\<lparr>waiting := (waiting A)(wl := us), delayed := remove1 u (delayed A),
        ready := (ready A)(p := ready A p @ [u])\<rparr>)" "status (tasks k u) = Ready"
    using wake_first_waiter_refines [OF assms(4,5,7-12)] by blast
  have pass: "exec (queue_send_pass True item t wait_ticks None) s = Inr (Finished (Inr ()), s\<lparr>qs_q := ?q, qs_k := k\<rparr>)"
    using exec_push_back [OF r assms(2)] k(1) assms(6)
    by (simp add: queue_send_pass_def exec_bind exec_seq wake_one_def qsys_lift)
  then have "exec (queue_send_impl es True item t wait_ticks None) s = Inr (Finished (Inr ()), s\<lparr>qs_q := ?q, qs_k := k\<rparr>)"
    by (cases es) (simp_all add: exec_bind)
  then show ?thesis using q k(2,3) by simp
qed

theorem send_wakes_reader_witness:
  "\<exists>s'. exec (queue_send_impl [] True [7, 8] 1 0 None) \<lparr>qs_k = demo_waiting, qs_q = demo_queue\<rparr> = Inr (Finished (Inr ()), s') \<and>
    represents (qs_q s') ([] @ [[7, 8]]) \<and>
    sched_rel (qs_k s') (\<lparr>ready = (\<lambda>_. [])(1 := [1]), delayed = [2], waiting = (\<lambda>_. [])(20 := [2])\<rparr>\<lparr>
      waiting := ((\<lambda>_. [])(20 := [2]))(20 := []), delayed := remove1 2 [2],
      ready := ((\<lambda>_. [])(1 := [1]))(1 := [1] @ [2])\<rparr>) \<and> status (tasks (qs_k s') 2) = Ready"
  using send_wakes_reader [of "\<lparr>qs_k = demo_waiting, qs_q = demo_queue\<rparr>" "[]" "[7, 8]"
      "\<lparr>ready = (\<lambda>_. [])(1 := [1]), delayed = [2], waiting = (\<lambda>_. [])(20 := [2])\<rparr>" 20 2 "[]" 1 "[]" 1 0]
    demo_queue_empty demo_waiting_rel
  by (simp add: demo_waiting_def demo_kernel_def demo_queue_def queue_new_def prio_of_def del: fun_upd_apply)
    (simp add: fun_upd_def)

text \<open>Sending to a full queue with a timeout puts the task to sleep: it leaves its ready list and
  is entered into the wait list of the writers by priority and into the delay list with the current
  time plus the timeout; the queue is unchanged.\<close>

theorem send_full_blocks:
  assumes "represents (qs_q s) xs" "length xs = q_length (qs_q s)" "wait_ticks \<noteq> 0"
    and "expiry (qs_k s) wait_ticks = Some w"
    and "sched_rel (qs_k s) A" "unat (prio_value (prio_of (qs_k s) t)) = p" "p < 8" "t \<in> set (ready A p)"
    and "blocked_writers (qs_q s) = wl" "8 < wl" "lowner (k_lists (qs_k s)) (event_node t) = None"
    and "length (waiting A wl) < 4095" "length (delayed A) < 4095"
  shows "\<exists>s'. exec (queue_send_impl [] is_back item t wait_ticks None) s = Inr (Yielded w, s') \<and> qs_q s' = qs_q s \<and>
    sched_rel (qs_k s') (A\<lparr>ready := (ready A)(p := remove1 t (ready A p)),
      waiting := (waiting A)(wl := insert_at (\<lambda>u. prio_gt (prio_of (qs_k s) t) (prio_of (qs_k s) u)) t (waiting A wl)),
      delayed := insert_at (\<lambda>u. w > get_wakeup_time (set_wakeup_time t w (qs_k s)) u) t (delayed A)\<rparr>) \<and>
    status (tasks (qs_k s') t) = Blocked"
proof -
  have f: "exec (if is_back then push_back item else push_front item) (qs_q s) = Inr (Inl QueueFull, qs_q s)"
    using ring.add_last_full [of "q_length (qs_q s)"] ring.add_first_full [of "q_length (qs_q s)"] assms(1,2) by auto
  show ?thesis using sleep_refines [OF assms(5-8,10-13), of w] f assms(3,4,9)
    by (auto simp: queue_send_pass_def exec_bind exec_seq sleep_on_def qsys_lift)
qed

definition demo_full :: queue where
  "demo_full = \<lparr>q_length = 1, q_item_size = 2, q_buffer = (\<lambda>_. 0), read_pos = 0, write_pos = 0, q_tail = 2,
     items_enqueued = 1, blocked_readers = 20, blocked_writers = 21\<rparr>"

lemma demo_full_holds: "represents demo_full [[0, 0]]"
  unfolding represents_def by (rule exI [of _ 0]) (auto simp: q_holds_def demo_full_def slot_def less_2_cases_iff)

lemma send_full_sleeps:
  "\<exists>s1. exec (queue_send_pass True [7, 8] 1 5 None) \<lparr>qs_k = demo_kernel, qs_q = demo_full\<rparr> = Inr (Yielded 14, s1)"
  using demo_facts(1) demo_sleeps [of 21]
  by (auto simp: queue_send_pass_def push_back_def is_full_def demo_full_def exec_bind exec_seq sleep_on_def qsys_lift)

theorem send_full_blocks_witness:
  "\<exists>s'. exec (queue_send_impl [] True [7, 8] 1 5 None) \<lparr>qs_k = demo_kernel, qs_q = demo_full\<rparr> = Inr (Yielded 14, s') \<and>
    qs_q s' = demo_full \<and>
    sched_rel (qs_k s') (demo_sched\<lparr>ready := (\<lambda>_. [])(1 := [2]), waiting := (\<lambda>_. [])(21 := [1]), delayed := [1]\<rparr>) \<and>
    status (tasks (qs_k s') 1) = Blocked"
proof -
  have h: "blocked_writers demo_full = 21" "q_length demo_full = 1"
    "length (waiting demo_sched 21) < 4095" "length (delayed demo_sched) < 4095"
    by (simp_all add: demo_sched_def demo_full_def)
  show ?thesis
    using send_full_blocks [of "\<lparr>qs_k = demo_kernel, qs_q = demo_full\<rparr>" "[[0, 0]]" 5 14 demo_sched 1 1 21 True "[7, 8]"]
      demo_full_holds demo_kernel_rel h demo_facts
    by (auto simp: demo_sched_def insert_at_def)
qed

text \<open>A send that slept until its timeout and finds the queue still full gives up with
  \<open>QueueFull\<close>, and changes nothing when it does.\<close>

theorem send_times_out:
  assumes "exec (queue_send_pass is_back item t wait_ticks wakeup) s = Inr (Yielded w, s1)"
    and "represents (qs_q (e s1)) xs" "length xs = q_length (qs_q (e s1))" "tick_counter (qs_k (e s1)) \<ge> w"
  shows "exec (queue_send_impl (e # es) is_back item t wait_ticks wakeup) s = Inr (Finished (Inl QueueFull), e s1)"
proof -
  have "exec (if is_back then push_back item else push_front item) (qs_q (e s1)) = Inr (Inl QueueFull, qs_q (e s1))"
    using ring.add_last_full [of "q_length (qs_q (e s1))"] ring.add_first_full [of "q_length (qs_q (e s1))"] assms(2,3) by auto
  then have "exec (queue_send_pass is_back item t 0 (Some w)) (e s1) = Inr (Finished (Inl QueueFull), e s1)"
    by (simp add: queue_send_pass_def exec_bind qsys_lift)
  then have "exec (queue_send_impl es is_back item t 0 (Some w)) (e s1) = Inr (Finished (Inl QueueFull), e s1)"
    by (cases es) (simp_all add: exec_bind)
  then show ?thesis using assms(1,4) by (simp add: exec_bind update_countdown_def)
qed

theorem send_times_out_witness:
  "\<exists>s1. exec (queue_send_pass True [7, 8] 1 5 None) \<lparr>qs_k = demo_kernel, qs_q = demo_full\<rparr> = Inr (Yielded 14, s1) \<and>
    exec (queue_send_impl [\<lambda>s. \<lparr>qs_k = demo_kernel\<lparr>tick_counter := 14\<rparr>, qs_q = demo_full\<rparr>] True [7, 8] 1 5 None)
      \<lparr>qs_k = demo_kernel, qs_q = demo_full\<rparr> =
      Inr (Finished (Inl QueueFull), \<lparr>qs_k = demo_kernel\<lparr>tick_counter := 14\<rparr>, qs_q = demo_full\<rparr>)"
proof -
  have "\<exists>s1. exec (queue_send_pass True [7, 8] 1 5 None) \<lparr>qs_k = demo_kernel, qs_q = demo_full\<rparr> = Inr (Yielded 14, s1)"
    using send_full_sleeps by simp
  then show ?thesis
    using send_times_out [of True "[7, 8]" 1 5 None "\<lparr>qs_k = demo_kernel, qs_q = demo_full\<rparr>" 14 _
      "\<lambda>s. \<lparr>qs_k = demo_kernel\<lparr>tick_counter := 14\<rparr>, qs_q = demo_full\<rparr>" "[[0, 0]]" "[]"] demo_full_holds
    by (fastforce simp: demo_full_def)
qed

end
