(* ===== verification/Semaphore.thy ===== *)
theory Semaphore
  imports Sched
begin

text \<open>
  Semaphores and mutexes (\<open>src/semaphore.rs\<close>): a count, a wait list, and the task that took the
  semaphore last. A task that finds itself recorded as the holder takes the semaphore without
  touching the count.
\<close>

section \<open>The semaphore\<close>

record semaphore =
  s_count :: usize
  mutex_holder :: "tid option"
  is_mutex :: bool
  s_size :: usize
  wait_list :: addr

definition semaphore_new :: "usize \<Rightarrow> addr \<Rightarrow> semaphore" where
  "semaphore_new n wl = \<lparr>s_count = n, mutex_holder = None, is_mutex = (n = 1), s_size = n, wait_list = wl\<rparr>"

definition try_take :: "tid \<Rightarrow> (semaphore, bool) prog" where
  "try_take t = Read (\<lambda>s. if s_count s > 0
     then Write (\<lambda>s. s\<lparr>s_count := s_count s - 1\<rparr>)
       (Write (\<lambda>s. s\<lparr>mutex_holder := Some t\<rparr>) (Return True))
     else Return False)"

definition give :: "(semaphore, bool) prog" where
  "give = Read (\<lambda>s. if s_count s = s_size s then Return False
     else if \<not> s_count s < s_size s then Fail Panic
     else Write (\<lambda>s. s\<lparr>s_count := s_count s + 1\<rparr>) (Return True))"

section \<open>Taking and giving\<close>

record ssys =
  ss_k :: kernel
  ss_s :: semaphore

definition on_sem :: "(semaphore, 'a) prog \<Rightarrow> (ssys, 'a) prog" where
  "on_sem p = lift ss_s (\<lambda>q s. s\<lparr>ss_s := q\<rparr>) p"

definition on_kern :: "(kernel, 'a) prog \<Rightarrow> (ssys, 'a) prog" where
  "on_kern p = lift ss_k (\<lambda>k s. s\<lparr>ss_k := k\<rparr>) p"

datatype taken = Taken bool | Asleep time

definition take_pass :: "tid \<Rightarrow> time \<Rightarrow> time option \<Rightarrow> (ssys, taken) prog" where
  "take_pass t wait_ticks wakeup = bind (on_sem (try_take t)) (\<lambda>ok.
     if ok then Return (Taken True)
     else if wait_ticks = 0 then Return (Taken False)
     else Read (\<lambda>s. case (case wakeup of Some w \<Rightarrow> Some w | None \<Rightarrow> expiry (ss_k s) wait_ticks) of
         None \<Rightarrow> Fail Panic
       | Some w \<Rightarrow> seq (on_kern (atomic_roll_forward_insert_into_waitlist (wait_list (ss_s s)) t w)) (Return (Asleep w))))"

text \<open>The loop, with what the other tasks do while this one sleeps as an argument.\<close>

primrec take_loop :: "(ssys \<Rightarrow> ssys) list \<Rightarrow> tid \<Rightarrow> time \<Rightarrow> time option \<Rightarrow> (ssys, taken) prog" where
  "take_loop [] t wait_ticks wakeup = take_pass t wait_ticks wakeup"
| "take_loop (e # es) t wait_ticks wakeup = bind (take_pass t wait_ticks wakeup) (\<lambda>r. case r of
     Taken b \<Rightarrow> Return (Taken b)
   | Asleep w \<Rightarrow> Write e (Read (\<lambda>s. take_loop es t (update_countdown (tick_counter (ss_k s)) w) (Some w))))"

definition semaphore_take :: "(ssys \<Rightarrow> ssys) list \<Rightarrow> time \<Rightarrow> (ssys, taken) prog" where
  "semaphore_take es wait_ticks = Read (\<lambda>s. let t = current_task (ss_k s) in
     if mutex_holder (ss_s s) = Some t then Return (Taken True) else take_loop es t wait_ticks None)"

text \<open>The result says whether to yield.\<close>

definition semaphore_give :: "(ssys, bool) prog" where
  "semaphore_give = bind (on_sem give) (\<lambda>unblock_task. if \<not> unblock_task then Return False
     else Read (\<lambda>s. let wl = wait_list (ss_s s); k = ss_k s in
       seq (on_kern (roll_forward_pop_remove_from_waitlist wl))
         (Return (case peek_front wl (k_lists k) of None \<Rightarrow> False
           | Some n \<Rightarrow> less_important_than k (current_task k) (item_task n) \<and>
               status (tasks k (item_task n)) = Ready))))"

interpretation sem_part: lens ss_s "\<lambda>q s. s\<lparr>ss_s := q\<rparr>"
  by unfold_locales simp_all

interpretation kern_part: lens ss_k "\<lambda>k s. s\<lparr>ss_k := k\<rparr>"
  by unfold_locales simp_all

lemmas ssys_lift = on_sem_def on_kern_def sem_part.exec_lift kern_part.exec_lift

section \<open>Counting\<close>

text \<open>A take that succeeds takes one unit, one that fails leaves the semaphore alone; giving never
  exceeds the size.\<close>

lemma exec_try_take: "exec (try_take t) s = (if s_count s > 0
   then Inr (True, s\<lparr>s_count := s_count s - 1, mutex_holder := Some t\<rparr>) else Inr (False, s))"
  by (simp add: try_take_def)

lemma exec_give: "s_count s \<le> s_size s \<Longrightarrow> exec give s = (if s_count s = s_size s then Inr (False, s)
   else Inr (True, s\<lparr>s_count := s_count s + 1\<rparr>))"
  by (auto simp: give_def)

datatype sem_op = TryTake tid | Give

primrec sem_run :: "sem_op list \<Rightarrow> (semaphore, bool list) prog" where
  "sem_run [] = Return []"
| "sem_run (c # cs) = bind (case c of TryTake t \<Rightarrow> try_take t | Give \<Rightarrow> give)
     (\<lambda>b. bind (sem_run cs) (\<lambda>bs. Return (b # bs)))"

definition succeeded :: "(sem_op \<Rightarrow> bool) \<Rightarrow> sem_op list \<Rightarrow> bool list \<Rightarrow> nat" where
  "succeeded P cs bs = length (filter (\<lambda>(c, b). P c \<and> b) (zip cs bs))"

lemma word_succ: "(c :: usize) < n \<Longrightarrow> unat (c + 1) = unat c + 1"
  using unsigned_less [of n, where ?'a = nat] by (simp add: unat_word_ariths word_less_nat_alt)

lemma word_pred: "(c :: usize) > 0 \<Longrightarrow> unat (c - 1) + 1 = unat c"
  using unat_minus_one [of c] unat_eq_0 [of c] by fastforce



section \<open>The holder of a mutex\<close>

text \<open>Waking when nobody waits.\<close>

lemma wake_nobody:
  assumes "sched_rel k A" "8 < wl" "waiting A wl = []"
  shows "\<exists>k'. exec (roll_forward_pop_remove_from_waitlist wl) k = Inr ((), k') \<and> current_task k' = current_task k"
    and "peek_front wl (k_lists k) = None"
proof -
  have "linear (k_lists k) wl []" using assms by (metis lists_rel_def list.map(1))
  then have h: "lhead (k_lists k) wl = None" by (simp add: linear_def)
  then show "peek_front wl (k_lists k) = None" by (simp add: peek_front_def)
  show "\<exists>k'. exec (roll_forward_pop_remove_from_waitlist wl) k = Inr ((), k') \<and> current_task k' = current_task k"
    using h by (simp add: roll_forward_pop_remove_from_waitlist_def tx_simps exec_on_lists optimized_pop_front_def
        start_op_log_def)
qed

text \<open>Claim C33. Giving a mutex back leaves its last holder recorded, so that task takes it again without
  using up the unit, and another task takes it at the same time: both have been told that they hold
  the mutex, and neither has given it back.\<close>

theorem mutex_held_by_two:
  assumes "sched_rel k A" "8 < wl" "waiting A wl = []" "current_task k = a" "a \<noteq> b"
  shows "\<exists>s'. exec (bind (semaphore_take [] 0) (\<lambda>r0. bind semaphore_give (\<lambda>y. bind (semaphore_take [] 0) (\<lambda>r1.
        Write (\<lambda>s. s\<lparr>ss_k := store_current b (ss_k s)\<rparr>) (bind (semaphore_take [] 0) (\<lambda>r2. Return (r0, y, r1, r2)))))))
      \<lparr>ss_k = k, ss_s = semaphore_new 1 wl\<rparr> = Inr ((Taken True, False, Taken True, Taken True), s')"
proof -
  obtain k' where k': "exec (roll_forward_pop_remove_from_waitlist wl) k = Inr ((), k')" "current_task k' = a"
    using wake_nobody(1) [OF assms(1-3)] assms(4) by blast
  have p: "peek_front wl (k_lists k) = None" by (rule wake_nobody(2) [OF assms(1-3)])
  let ?s0 = "\<lparr>ss_k = k, ss_s = semaphore_new 1 wl\<rparr>"
  let ?q1 = "(semaphore_new 1 wl)\<lparr>s_count := 0, mutex_holder := Some a\<rparr>"
  let ?q2 = "(semaphore_new 1 wl)\<lparr>s_count := 1, mutex_holder := Some a\<rparr>"
  have 0: "exec (semaphore_take [] 0) ?s0 = Inr (Taken True, \<lparr>ss_k = k, ss_s = ?q1\<rparr>)"
    using assms(4) by (simp add: semaphore_take_def semaphore_new_def take_pass_def exec_bind ssys_lift exec_try_take)
  have 1: "exec semaphore_give \<lparr>ss_k = k, ss_s = ?q1\<rparr> = Inr (False, \<lparr>ss_k = k', ss_s = ?q2\<rparr>)"
    using k'(1) p by (simp add: semaphore_give_def semaphore_new_def exec_bind exec_seq ssys_lift exec_give Let_def)
  have 2: "exec (semaphore_take [] 0) \<lparr>ss_k = k', ss_s = ?q2\<rparr> = Inr (Taken True, \<lparr>ss_k = k', ss_s = ?q2\<rparr>)"
    using k'(2) by (simp add: semaphore_take_def)
  have 3: "\<exists>s'. exec (semaphore_take [] 0) \<lparr>ss_k = store_current b k', ss_s = ?q2\<rparr> = Inr (Taken True, s')"
    using assms(5) by (simp add: semaphore_take_def store_current_def semaphore_new_def take_pass_def exec_bind ssys_lift exec_try_take)
  show ?thesis using 0 1 2 3 by (auto simp: exec_bind)
qed

theorem mutex_held_by_two_witness:
  "\<exists>s'. exec (bind (semaphore_take [] 0) (\<lambda>r0. bind semaphore_give (\<lambda>y. bind (semaphore_take [] 0) (\<lambda>r1.
        Write (\<lambda>s. s\<lparr>ss_k := store_current 2 (ss_k s)\<rparr>) (bind (semaphore_take [] 0) (\<lambda>r2. Return (r0, y, r1, r2)))))))
      \<lparr>ss_k = demo_kernel, ss_s = semaphore_new 1 20\<rparr> = Inr ((Taken True, False, Taken True, Taken True), s')"
  by (rule mutex_held_by_two [OF demo_kernel_rel, where a = 1]) (simp_all add: demo_sched_def demo_kernel_def)

section \<open>Waiting for a semaphore\<close>

text \<open>Taking an exhausted semaphore with a timeout puts the task to sleep on its wait list, entered
  by priority, and on the delay list; the semaphore is unchanged.\<close>

theorem take_exhausted_sleeps:
  assumes "s_count (ss_s s) = 0" "mutex_holder (ss_s s) \<noteq> Some t" "current_task (ss_k s) = t"
    and "wait_ticks \<noteq> 0" "expiry (ss_k s) wait_ticks = Some w"
    and "sched_rel (ss_k s) A" "prio_nat (ss_k s) t = p" "p < 8" "t \<in> set (ready A p)"
    and "wait_list (ss_s s) = wl" "8 < wl" "lowner (k_lists (ss_k s)) (event_node t) = None"
    and "length (waiting A wl) < 4095" "length (delayed A) < 4095"
  shows "\<exists>s'. exec (semaphore_take [] wait_ticks) s = Inr (Asleep w, s') \<and> ss_s s' = ss_s s \<and>
    sched_rel (ss_k s') (A\<lparr>ready := (ready A)(p := remove1 t (ready A p)),
      waiting := (waiting A)(wl := insert_at (\<lambda>u. prio_gt (prio_of (ss_k s) t) (prio_of (ss_k s) u)) t (waiting A wl)),
      delayed := insert_at (\<lambda>u. w > get_wakeup_time (set_wakeup_time t w (ss_k s)) u) t (delayed A)\<rparr>) \<and>
    status (tasks (ss_k s') t) = Blocked"
  using sleep_refines [OF assms(6-9,11-14), of w] assms(1-5,10)
  by (auto simp: semaphore_take_def take_pass_def exec_bind exec_seq ssys_lift exec_try_take)

theorem take_exhausted_sleeps_witness:
  "\<exists>s'. exec (semaphore_take [] 5) \<lparr>ss_k = demo_kernel, ss_s = semaphore_new 0 20\<rparr> = Inr (Asleep 14, s') \<and>
    ss_s s' = semaphore_new 0 20 \<and>
    sched_rel (ss_k s') (demo_sched\<lparr>ready := (\<lambda>_. [])(1 := [2]), waiting := (\<lambda>_. [])(20 := [1]), delayed := [1]\<rparr>) \<and>
    status (tasks (ss_k s') 1) = Blocked"
proof -
  have h: "current_task demo_kernel = 1" "wait_list (semaphore_new 0 20) = 20" "s_count (semaphore_new 0 20) = 0"
    "mutex_holder (semaphore_new 0 20) \<noteq> Some 1" "length (waiting demo_sched 20) < 4095" "length (delayed demo_sched) < 4095"
    by (simp_all add: demo_kernel_def demo_sched_def semaphore_new_def)
  show ?thesis
    using take_exhausted_sleeps [of "\<lparr>ss_k = demo_kernel, ss_s = semaphore_new 0 20\<rparr>" 1 5 14 demo_sched 1 20]
      h demo_facts demo_kernel_rel by (auto simp: demo_sched_def insert_at_def)
qed

text \<open>Giving a semaphore that is not full returns a unit and wakes the first waiting task, which
  leaves the wait list and the delay list and becomes ready. However important that task is, the
  giver does not yield to it: whether it is ready is tested before it is woken, and a waiting task
  is blocked.\<close>

theorem give_wakes_without_yield:
  assumes "s_count (ss_s s) < s_size (ss_s s)" "wait_list (ss_s s) = wl" "8 < wl"
    and "sched_rel (ss_k s) A" "\<not> list_tx_done (tasks (ss_k s) (current_task (ss_k s)))"
    and "waiting A wl = u # us" "u \<in> set (delayed A)" "status (tasks (ss_k s) u) = Blocked"
    and "prio_nat (ss_k s) u = p" "p < 8" "length (ready A p) < 4095"
  shows "\<exists>s'. exec semaphore_give s = Inr (False, s') \<and> ss_s s' = (ss_s s)\<lparr>s_count := s_count (ss_s s) + 1\<rparr> \<and>
    sched_rel (ss_k s') (A\<lparr>waiting := (waiting A)(wl := us), delayed := remove1 u (delayed A),
      ready := (ready A)(p := ready A p @ [u])\<rparr>) \<and> status (tasks (ss_k s') u) = Ready"
proof -
  obtain k where k: "exec (roll_forward_pop_remove_from_waitlist wl) (ss_k s) = Inr ((), k)"
      "sched_rel k (A\<lparr>waiting := (waiting A)(wl := us), delayed := remove1 u (delayed A),
        ready := (ready A)(p := ready A p @ [u])\<rparr>)" "status (tasks k u) = Ready"
    using wake_first_waiter_refines [OF assms(4,5,3,6,7,9-11)] by blast
  have "linear (k_lists (ss_k s)) wl (map event_node (u # us))" using assms(3,4,6) by (metis lists_rel_def)
  then have "peek_front wl (k_lists (ss_k s)) = Some (lvalue (k_lists (ss_k s)) (event_node u))"
    by (simp add: linear_def peek_front_def)
  moreover have "item_task (lvalue (k_lists (ss_k s)) (event_node u)) = u"
    using own_items_task(2) assms(4) by (simp add: lists_rel_def)
  ultimately have "exec semaphore_give s =
      Inr (False, s\<lparr>ss_s := (ss_s s)\<lparr>s_count := s_count (ss_s s) + 1\<rparr>, ss_k := k\<rparr>)"
    using k(1) assms(1,2,8) by (simp add: semaphore_give_def exec_bind exec_seq ssys_lift exec_give Let_def)
  then show ?thesis using k(2,3) by simp
qed

text \<open>Task 2, of the highest priority, waits; task 1 of priority 1 gives.\<close>

definition demo_giver :: ssys where
  "demo_giver = \<lparr>ss_k = demo_waiting\<lparr>tasks := (tasks demo_waiting)(2 := \<lparr>priority = Priority 0,
     status = Blocked, list_tx_done = False\<rparr>)\<rparr>, ss_s = (semaphore_new 1 20)\<lparr>s_count := 0\<rparr>\<rparr>"

theorem give_wakes_without_yield_witness:
  "\<exists>s'. exec semaphore_give demo_giver = Inr (False, s') \<and> s_count (ss_s s') = 1 \<and>
    sched_rel (ss_k s') \<lparr>ready = (\<lambda>_. [])(0 := [2], 1 := [1]), delayed = [], waiting = (\<lambda>_. [])\<rparr> \<and>
    status (tasks (ss_k s') 2) = Ready \<and> less_important_than (ss_k demo_giver) 1 2"
proof -
  let ?A = "\<lparr>ready = (\<lambda>_. [])(1 := [1]), delayed = [2], waiting = (\<lambda>_. [])(20 := [2])\<rparr>"
  have h: "s_count (ss_s demo_giver) < s_size (ss_s demo_giver)" "wait_list (ss_s demo_giver) = 20" "(8::nat) < 20"
    "\<not> list_tx_done (tasks (ss_k demo_giver) (current_task (ss_k demo_giver)))" "status (tasks (ss_k demo_giver) 2) = Blocked"
    "prio_nat (ss_k demo_giver) 2 = 0" "s_count (ss_s demo_giver) = 0" "less_important_than (ss_k demo_giver) 1 2"
    by (simp_all add: demo_giver_def semaphore_new_def demo_waiting_def demo_kernel_def prio_of_def less_important_than_def
        is_lower_than_def prio_gt_def)
  have r: "sched_rel (ss_k demo_giver) ?A" using demo_waiting_rel by (simp add: demo_giver_def lists_rel_def)
  have "?A\<lparr>waiting := (waiting ?A)(20 := []), delayed := remove1 2 (delayed ?A), ready := (ready ?A)(0 := ready ?A 0 @ [2])\<rparr> =
    \<lparr>ready = (\<lambda>_. [])(0 := [2], 1 := [1]), delayed = [], waiting = (\<lambda>_. [])\<rparr>" by (auto simp: fun_eq_iff)
  then show ?thesis using give_wakes_without_yield [OF h(1-3) r h(4) _ _ h(5,6)] h(7,8) by auto
qed

end
