(* ===== verification/EventGroup.thy ===== *)
theory EventGroup
  imports Sched
begin

text \<open>
  Event groups (\<open>src/event_group.rs\<close>): a set of event bits and the tasks that wait for some or all of
  them. What a task waits for is kept in the value of its list node, and a task that is woken finds
  there the bits that woke it, so that it still knows after a power failure. The top byte of the bits
  is reserved for control flags. An update of the bits is one store here; the kernel transaction around
  each of them, which lets a repeated call skip it, is the subject of \<open>Transaction\<close> and \<open>Syscall\<close>.
\<close>

section \<open>The event group\<close>

type_synonym EventBits = usize

definition CLEAR_EVENTS_ON_EXIT_BIT :: usize where
  "CLEAR_EVENTS_ON_EXIT_BIT = 0x01000000"

definition UNBLOCKED_DUE_TO_BIT_SET :: usize where
  "UNBLOCKED_DUE_TO_BIT_SET = 0x02000000"

definition WAIT_FOR_ALL_BITS :: usize where
  "WAIT_FOR_ALL_BITS = 0x04000000"

definition EVENT_BITS_CONTROL_BYTES :: usize where
  "EVENT_BITS_CONTROL_BYTES = 0xff000000"

record event_group =
  event_bits :: EventBits
  waiting_tasks :: addr

definition event_group_new :: "addr \<Rightarrow> event_group" where
  "event_group_new wl = \<lparr>event_bits = 0, waiting_tasks = wl\<rparr>"

definition get_event_bits :: "event_group \<Rightarrow> EventBits" where
  "get_event_bits eg = event_bits eg AND NOT EVENT_BITS_CONTROL_BYTES"

definition set_event_bits :: "EventBits \<Rightarrow> event_group \<Rightarrow> event_group" where
  "set_event_bits bits eg = eg\<lparr>event_bits := event_bits eg OR bits\<rparr>"

definition clear_event_bits :: "EventBits \<Rightarrow> event_group \<Rightarrow> event_group" where
  "clear_event_bits bits eg = eg\<lparr>event_bits := event_bits eg AND NOT bits\<rparr>"

definition wait_condition_ok :: "event_group \<Rightarrow> EventBits \<Rightarrow> bool \<Rightarrow> bool" where
  "wait_condition_ok eg bits_to_wait_for wait_for_all_bits =
     (if \<not> wait_for_all_bits then event_bits eg AND bits_to_wait_for \<noteq> 0
      else event_bits eg AND bits_to_wait_for = bits_to_wait_for)"

text \<open>The value of a task's event node.\<close>

definition set_opaque_value :: "addr \<Rightarrow> usize \<Rightarrow> kernel \<Rightarrow> kernel" where
  "set_opaque_value n v k = k\<lparr>k_lists := (k_lists k)\<lparr>lvalue := (lvalue (k_lists k))(n :=
     BlockedListItem (item_task (lvalue (k_lists k) n)) v)\<rparr>\<rparr>"

definition set_block_item_value :: "tid \<Rightarrow> usize \<Rightarrow> kernel \<Rightarrow> kernel" where
  "set_block_item_value t v k = set_opaque_value (event_node t) v k"

definition get_block_item_value :: "kernel \<Rightarrow> tid \<Rightarrow> usize" where
  "get_block_item_value k t = opaque (lvalue (k_lists k) (event_node t))"

section \<open>Waiting\<close>

record esys =
  es_k :: kernel
  es_eg :: event_group

definition on_eg :: "(event_group, 'a) prog \<Rightarrow> (esys, 'a) prog" where
  "on_eg p = lift es_eg (\<lambda>g s. s\<lparr>es_eg := g\<rparr>) p"

definition on_k :: "(kernel, 'a) prog \<Rightarrow> (esys, 'a) prog" where
  "on_k p = lift es_k (\<lambda>k s. s\<lparr>es_k := k\<rparr>) p"

text \<open>Putting the task to sleep on the wait list of the group.\<close>

definition block_on :: "tid \<Rightarrow> usize \<Rightarrow> time \<Rightarrow> (esys, EventBits option) prog" where
  "block_on t block_item_val wait_ticks =
     seq (on_k (writes [set_block_item_value t block_item_val]))
       (Read (\<lambda>s. case expiry (es_k s) wait_ticks of None \<Rightarrow> Fail Panic
        | Some w \<Rightarrow> seq (on_k (writes [set_wakeup_time t w]))
            (seq (on_k (roll_forward_insert_into_unsorted_waitlist (waiting_tasks (es_eg s)) t)) (Return None))))"

text \<open>Up to the yield: the bits when the call returns at once, \<open>None\<close> when the task is asleep.\<close>

definition wait_enter :: "tid \<Rightarrow> EventBits \<Rightarrow> bool \<Rightarrow> bool \<Rightarrow> time \<Rightarrow> (esys, EventBits option) prog" where
  "wait_enter t bits_to_wait_for clear_on_exit wait_for_all_bits wait_ticks = Read (\<lambda>s.
     let control_bits = (if clear_on_exit then CLEAR_EVENTS_ON_EXIT_BIT else 0) OR
           (if wait_for_all_bits then WAIT_FOR_ALL_BITS else 0) in
     if wait_condition_ok (es_eg s) bits_to_wait_for wait_for_all_bits then
       seq (if clear_on_exit then on_eg (writes [clear_event_bits bits_to_wait_for]) else Halt)
         (Return (Some (get_event_bits (es_eg s))))
     else if wait_ticks > 0 then block_on t (bits_to_wait_for OR control_bits) wait_ticks
     else Return (Some (get_event_bits (es_eg s))))"

text \<open>After the yield, \<open>event_bits\<close> being the value of the node.\<close>

definition wait_leave :: "usize \<Rightarrow> EventBits \<Rightarrow> bool \<Rightarrow> (esys, EventBits + EventBits) prog" where
  "wait_leave evbits bits_to_wait_for wait_for_all_bits = (let res = evbits AND NOT EVENT_BITS_CONTROL_BYTES in
     if evbits AND UNBLOCKED_DUE_TO_BIT_SET = 0 then
       Read (\<lambda>s. let ok = wait_condition_ok (es_eg s) bits_to_wait_for wait_for_all_bits in
         seq (if ok \<and> evbits AND CLEAR_EVENTS_ON_EXIT_BIT \<noteq> 0 then on_eg (writes [clear_event_bits bits_to_wait_for]) else Halt)
           (Return (if ok then Inr res else Inl res)))
     else Return (Inr res))"

text \<open>The whole call; \<open>env\<close> is what happens while the task is asleep.\<close>

definition wait_for_event_group_bits :: "(esys \<Rightarrow> esys) \<Rightarrow> EventBits \<Rightarrow> bool \<Rightarrow> bool \<Rightarrow> time \<Rightarrow>
    (esys, EventBits + EventBits) prog" where
  "wait_for_event_group_bits env bits_to_wait_for clear_on_exit wait_for_all_bits wait_ticks = Read (\<lambda>s.
     let t = current_task (es_k s); bits = get_block_item_value (es_k s) t in
     if bits AND UNBLOCKED_DUE_TO_BIT_SET \<noteq> 0 then Return (Inr (bits AND NOT EVENT_BITS_CONTROL_BYTES))
     else bind (wait_enter t bits_to_wait_for clear_on_exit wait_for_all_bits wait_ticks) (\<lambda>r. case r of
         Some res \<Rightarrow> Return (Inr res)
       | None \<Rightarrow> Write env (Read (\<lambda>s. wait_leave (get_block_item_value (es_k s) t) bits_to_wait_for wait_for_all_bits))))"

text \<open>The epilogue of the system call: the value is reset when the result has been recorded.\<close>

definition reset_block_item_value :: "tid \<Rightarrow> (esys, usize) prog" where
  "reset_block_item_value t = Read (\<lambda>s. let v = get_block_item_value (es_k s) t in
     seq (on_k (writes [set_block_item_value t 0])) (Return v))"

section \<open>Setting bits\<close>

definition unblocks :: "EventBits \<Rightarrow> usize \<Rightarrow> bool" where
  "unblocks bits_set evbits = (let bits_waiting_for = evbits AND NOT EVENT_BITS_CONTROL_BYTES in
     if evbits AND WAIT_FOR_ALL_BITS \<noteq> 0 then bits_waiting_for AND bits_set = bits_waiting_for
     else bits_waiting_for AND bits_set \<noteq> 0)"

text \<open>The loop over the waiting tasks. The iterator steps on before the body runs, so the node may leave
  the list; a list has less than 4096 members.\<close>

primrec set_loop :: "nat \<Rightarrow> addr option \<Rightarrow> EventBits \<Rightarrow> EventBits \<Rightarrow> bool \<Rightarrow> (esys, EventBits \<times> bool) prog" where
  "set_loop 0 nxt bits_set bits_to_clear yld = Fail Diverges"
| "set_loop (Suc n) nxt bits_set bits_to_clear yld = (case nxt of None \<Rightarrow> Return (bits_to_clear, yld)
   | Some node \<Rightarrow> Read (\<lambda>s. let k = es_k s; nxt' = lnext (k_lists k) node; block_item = lvalue (k_lists k) node;
        evbits = opaque block_item; t = item_task block_item in
      if unblocks bits_set evbits then
        seq (on_k (writes [set_opaque_value node (bits_set OR UNBLOCKED_DUE_TO_BIT_SET)]))
        (seq (on_k (roll_forward_remove_from_unsorted_waitlist (waiting_tasks (es_eg s)) node))
          (set_loop n nxt' bits_set
            (if evbits AND CLEAR_EVENTS_ON_EXIT_BIT \<noteq> 0
             then bits_to_clear OR (evbits AND NOT EVENT_BITS_CONTROL_BYTES) else bits_to_clear)
            (yld \<or> prio_gt (prio_of k t) (prio_of k (current_task k)))))
      else set_loop n nxt' bits_set bits_to_clear yld))"

text \<open>The result says whether to yield.\<close>

definition set_event_group_bits :: "EventBits \<Rightarrow> (esys, bool) prog" where
  "set_event_group_bits bits = seq (on_eg (writes [set_event_bits (bits AND NOT EVENT_BITS_CONTROL_BYTES)]))
     (Read (\<lambda>s. bind (set_loop 4096 (lhead (k_lists (es_k s)) (waiting_tasks (es_eg s))) (get_event_bits (es_eg s)) 0 False)
       (\<lambda>(bits_to_clear, yld). seq (on_eg (writes [clear_event_bits bits_to_clear])) (Return yld))))"

section \<open>Synchronising\<close>

definition sync_enter :: "tid \<Rightarrow> EventBits \<Rightarrow> EventBits \<Rightarrow> time \<Rightarrow> (esys, EventBits option) prog" where
  "sync_enter t bits_to_set bits_to_wait_for wait_ticks = Read (\<lambda>s. let original_bits = get_event_bits (es_eg s) in
     seq (set_event_group_bits bits_to_set)
       (if (original_bits OR bits_to_set) AND bits_to_wait_for = bits_to_wait_for then
          seq (on_eg (writes [clear_event_bits bits_to_wait_for])) (Return (Some (original_bits OR bits_to_set)))
        else if wait_ticks > 0 then
          block_on t (bits_to_wait_for OR CLEAR_EVENTS_ON_EXIT_BIT OR WAIT_FOR_ALL_BITS) wait_ticks
        else Read (\<lambda>s. Return (Some (get_event_bits (es_eg s))))))"

definition sync_event_group_bits :: "(esys \<Rightarrow> esys) \<Rightarrow> EventBits \<Rightarrow> EventBits \<Rightarrow> time \<Rightarrow>
    (esys, EventBits + EventBits) prog" where
  "sync_event_group_bits env bits_to_set bits_to_wait_for wait_ticks = Read (\<lambda>s. let t = current_task (es_k s) in
     bind (sync_enter t bits_to_set bits_to_wait_for wait_ticks) (\<lambda>r. case r of
       Some ret \<Rightarrow> Return (Inr ret)
     | None \<Rightarrow> Write env (bind (reset_block_item_value t) (\<lambda>evbits. wait_leave evbits bits_to_wait_for True))))"

interpretation eg_part: lens es_eg "\<lambda>g s. s\<lparr>es_eg := g\<rparr>"
  by unfold_locales simp_all

interpretation k_part: lens es_k "\<lambda>k s. s\<lparr>es_k := k\<rparr>"
  by unfold_locales simp_all

lemmas esys_lift = on_eg_def on_k_def eg_part.exec_lift k_part.exec_lift

section \<open>Setting bits wakes the right tasks\<close>

lemma linear_next: "linear m l (xs @ n # ys) \<Longrightarrow> lnext m n = fst_of ys None"
  by (auto simp: linear_def seg_append)

lemma wake_waiter_refines:
  assumes "sched_rel k A" "8 < w" "t \<in> set (waiting A w)" "t \<in> set (delayed A)"
    and "prio_nat k t = p" "p < 8" "length (ready A p) < 4095"
  shows "\<exists>k'. exec (roll_forward_remove_from_unsorted_waitlist w (event_node t)) k = Inr ((), k') \<and>
    sched_rel k' (A\<lparr>waiting := (waiting A)(w := remove1 t (waiting A w)), delayed := remove1 t (delayed A),
      ready := (ready A)(p := ready A p @ [t])\<rparr>) \<and>
    tasks k' = (tasks k)(t := (tasks k t)\<lparr>status := Ready\<rparr>) \<and>
    lvalue (k_lists k') = lvalue (k_lists k) \<and> current_task k' = current_task k"
proof -
  let ?k = "set_tx_op WaitListRemoval (set_block_node_ptr (Some (event_node t)) k)"
  let ?A1 = "A\<lparr>waiting := (waiting A)(w := remove1 t (waiting A w))\<rparr>"
  let ?A2 = "?A1\<lparr>delayed := remove1 t (delayed A)\<rparr>"
  obtain m1 where m1: "exec (on_lists (optimized_remove w (event_node t))) ?k = Inr ((), ?k\<lparr>k_lists := m1\<rparr>)"
    "only_list w (k_lists k) m1" "lists_rel m1 ?A1"
    using step_waitlist_remove [of ?k A w t] assms(1-3) by (auto simp: log_setters)
  obtain m2 where m2: "exec (remove_from_delayed_list t) (?k\<lparr>k_lists := m1\<rparr>) = Inr ((), ?k\<lparr>k_lists := m2\<rparr>)"
    "only_list 8 m1 m2" "lowner m2 (sched_node t) = None" "lists_rel m2 ?A2"
    using step_remove_delayed [of "?k\<lparr>k_lists := m1\<rparr>" ?A1 t] m1(3) assms(4) by auto
  have tk: "task_at (event_node t) (?k\<lparr>k_lists := m1\<rparr>) = t"
    using own_items_task(2) [of m1 t] m1(3) by (simp add: task_at_def lists_rel_def)
  have "prio_nat (?k\<lparr>k_lists := m2\<rparr>) t = p" using assms(5) by (simp add: prio_of_def log_setters)
  from step_add_ready [OF _ this assms(6), of ?A2] m2(3,4) assms(7) obtain m3 where
    m3: "exec (add_to_ready_list t) (?k\<lparr>k_lists := m2\<rparr>) = Inr ((), set_status t Ready (?k\<lparr>k_lists := m3\<rparr>))"
      "only_list p m2 m3" "lists_rel m3 (?A2\<lparr>ready := (ready A)(p := ready A p @ [t])\<rparr>)" by auto
  have "lvalue m3 = lvalue (k_lists k)" using m1(2) m2(2) m3(2) by (simp add: only_list_def)
  then show ?thesis using m1(1) m2(1) m3 tk
    by (auto simp: roll_forward_remove_from_unsorted_waitlist_def tx_simps Let_def)
qed

text \<open>What waking does to the abstract lists.\<close>

definition unblock_task :: "(tid \<Rightarrow> nat) \<Rightarrow> addr \<Rightarrow> tid \<Rightarrow> sched \<Rightarrow> sched" where
  "unblock_task pr wl t A = A\<lparr>waiting := (waiting A)(wl := remove1 t (waiting A wl)),
     delayed := remove1 t (delayed A), ready := (ready A)(pr t := ready A (pr t) @ [t])\<rparr>"

text \<open>Every waiting task is delayed too, has a valid priority and would find room in its ready list.\<close>

definition eg_roomy :: "kernel \<Rightarrow> sched \<Rightarrow> tid list \<Rightarrow> bool" where
  "eg_roomy k A ts \<longleftrightarrow> (\<forall>t\<in>set ts. t \<in> set (delayed A) \<and> prio_nat k t < 8) \<and>
     (\<forall>p<8. length (ready A p) + length ts < 4096)"

definition cleared_by :: "kernel \<Rightarrow> tid \<Rightarrow> EventBits \<Rightarrow> EventBits" where
  "cleared_by k t c = (let v = get_block_item_value k t in
     if v AND CLEAR_EVENTS_ON_EXIT_BIT \<noteq> 0 then c OR (v AND NOT EVENT_BITS_CONTROL_BYTES) else c)"

lemma set_opaque_rel: "sched_rel k A \<Longrightarrow> sched_rel (set_opaque_value (event_node t) v k) A"
  using own_items_task(2) [of "k_lists k" t]
  by (auto simp: set_opaque_value_def lists_rel_def own_items_def linear_def circular_def)

lemma get_block_item_set:
  "get_block_item_value (set_opaque_value (event_node t) v k) u = (if u = t then v else get_block_item_value k u)"
  by (simp add: get_block_item_value_def set_opaque_value_def)

text \<open>The tasks a set of bits wakes, and what they find in their nodes.\<close>

abbreviation woken :: "kernel \<Rightarrow> EventBits \<Rightarrow> tid list \<Rightarrow> tid list" where
  "woken k B ts \<equiv> filter (\<lambda>t. unblocks B (get_block_item_value k t)) ts"

lemma eg_roomy_step:
  assumes "eg_roomy k A (t # ts)" "distinct (t # ts)" "tasks k' = (tasks k)(t := (tasks k t)\<lparr>status := Ready\<rparr>)"
  shows "eg_roomy k' (unblock_task (prio_nat k) wl t A) ts" "prio_of k' = prio_of k"
proof -
  show pr: "prio_of k' = prio_of k" using assms(3) by (simp add: prio_of_def fun_eq_iff)
  show "eg_roomy k' (unblock_task (prio_nat k) wl t A) ts"
    using assms(1,2) unfolding eg_roomy_def unblock_task_def pr by (auto simp: in_set_remove1) (metis in_set_remove1)
qed

lemma set_loop_refines:
  assumes "sched_rel k A" "8 < wl" "waiting A wl = ds @ ts" "eg_roomy k A ts" "length ts < n"
    and "waiting_tasks g = wl"
  shows "\<exists>y k'. exec (set_loop n (fst_of (map event_node ts) None) B c yld) \<lparr>es_k = k, es_eg = g\<rparr> =
      Inr ((fold (cleared_by k) (woken k B ts) c, y), \<lparr>es_k = k', es_eg = g\<rparr>) \<and>
    sched_rel k' (fold (unblock_task (prio_nat k) wl) (woken k B ts) A) \<and>
    (\<forall>t. get_block_item_value k' t = (if t \<in> set (woken k B ts) then B OR UNBLOCKED_DUE_TO_BIT_SET
       else get_block_item_value k t)) \<and>
    (\<forall>t. status (tasks k' t) = (if t \<in> set (woken k B ts) then Ready else status (tasks k t)))"
  using assms(1-5)
proof (induction ts arbitrary: n k A ds c yld)
  case Nil
  then show ?case by (cases n) simp_all
next
  case (Cons t ts)
  obtain n' where n: "n = Suc n'" using Cons.prems(5) by (cases n) auto
  have lin: "linear (k_lists k) wl (map event_node ds @ event_node t # map event_node ts)"
    using Cons.prems(1-3) unfolding lists_rel_def by (metis list.simps(9) map_append)
  have nxt: "lnext (k_lists k) (event_node t) = fst_of (map event_node ts) None" by (rule linear_next [OF lin])
  have dist: "distinct (ds @ t # ts)" using lists_rel_distinct(3) [OF Cons.prems(1,2)] Cons.prems(3) by simp
  have it: "item_task (lvalue (k_lists k) (event_node t)) = t"
    using own_items_task(2) Cons.prems(1) by (simp add: lists_rel_def)
  show ?case
  proof (cases "unblocks B (get_block_item_value k t)")
    case False
    have "eg_roomy k A ts" using Cons.prems(4) by (auto simp: eg_roomy_def)
    from Cons.IH [OF Cons.prems(1,2) _ this, of "ds @ [t]" n'] Cons.prems(3,5) n False nxt show ?thesis
      by (simp add: Let_def get_block_item_value_def)
  next
    case True
    let ?k = "set_opaque_value (event_node t) (B OR UNBLOCKED_DUE_TO_BIT_SET) k" and ?p = "prio_nat k t"
    have k: "tasks ?k = tasks k" "prio_of ?k = prio_of k"
      by (simp_all add: set_opaque_value_def prio_of_def [abs_def])
    have r: "t \<in> set (delayed A)" "?p < 8" "length (ready A ?p) < 4095" "t \<in> set (waiting A wl)"
      using Cons.prems(3,4) unfolding eg_roomy_def by fastforce+
    obtain k1 where k1: "exec (roll_forward_remove_from_unsorted_waitlist wl (event_node t)) ?k = Inr ((), k1)"
        "sched_rel k1 (unblock_task (prio_nat k) wl t A)"
        "tasks k1 = (tasks k)(t := (tasks k t)\<lparr>status := Ready\<rparr>)" "lvalue (k_lists k1) = lvalue (k_lists ?k)"
      using wake_waiter_refines [OF set_opaque_rel [OF Cons.prems(1)] Cons.prems(2) r(4,1) _ r(2,3), of t "B OR UNBLOCKED_DUE_TO_BIT_SET"] k
      by (auto simp: unblock_task_def)
    have v: "get_block_item_value k1 u = (if u = t then B OR UNBLOCKED_DUE_TO_BIT_SET else get_block_item_value k u)" for u
      using k1(4) get_block_item_set [of t "B OR UNBLOCKED_DUE_TO_BIT_SET" k u] by (simp add: get_block_item_value_def)
    have nt: "t \<notin> set ts" "t \<notin> set ds" using dist by auto
    have wk: "woken k1 B ts = woken k B ts" using v nt(1) by (auto intro: filter_cong)
    have cb: "fold (cleared_by k1) (woken k B ts) x = fold (cleared_by k) (woken k B ts) x" for x
      using nt(1) v by (intro fold_cong) (auto simp: cleared_by_def fun_eq_iff)
    have "distinct (t # ts)" using dist by simp
    note step = eg_roomy_step(1) [OF Cons.prems(4) this k1(3), of wl] eg_roomy_step(2) [OF Cons.prems(4) this k1(3)]
    have w: "waiting (unblock_task (prio_nat k) wl t A) wl = ds @ ts"
      using Cons.prems(3) nt(2) by (simp add: unblock_task_def remove1_append)
    obtain y k2 where k2: "exec (set_loop n' (fst_of (map event_node ts) None) B (cleared_by k t c)
          (yld \<or> prio_gt (prio_of k t) (prio_of k (current_task k)))) \<lparr>es_k = k1, es_eg = g\<rparr> =
        Inr ((fold (cleared_by k) (woken k B ts) (cleared_by k t c), y), \<lparr>es_k = k2, es_eg = g\<rparr>)"
      "sched_rel k2 (fold (unblock_task (prio_nat k) wl) (woken k B ts) (unblock_task (prio_nat k) wl t A))"
      "\<forall>u. get_block_item_value k2 u = (if u \<in> set (woken k B ts) then B OR UNBLOCKED_DUE_TO_BIT_SET else get_block_item_value k1 u)"
      "\<forall>u. status (tasks k2 u) = (if u \<in> set (woken k B ts) then Ready else status (tasks k1 u))"
      using Cons.IH [OF k1(2) Cons.prems(2) w step(1), of n' "cleared_by k t c"
          "yld \<or> prio_gt (prio_of k t) (prio_of k (current_task k))"] Cons.prems(5) n
      unfolding wk cb step(2) by auto
    have "exec (set_loop n (fst_of (map event_node (t # ts)) None) B c yld) \<lparr>es_k = k, es_eg = g\<rparr> =
        Inr ((fold (cleared_by k) (woken k B (t # ts)) c, y), \<lparr>es_k = k2, es_eg = g\<rparr>)"
      using True k1(1) k2(1) n nxt it assms(6)
      by (simp add: Let_def get_block_item_value_def exec_seq esys_lift cleared_by_def split del: if_split cong: if_cong)
    then show ?thesis using k2(2-4) v k1(3) True by auto
  qed
qed

text \<open>What a waiting task asks for, read bit by bit: the flag at position 26 says whether all of the bits
  below position 24 have to be set or one of them.\<close>

definition satisfied :: "EventBits \<Rightarrow> usize \<Rightarrow> bool" where
  "satisfied B v \<longleftrightarrow> (if bit v 26 then \<forall>i<24. bit v i \<longrightarrow> bit B i else \<exists>i<24. bit v i \<and> bit B i)"

lemma control_bits: "bit EVENT_BITS_CONTROL_BYTES i \<longleftrightarrow> 24 \<le> i \<and> i < 32"
proof -
  have "EVENT_BITS_CONTROL_BYTES = push_bit 24 (mask 8)" by (simp add: EVENT_BITS_CONTROL_BYTES_def mask_eq_exp_minus_1)
  moreover have "bit (push_bit 24 (mask 8) :: usize) i \<longleftrightarrow> 24 \<le> i \<and> i < 32"
    unfolding bit_push_bit_iff bit_mask_iff by auto
  ultimately show ?thesis by argo
qed

lemma wait_for_all_bit: "v AND WAIT_FOR_ALL_BITS \<noteq> 0 \<longleftrightarrow> bit v 26"
  using and_exp_eq_0_iff_not_bit [of v 26] by (simp add: WAIT_FOR_ALL_BITS_def)

lemma unblocks_satisfied: "unblocks B v \<longleftrightarrow> satisfied B v"
proof -
  let ?w = "v AND NOT EVENT_BITS_CONTROL_BYTES"
  have w: "bit ?w i \<longleftrightarrow> i < 24 \<and> bit v i" for i
    by (auto simp: bit_simps control_bits dest: bit_imp_le_length)
  have "?w AND B = ?w \<longleftrightarrow> (\<forall>i. bit (?w AND B) i = bit ?w i)" by (metis bit_word_eqI)
  then have "?w AND B = ?w \<longleftrightarrow> (\<forall>i<24. bit v i \<longrightarrow> bit B i)"
    unfolding bit_and_iff [of ?w B] w by blast
  moreover have "?w AND B = 0 \<longleftrightarrow> (\<forall>i. \<not> bit (?w AND B) i)" by (metis bit_0_eq bit_word_eqI bot_apply bot_bool_def)
  then have "?w AND B \<noteq> 0 \<longleftrightarrow> (\<exists>i<24. bit v i \<and> bit B i)"
    unfolding bit_and_iff [of ?w B] w by blast
  ultimately show ?thesis unfolding unblocks_def satisfied_def wait_for_all_bit Let_def by simp
qed

text \<open>Claim C24. Setting event bits wakes exactly the waiting tasks whose condition the bits now fulfil, in
  the order of the wait list: each leaves the wait list and the delay list, becomes ready and finds
  the bits that woke it in its node; the others keep waiting. Afterwards the bits the woken tasks
  asked to be cleared are clear. The loop ends.\<close>

theorem set_wakes_satisfied:
  assumes "sched_rel k A" "8 < wl" "length (waiting A wl) < 4096" "eg_roomy k A (waiting A wl)"
    and "B = (bs OR (bits AND NOT EVENT_BITS_CONTROL_BYTES)) AND NOT EVENT_BITS_CONTROL_BYTES"
    and W: "W = filter (\<lambda>t. satisfied B (get_block_item_value k t)) (waiting A wl)"
  shows "\<exists>y k'. exec (set_event_group_bits bits) \<lparr>es_k = k, es_eg = \<lparr>event_bits = bs, waiting_tasks = wl\<rparr>\<rparr> =
      Inr (y, \<lparr>es_k = k', es_eg = \<lparr>event_bits = (bs OR (bits AND NOT EVENT_BITS_CONTROL_BYTES)) AND
        NOT (fold (cleared_by k) W 0), waiting_tasks = wl\<rparr>\<rparr>) \<and>
    sched_rel k' (fold (unblock_task (prio_nat k) wl) W A) \<and>
    waiting (fold (unblock_task (prio_nat k) wl) W A) wl = filter (\<lambda>t. t \<notin> set W) (waiting A wl) \<and>
    (\<forall>t\<in>set W. get_block_item_value k' t = B OR UNBLOCKED_DUE_TO_BIT_SET \<and> status (tasks k' t) = Ready)"
proof -
  let ?g = "\<lparr>event_bits = bs OR (bits AND NOT EVENT_BITS_CONTROL_BYTES), waiting_tasks = wl\<rparr>"
  have "linear (k_lists k) wl (map event_node (waiting A wl))" using assms(1,2) by (simp add: lists_rel_def)
  then have h: "lhead (k_lists k) wl = fst_of (map event_node (waiting A wl)) None" by (simp add: linear_def)
  obtain y k' where k': "exec (set_loop 4096 (fst_of (map event_node (waiting A wl)) None) B 0 False)
        \<lparr>es_k = k, es_eg = ?g\<rparr> = Inr ((fold (cleared_by k) W 0, y), \<lparr>es_k = k', es_eg = ?g\<rparr>)"
      "sched_rel k' (fold (unblock_task (prio_nat k) wl) W A)"
      "\<forall>t. get_block_item_value k' t = (if t \<in> set W then B OR UNBLOCKED_DUE_TO_BIT_SET else get_block_item_value k t)"
      "\<forall>t. status (tasks k' t) = (if t \<in> set W then Ready else status (tasks k t))"
    using set_loop_refines [OF assms(1,2) _ assms(4,3), of "[]" ?g B 0 False] W by (auto simp: unblocks_satisfied)
  have B: "get_event_bits ?g = B" using assms(5) by (simp add: get_event_bits_def)
  have "exec (set_event_group_bits bits) \<lparr>es_k = k, es_eg = \<lparr>event_bits = bs, waiting_tasks = wl\<rparr>\<rparr> =
      Inr (y, \<lparr>es_k = k', es_eg = \<lparr>event_bits = (bs OR (bits AND NOT EVENT_BITS_CONTROL_BYTES)) AND
        NOT (fold (cleared_by k) W 0), waiting_tasks = wl\<rparr>\<rparr>)"
    using k'(1) h B by (simp add: set_event_group_bits_def exec_seq exec_bind esys_lift set_event_bits_def clear_event_bits_def)
  moreover have "waiting (fold (unblock_task pr wl) us A) wl = fold remove1 us (waiting A wl)" for pr us
    by (induction us arbitrary: A) (simp_all add: unblock_task_def)
  moreover have "distinct xs \<Longrightarrow> fold remove1 us xs = filter (\<lambda>t. t \<notin> set us) xs" for us xs :: "tid list"
    by (induction us arbitrary: xs) (auto simp: distinct_remove1_removeAll removeAll_filter_not_eq intro: filter_cong)
  ultimately show ?thesis using k'(2-4) lists_rel_distinct(3) [OF assms(1,2)] by auto
qed

text \<open>Task 2 waits for bit 0 or bit 1, to be cleared when they come; bit 0 is set.\<close>

definition demo_eg_kernel :: kernel where
  "demo_eg_kernel = set_block_item_value 2 (3 OR CLEAR_EVENTS_ON_EXIT_BIT) demo_waiting"

definition demo_eg_sched :: sched where
  "demo_eg_sched = \<lparr>ready = (\<lambda>_. [])(1 := [1]), delayed = [2], waiting = (\<lambda>_. [])(20 := [2])\<rparr>"

lemma demo_eg_rel: "sched_rel demo_eg_kernel demo_eg_sched"
  unfolding demo_eg_kernel_def demo_eg_sched_def set_block_item_value_def by (rule set_opaque_rel [OF demo_waiting_rel])

lemma demo_eg_facts: "get_block_item_value demo_eg_kernel 2 = 3 OR CLEAR_EVENTS_ON_EXIT_BIT"
  "prio_nat demo_eg_kernel 2 = 1"
  by (simp_all add: demo_eg_kernel_def set_block_item_value_def get_block_item_set)
    (simp add: set_opaque_value_def prio_of_def demo_waiting_def demo_kernel_def)

lemma demo_eg_woken: "filter (\<lambda>t. satisfied 1 (get_block_item_value demo_eg_kernel t)) (waiting demo_eg_sched 20) = [2]"
  by (simp flip: unblocks_satisfied) (simp add: demo_eg_sched_def demo_eg_facts unblocks_def CLEAR_EVENTS_ON_EXIT_BIT_def WAIT_FOR_ALL_BITS_def
      EVENT_BITS_CONTROL_BYTES_def)

theorem set_wakes_satisfied_witness:
  "\<exists>y k'. exec (set_event_group_bits 1) \<lparr>es_k = demo_eg_kernel, es_eg = \<lparr>event_bits = 0, waiting_tasks = 20\<rparr>\<rparr> =
      Inr (y, \<lparr>es_k = k', es_eg = \<lparr>event_bits = 0, waiting_tasks = 20\<rparr>\<rparr>) \<and>
    sched_rel k' \<lparr>ready = (\<lambda>_. [])(1 := [1, 2]), delayed = [], waiting = (\<lambda>_. [])\<rparr> \<and> status (tasks k' 2) = Ready"
proof -
  have "eg_roomy demo_eg_kernel demo_eg_sched (waiting demo_eg_sched 20)"
    using demo_eg_facts by (auto simp: eg_roomy_def demo_eg_sched_def)
  moreover have "length (waiting demo_eg_sched 20) < 4096" by (simp add: demo_eg_sched_def)
  moreover have "(1 :: usize) = (0 OR (1 AND NOT EVENT_BITS_CONTROL_BYTES)) AND NOT EVENT_BITS_CONTROL_BYTES"
    by (simp add: EVENT_BITS_CONTROL_BYTES_def)
  moreover have "fold (cleared_by demo_eg_kernel) [2] 0 = 3"
    by (simp add: cleared_by_def demo_eg_facts Let_def CLEAR_EVENTS_ON_EXIT_BIT_def EVENT_BITS_CONTROL_BYTES_def)
  moreover have "(0 OR (1 AND NOT EVENT_BITS_CONTROL_BYTES)) AND NOT (3 :: usize) = 0"
    by (simp add: EVENT_BITS_CONTROL_BYTES_def)
  moreover have "fold (unblock_task (prio_nat demo_eg_kernel) 20) [2] demo_eg_sched =
      \<lparr>ready = (\<lambda>_. [])(1 := [1, 2]), delayed = [], waiting = (\<lambda>_. [])\<rparr>"
    by (auto simp: unblock_task_def demo_eg_sched_def demo_eg_facts fun_eq_iff)
  ultimately show ?thesis
    using set_wakes_satisfied [OF demo_eg_rel, of 20 1 0 1 "[2]"] demo_eg_woken by auto
qed

section \<open>Waiting and being woken\<close>

lemma step_waitlist_push:
  assumes "sched_rel k A" "w > 8" "lowner (k_lists k) (event_node t) = None" "length (waiting A w) < 4095"
  shows "\<exists>m. exec (on_lists (optimized_insert_front w (event_node t))) k = Inr ((), k\<lparr>k_lists := m\<rparr>) \<and>
    only_list w (k_lists k) m \<and> lists_rel m (A\<lparr>waiting := (waiting A)(w := t # waiting A w)\<rparr>)"
proof -
  have "linear (k_lists k) w (map event_node (waiting A w))" using assms(1,2) by (simp add: lists_rel_def)
  from optimized_insert_front_linear [OF this assms(3)] assms(4)
  obtain m where m: "exec (optimized_insert_front w (event_node t)) (k_lists k) = Inr ((), m)"
      "linear m w (map event_node (t # waiting A w))" "only_list w (k_lists k) m" by auto
  then show ?thesis using lists_rel_waiting [OF assms(1) m(3) assms(2) m(2)] by (auto simp: exec_on_lists)
qed

lemma block_on_group_refines:
  assumes "sched_rel k A" "prio_nat k t = p" "p < 8" "t \<in> set (ready A p)"
    and "8 < w" "lowner (k_lists k) (event_node t) = None" "length (waiting A w) < 4095" "length (delayed A) < 4095"
  shows "\<exists>k'. exec (roll_forward_insert_into_unsorted_waitlist w t) k = Inr ((), k') \<and>
    sched_rel k' (A\<lparr>ready := (ready A)(p := remove1 t (ready A p)),
      waiting := (waiting A)(w := t # waiting A w), delayed := insert_at (wakes_later k t) t (delayed A)\<rparr>) \<and>
    status (tasks k' t) = Blocked \<and> lvalue (k_lists k') = lvalue (k_lists k)"
proof -
  let ?k = "set_tx_op UnsortedWaitListInsert (set_wait_list_ptr (Some w) k)"
  let ?A1 = "A\<lparr>ready := (ready A)(p := remove1 t (ready A p))\<rparr>"
  let ?A2 = "?A1\<lparr>waiting := (waiting A)(w := t # waiting A w)\<rparr>"
  have r: "sched_rel ?k A" "prio_nat ?k t = p" using assms by (simp_all add: log_setters prio_of_def)
  obtain m1 where m1: "exec (remove_from_ready_list t) ?k = Inr ((), ?k\<lparr>k_lists := m1\<rparr>)"
    "only_list p (k_lists k) m1" "lowner m1 (sched_node t) = None" "lists_rel m1 ?A1"
    using step_remove_ready [OF r assms(3,4)] by (auto simp: log_setters)
  have ev: "lowner m1 (event_node t) = None"
  proof (cases "lowner m1 (event_node t)")
    case (Some l)
    then have "8 < l" using event_node_owner(1) [OF m1(4)] by auto
    then show ?thesis using m1(2) assms(3,6) Some by (auto simp: only_list_def)
  qed
  obtain m2 where m2: "exec (on_lists (optimized_insert_front w (event_node t))) (?k\<lparr>k_lists := m1\<rparr>) =
      Inr ((), ?k\<lparr>k_lists := m2\<rparr>)" "only_list w m1 m2" "lists_rel m2 ?A2"
    using step_waitlist_push [of "?k\<lparr>k_lists := m1\<rparr>" ?A1 w t] m1(4) assms(5,7) ev by auto
  have sn: "lowner m2 (sched_node t) = None"
  proof (cases "lowner m2 (sched_node t)")
    case (Some l)
    then have "l \<le> 8" using sched_node_owner [OF m2(3)] by auto
    then show ?thesis using m2(2) assms(5) m1(3) Some by (auto simp: only_list_def)
  qed
  have w: "wakes_later (?k\<lparr>k_lists := m2\<rparr>) t = wakes_later k t" "lvalue m2 = lvalue (k_lists k)"
    using m1(2) m2(2) by (simp_all add: wakes_later_def [abs_def] get_wakeup_time_def [abs_def] only_list_def)
  from step_add_delayed [of "?k\<lparr>k_lists := m2\<rparr>" ?A2 t] m2(3) sn assms(8) w show ?thesis
    using m1(1) m2(1) by (auto simp: roll_forward_insert_into_unsorted_waitlist_def tx_simps only_list_def)
qed

lemma block_on_sleeps:
  assumes "sched_rel (es_k s) A" "prio_nat (es_k s) t = p" "p < 8" "t \<in> set (ready A p)"
    and "waiting_tasks (es_eg s) = wl" "8 < wl" "lowner (k_lists (es_k s)) (event_node t) = None"
    and "length (waiting A wl) < 4095" "length (delayed A) < 4095" "expiry (es_k s) wait_ticks = Some w"
  shows "\<exists>s'. exec (block_on t v wait_ticks) s = Inr (None, s') \<and> es_eg s' = es_eg s \<and>
    sched_rel (es_k s') (A\<lparr>ready := (ready A)(p := remove1 t (ready A p)), waiting := (waiting A)(wl := t # waiting A wl),
      delayed := insert_at (\<lambda>u. w > get_wakeup_time (set_wakeup_time t w (es_k s)) u) t (delayed A)\<rparr>) \<and>
    get_block_item_value (es_k s') t = v \<and> status (tasks (es_k s') t) = Blocked"
proof -
  let ?k1 = "set_block_item_value t v (es_k s)"
  let ?k = "set_wakeup_time t w ?k1"
  have e: "expiry ?k1 wait_ticks = Some w"
    using assms(10) by (auto simp: expiry_def set_block_item_value_def set_opaque_value_def split: if_splits)
  have pr: "prio_nat ?k t = p" "lowner (k_lists ?k) (event_node t) = None"
    using assms(2,7) by (simp_all add: prio_of_def set_wakeup_time_def set_block_item_value_def set_opaque_value_def)
  have wk: "wakes_later ?k t = (\<lambda>u. w > get_wakeup_time (set_wakeup_time t w (es_k s)) u)"
    by (simp add: wakes_later_def [abs_def] get_wakeup_time_def set_wakeup_time_def set_block_item_value_def
        set_opaque_value_def fun_eq_iff)
  have rel: "sched_rel ?k A"
    unfolding set_block_item_value_def by (intro set_wakeup_time_rel set_opaque_rel assms(1))
  obtain k' where k': "exec (roll_forward_insert_into_unsorted_waitlist wl t) ?k = Inr ((), k')"
      "sched_rel k' (A\<lparr>ready := (ready A)(p := remove1 t (ready A p)), waiting := (waiting A)(wl := t # waiting A wl),
        delayed := insert_at (wakes_later ?k t) t (delayed A)\<rparr>)"
      "status (tasks k' t) = Blocked" "lvalue (k_lists k') = lvalue (k_lists ?k)"
    using block_on_group_refines [OF rel pr(1) assms(3,4,6) pr(2) assms(8,9)] by blast
  have v: "get_block_item_value k' t = v"
    using k'(4) by (simp add: get_block_item_value_def set_wakeup_time_def set_block_item_value_def set_opaque_value_def)
  have "exec (block_on t v wait_ticks) s = Inr (None, s\<lparr>es_k := k'\<rparr>)"
    using k'(1) e assms(5) by (simp add: block_on_def exec_seq esys_lift)
  then show ?thesis using k'(2,3) v unfolding wk by auto
qed

text \<open>A task that waits for bits that are not set, with a timeout, goes to sleep: it leaves its
  ready list, enters the wait list of the group and the delay list with the current time plus the
  timeout, and its node says what it waits for and how; the group is unchanged.\<close>

theorem wait_unsatisfied_sleeps:
  assumes "\<not> wait_condition_ok (es_eg s) bits all_bits" "0 < wait_ticks" "expiry (es_k s) wait_ticks = Some w"
    and "sched_rel (es_k s) A" "prio_nat (es_k s) t = p" "p < 8" "t \<in> set (ready A p)"
    and "waiting_tasks (es_eg s) = wl" "8 < wl" "lowner (k_lists (es_k s)) (event_node t) = None"
    and "length (waiting A wl) < 4095" "length (delayed A) < 4095"
  shows "\<exists>s'. exec (wait_enter t bits clear_on_exit all_bits wait_ticks) s = Inr (None, s') \<and> es_eg s' = es_eg s \<and>
    sched_rel (es_k s') (A\<lparr>ready := (ready A)(p := remove1 t (ready A p)), waiting := (waiting A)(wl := t # waiting A wl),
      delayed := insert_at (\<lambda>u. w > get_wakeup_time (set_wakeup_time t w (es_k s)) u) t (delayed A)\<rparr>) \<and>
    get_block_item_value (es_k s') t = bits OR ((if clear_on_exit then CLEAR_EVENTS_ON_EXIT_BIT else 0) OR
      (if all_bits then WAIT_FOR_ALL_BITS else 0)) \<and> status (tasks (es_k s') t) = Blocked"
  using block_on_sleeps [OF assms(4-12,3)] assms(1,2) by (simp add: wait_enter_def Let_def)

theorem wait_unsatisfied_sleeps_witness:
  "\<exists>s'. exec (wait_enter 1 6 True True 5) \<lparr>es_k = demo_kernel, es_eg = event_group_new 20\<rparr> = Inr (None, s') \<and>
    sched_rel (es_k s') (demo_sched\<lparr>ready := (\<lambda>_. [])(1 := [2]), waiting := (\<lambda>_. [])(20 := [1]), delayed := [1]\<rparr>) \<and>
    get_block_item_value (es_k s') 1 = 0x05000006 \<and> status (tasks (es_k s') 1) = Blocked"
proof -
  let ?s = "\<lparr>es_k = demo_kernel, es_eg = event_group_new 20\<rparr>"
  have h: "\<not> wait_condition_ok (es_eg ?s) 6 True" "waiting_tasks (es_eg ?s) = 20"
    "length (waiting demo_sched 20) < 4095" "length (delayed demo_sched) < 4095"
    by (simp_all add: event_group_new_def wait_condition_ok_def demo_sched_def)
  have "(6 :: usize) OR (CLEAR_EVENTS_ON_EXIT_BIT OR WAIT_FOR_ALL_BITS) = 0x05000006"
    by (simp add: CLEAR_EVENTS_ON_EXIT_BIT_def WAIT_FOR_ALL_BITS_def)
  then show ?thesis
    using wait_unsatisfied_sleeps [of ?s 6 True 5 14 demo_sched 1 1 20 True] h demo_facts demo_kernel_rel
    by (auto simp: demo_sched_def insert_at_def)
qed



end
