(* ===== verification/Sorting.thy ===== *)
theory Sorting
  imports Prelude "HOL-Library.Multiset"
begin

text \<open>
  The generic helpers of \<open>src/util.rs\<close>: \<open>max\<close>, \<open>min\<close> and the bubble sort that stops early, on a
  linearly ordered element type.
\<close>

definition util_max :: "'a::linorder \<Rightarrow> 'a \<Rightarrow> 'a" where
  "util_max v1 v2 = (if v1 \<ge> v2 then v1 else v2)"

definition util_min :: "'a::linorder \<Rightarrow> 'a \<Rightarrow> 'a" where
  "util_min v1 v2 = (if v1 \<le> v2 then v1 else v2)"

definition swap :: "nat \<Rightarrow> nat \<Rightarrow> 'a list \<Rightarrow> 'a list" where
  "swap i j xs = xs[i := xs ! j, j := xs ! i]"

text \<open>One step of the inner loop, the inner loop up to \<open>i\<close>, and the outer loop over \<open>i, \<dots>, 0\<close>, which
  ends with the first pass that swaps nothing.\<close>

definition bubble_step :: "nat \<Rightarrow> 'a::linorder list \<times> bool \<Rightarrow> 'a list \<times> bool" where
  "bubble_step j a = (if fst a ! j > fst a ! (j + 1) then (swap j (j + 1) (fst a), True) else a)"

definition bubble_pass :: "nat \<Rightarrow> 'a::linorder list \<Rightarrow> 'a list \<times> bool" where
  "bubble_pass i input = fold bubble_step [0..<i] (input, False)"

primrec bubble_loop :: "nat \<Rightarrow> 'a::linorder list \<Rightarrow> 'a list" where
  "bubble_loop 0 input = input"
| "bubble_loop (Suc i) input = (let a = bubble_pass i input in if snd a then bubble_loop i (fst a) else fst a)"

definition bubble_sort :: "'a::linorder list \<Rightarrow> 'a list" where
  "bubble_sort input = (if length input < 2 then input else bubble_loop (length input) input)"

section \<open>The inner loop\<close>

lemma swap_facts:
  assumes "Suc j < k" "k \<le> length xs"
  shows "length (swap j (Suc j) xs) = length xs" "mset (swap j (Suc j) xs) = mset xs"
    "set (take k (swap j (Suc j) xs)) = set (take k xs)" "drop k (swap j (Suc j) xs) = drop k xs"
    "swap j (Suc j) xs ! Suc j = xs ! j" "swap j (Suc j) xs ! j = xs ! Suc j"
    "p \<noteq> j \<Longrightarrow> p \<noteq> Suc j \<Longrightarrow> swap j (Suc j) xs ! p = xs ! p"
proof -
  show "mset (swap j (Suc j) xs) = mset xs" using assms by (simp add: swap_def mset_swap)
  have "take k (swap j (Suc j) xs) = (take k xs)[j := take k xs ! Suc j, Suc j := take k xs ! j]"
    using assms by (simp add: swap_def take_update_swap)
  also have "set \<dots> = set (take k xs)" using assms by (intro set_swap) simp_all
  finally show "set (take k (swap j (Suc j) xs)) = set (take k xs)" .
qed (use assms in \<open>simp_all add: swap_def drop_update_cancel\<close>)

definition passed :: "nat \<Rightarrow> nat \<Rightarrow> 'a::linorder list \<Rightarrow> 'a list \<times> bool \<Rightarrow> bool" where
  "passed i j xs a \<longleftrightarrow> length (fst a) = length xs \<and> mset (fst a) = mset xs \<and>
     set (take (Suc i) (fst a)) = set (take (Suc i) xs) \<and> drop (Suc i) (fst a) = drop (Suc i) xs \<and>
     (\<forall>p\<le>j. fst a ! p \<le> fst a ! j) \<and> (\<not> snd a \<longrightarrow> fst a = xs \<and> (\<forall>p<j. xs ! p \<le> xs ! Suc p))"

lemma passed_step:
  assumes "passed i j xs a" "j < i" "i < length xs"
  shows "passed i (Suc j) xs (bubble_step j a)"
proof (cases "fst a ! j > fst a ! Suc j")
  case True
  let ?ys = "fst a"
  have "Suc j < Suc i" "Suc i \<le> length ?ys" using assms by (simp_all add: passed_def)
  note s = swap_facts [OF this]
  have "swap j (Suc j) ?ys ! p \<le> swap j (Suc j) ?ys ! Suc j" if "p \<le> Suc j" for p
    using that True assms(1) s(5,6) s(7) [of p] by (cases "p = j"; cases "p = Suc j") (auto simp: passed_def)
  then show ?thesis using True assms(1) s by (auto simp: passed_def bubble_step_def)
next
  case False
  have "fst a ! p \<le> fst a ! Suc j" if "p \<le> Suc j" for p
  proof (cases "p = Suc j")
    case p: False
    then have "fst a ! p \<le> fst a ! j" using that assms(1) by (simp add: passed_def)
    also have "\<dots> \<le> fst a ! Suc j" using False by simp
    finally show ?thesis .
  qed simp
  with False assms(1) show ?thesis by (auto simp: passed_def bubble_step_def less_Suc_eq)
qed

lemma bubble_pass_passed:
  assumes "i < length xs"
  shows "passed i i xs (bubble_pass i xs)"
proof -
  have "j \<le> i \<Longrightarrow> passed i j xs (fold bubble_step [0..<j] (xs, False))" for j
  proof (induction j)
    case 0
    then show ?case by (simp add: passed_def)
  next
    case (Suc j)
    then show ?case using passed_step [of i j xs] assms by simp
  qed
  then show ?thesis by (simp add: bubble_pass_def)
qed

section \<open>The outer loop\<close>

definition tail_sorted :: "nat \<Rightarrow> 'a::linorder list \<Rightarrow> bool" where
  "tail_sorted k xs \<longleftrightarrow> sorted (drop k xs) \<and> (\<forall>x\<in>set (take k xs). \<forall>y\<in>set (drop k xs). x \<le> y)"

lemma tail_sorted_step:
  assumes "tail_sorted (Suc i) xs" "passed i i xs a" "i < length xs"
  shows "tail_sorted i (fst a)" "\<not> snd a \<Longrightarrow> sorted (fst a)"
proof -
  let ?ys = "fst a"
  have p: "length ?ys = length xs" "set (take (Suc i) ?ys) = set (take (Suc i) xs)" "drop (Suc i) ?ys = drop (Suc i) xs"
    using assms(2) by (simp_all add: passed_def)
  have d: "drop i ?ys = ?ys ! i # drop (Suc i) xs" using p assms(3) by (metis Cons_nth_drop_Suc)
  have t: "take (Suc i) ?ys = take i ?ys @ [?ys ! i]" using p assms(3) by (simp add: take_Suc_conv_app_nth)
  have le: "x \<le> y" if "x \<in> set (take (Suc i) ?ys)" "y \<in> set (drop (Suc i) xs)" for x y
    using that p(2) assms(1) by (simp add: tail_sorted_def)
  have top: "x \<le> ?ys ! i" if "x \<in> set (take i ?ys)" for x
    using that assms(2) by (auto simp: passed_def in_set_conv_nth)
  show "tail_sorted i ?ys"
    using assms(1) le top unfolding tail_sorted_def d t by auto
  show "sorted ?ys" if "\<not> snd a"
  proof -
    have "?ys = xs" "sorted (take (Suc i) xs)"
      using that assms(2,3) by (auto simp: passed_def sorted_iff_nth_Suc)
    then show ?thesis
      using assms(1) sorted_append [of "take (Suc i) xs" "drop (Suc i) xs"] by (simp add: tail_sorted_def)
  qed
qed

lemma bubble_loop_sorts:
  "tail_sorted k xs \<Longrightarrow> k \<le> length xs \<Longrightarrow> sorted (bubble_loop k xs) \<and> mset (bubble_loop k xs) = mset xs"
proof (induction k arbitrary: xs)
  case 0
  then show ?case by (simp add: tail_sorted_def)
next
  case (Suc i)
  let ?a = "bubble_pass i xs"
  have i: "i < length xs" using Suc.prems(2) by simp
  note pass = bubble_pass_passed [OF i]
  note step = tail_sorted_step [OF Suc.prems(1) pass i]
  have "length (fst ?a) = length xs" "mset (fst ?a) = mset xs" using pass by (simp_all add: passed_def)
  then show ?case using Suc.IH [of "fst ?a"] step i by (auto simp: Let_def)
qed

text \<open>The bubble sort returns a sorted permutation of its input, also when it stops early.\<close>

theorem bubble_sort_sorts: "sorted (bubble_sort xs) \<and> mset (bubble_sort xs) = mset xs"
proof (cases "length xs < 2")
  case True
  then have "sorted xs" by (cases xs; cases "tl xs") auto
  with True show ?thesis by (simp add: bubble_sort_def)
next
  case False
  then show ?thesis using bubble_loop_sorts [of "length xs" xs] by (simp add: bubble_sort_def tail_sorted_def)
qed

end
