(* ===== verification/Heap.thy ===== *)
theory Heap
  imports Pmem Task
begin

text \<open>
  The heaps (\<open>src/heap.rs\<close>): a volatile bump allocator, the persistent region that is divided among
  the tasks, and the persistent bump allocator each task has in its part. The persistent allocators
  are objects in persistent memory; a transaction that allocates logs them first. An address of 0 is
  the null pointer. Objects have their fields in the order of the source.
\<close>

section \<open>The bump allocator\<close>

record BumpAllocator =
  heap_start :: usize
  heap_end :: usize
  bump_next :: usize

record Layout =
  l_size :: usize
  l_align :: usize

definition checked_add :: "usize \<Rightarrow> usize \<Rightarrow> usize option" where
  "checked_add a b = (if unat a + unat b < 2 ^ 32 then Some (a + b) else None)"

definition per_task_alloc :: "Layout \<Rightarrow> (BumpAllocator, usize) prog" where
  "per_task_alloc layout = Read (\<lambda>b. let alloc_start = align_up (bump_next b) (l_align layout) in
     case checked_add alloc_start (l_size layout) of
       None \<Rightarrow> Return 0
     | Some alloc_end \<Rightarrow> if alloc_end > heap_end b then Return 0
         else Write (\<lambda>b. b\<lparr>bump_next := alloc_end\<rparr>) (Return alloc_start))"

definition bump_alloc :: "Layout \<Rightarrow> (BumpAllocator, usize) prog" where
  "bump_alloc layout = Read (\<lambda>b. let alloc_start = align_up (bump_next b) (l_align layout) in
     case checked_add alloc_start (l_size layout) of
       None \<Rightarrow> Return 0
     | Some alloc_end \<Rightarrow> if alloc_end > heap_end b then Return 0
         else Write (\<lambda>b. b\<lparr>bump_next := alloc_end\<rparr>) (Return alloc_start))"

definition bump_dealloc :: "usize \<Rightarrow> Layout \<Rightarrow> (BumpAllocator, unit) prog" where
  "bump_dealloc ptr layout = Halt"

definition bump_init :: "usize \<Rightarrow> usize \<Rightarrow> (BumpAllocator, unit) prog" where
  "bump_init start sz = writes [\<lambda>b. b\<lparr>heap_start := start\<rparr>, \<lambda>b. b\<lparr>heap_end := start + sz\<rparr>,
     \<lambda>b. b\<lparr>bump_next := start\<rparr>]"

definition bump_reset :: "(BumpAllocator, unit) prog" where
  "bump_reset = writes [\<lambda>b. b\<lparr>bump_next := heap_start b\<rparr>]"

record MemStat =
  mem_used :: usize
  mem_left :: usize

definition bump_stat :: "BumpAllocator \<Rightarrow> MemStat" where
  "bump_stat b = \<lparr>mem_used = bump_next b - heap_start b, mem_left = heap_end b - bump_next b\<rparr>"

record GlobalPMHeap =
  g_end :: usize
  g_next :: usize

definition global_init :: "usize \<Rightarrow> usize \<Rightarrow> (GlobalPMHeap, unit) prog" where
  "global_init start sz = writes [\<lambda>g. g\<lparr>g_next := start\<rparr>, \<lambda>g. g\<lparr>g_end := start + sz\<rparr>]"

section \<open>Allocators in persistent memory\<close>

definition word_at :: "(usize \<Rightarrow> byte) \<Rightarrow> usize \<Rightarrow> usize" where
  "word_at m a = get_word (\<lambda>i. m (a + of_nat i)) 0"

definition le_bytes :: "usize \<Rightarrow> byte list" where
  "le_bytes w = [byte_of w 0, byte_of w 1, byte_of w 2, byte_of w 3]"

definition bump_at :: "usize \<Rightarrow> pm \<Rightarrow> BumpAllocator" where
  "bump_at a s = \<lparr>heap_start = word_at (pm_mem s) a, heap_end = word_at (pm_mem s) (a + 4),
     bump_next = word_at (pm_mem s) (a + 8)\<rparr>"

definition put_bump :: "usize \<Rightarrow> BumpAllocator \<Rightarrow> pm \<Rightarrow> pm" where
  "put_bump a b s = s\<lparr>pm_mem := write_bytes (pm_mem s) a
     (le_bytes (heap_start b) @ le_bytes (heap_end b) @ le_bytes (bump_next b))\<rparr>"

definition global_at :: "usize \<Rightarrow> pm \<Rightarrow> GlobalPMHeap" where
  "global_at a s = \<lparr>g_end = word_at (pm_mem s) a, g_next = word_at (pm_mem s) (a + 4)\<rparr>"

definition put_global :: "usize \<Rightarrow> GlobalPMHeap \<Rightarrow> pm \<Rightarrow> pm" where
  "put_global a g s = s\<lparr>pm_mem := write_bytes (pm_mem s) a (le_bytes (g_end g) @ le_bytes (g_next g))\<rparr>"

definition pm_alloc :: "usize \<Rightarrow> Layout \<Rightarrow> (pm, usize) prog" where
  "pm_alloc self layout = seq (append_log_of self 12) (lift (bump_at self) (put_bump self) (per_task_alloc layout))"

definition global_alloc :: "usize \<Rightarrow> usize \<Rightarrow> (pm, ErrorCode + usize) prog" where
  "global_alloc self sz = Read (\<lambda>s. let g = global_at self s in
     if g_next g + sz > g_end g then Return (Inl NoSpace)
     else seq (append_log_of self 8) (Read (\<lambda>s. let r = g_next (global_at self s) in
       lift (global_at self) (put_global self) (Write (\<lambda>g. g\<lparr>g_next := g_next g + sz\<rparr>) (Return (Inr r))))))"

definition create_per_task_pm_heap :: "usize \<Rightarrow> usize \<Rightarrow> usize \<Rightarrow> (pm, unit + unit) prog" where
  "create_per_task_pm_heap global heap sz =
     (if sz = 0 then seq (lift (bump_at heap) (put_bump heap) (bump_init 0 0)) (Return (Inr ()))
      else bind (global_alloc global sz) (\<lambda>r. case r of
        Inl _ \<Rightarrow> Return (Inl ())
      | Inr start \<Rightarrow> seq (lift (bump_at heap) (put_bump heap) (bump_init start sz)) (Return (Inr ()))))"

text \<open>\<open>get_pm_heap\<close>: the heap of the current task, once the scheduler runs.\<close>

definition get_pm_heap :: "bool \<Rightarrow> usize \<Rightarrow> usize \<Rightarrow> usize" where
  "get_pm_heap scheduler_started task_heap boot_heap = (if scheduler_started then task_heap else boot_heap)"

definition palloc :: "usize \<Rightarrow> Layout \<Rightarrow> (pm, usize option) prog" where
  "palloc heap layout = bind (pm_alloc heap layout) (\<lambda>p. Return (if p = 0 then None else Some p))"

text \<open>\<open>Layout::array::<u8>(n)\<close> has alignment 1 and rejects more than \<open>isize::MAX\<close> bytes.\<close>

definition palloc_array :: "usize \<Rightarrow> usize \<Rightarrow> usize \<Rightarrow> (pm, usize option) prog" where
  "palloc_array heap elem_sz n = (let total = elem_sz * n in
     if unat total \<ge> 2 ^ 31 then Return None
     else bind (pm_alloc heap \<lparr>l_size = total, l_align = 1\<rparr>) (\<lambda>p. Return (if p = 0 then None else Some p)))"

definition store_object :: "usize \<Rightarrow> byte list \<Rightarrow> (pm, unit) prog" where
  "store_object p obj = writes (map (\<lambda>i s. s\<lparr>pm_mem := (pm_mem s)(p + of_nat i := obj ! i)\<rparr>) [0..<length obj])"

definition pm_new_relaxed :: "usize \<Rightarrow> usize \<Rightarrow> byte list \<Rightarrow> (pm, usize option) prog" where
  "pm_new_relaxed heap align obj = bind (palloc heap \<lparr>l_size = of_nat (length obj), l_align = align\<rparr>) (\<lambda>ptr.
     seq (case ptr of Some p \<Rightarrow> store_object p obj | None \<Rightarrow> Halt) (Return ptr))"

text \<open>Freeing keeps the bump allocator as it is.\<close>

definition pm_dealloc :: "usize \<Rightarrow> usize \<Rightarrow> Layout \<Rightarrow> (pm, unit) prog" where
  "pm_dealloc self ptr layout = lift (bump_at self) (put_bump self) (bump_dealloc ptr layout)"

definition pfree_array :: "usize \<Rightarrow> usize \<Rightarrow> usize \<Rightarrow> usize \<Rightarrow> (pm, usize) prog" where
  "pfree_array heap elem_sz ptr n = (let total = elem_sz * n in
     if unat total \<ge> 2 ^ 31 then Return 0
     else seq (pm_dealloc heap ptr \<lparr>l_size = total, l_align = 1\<rparr>) (Return 0))"

definition pfree :: "usize \<Rightarrow> usize \<Rightarrow> Layout \<Rightarrow> (pm, usize) prog" where
  "pfree heap ptr layout = seq (pm_dealloc heap ptr layout) (Return 0)"

definition pm_reset :: "usize \<Rightarrow> (pm, unit) prog" where
  "pm_reset self = lift (bump_at self) (put_bump self) bump_reset"

definition pm_stat :: "usize \<Rightarrow> pm \<Rightarrow> MemStat" where
  "pm_stat self s = bump_stat (bump_at self s)"

section \<open>Setting the heaps up\<close>

text \<open>The volatile heap is set up at every boot, the persistent ones once. The areas and the objects
  are where the linker puts them.\<close>

record areas =
  HEAP_AREA :: usize
  HEAP_SIZE :: usize
  BOOT_PM_HEAP_AREA :: usize
  BOOT_PM_HEAP_SIZE :: usize
  PM_HEAP_AREA :: usize
  PM_HEAP_SIZE :: usize
  BOOT_PM_HEAP :: usize
  GLOBAL_PM_HEAP :: usize

record heaps =
  HEAP :: BumpAllocator
  h_pm :: pm
  HEAP_FIRST_INIT_DONE :: bool

definition on_heap :: "(BumpAllocator, 'a) prog \<Rightarrow> (heaps, 'a) prog" where
  "on_heap p = lift HEAP (\<lambda>b s. s\<lparr>HEAP := b\<rparr>) p"

definition on_hpm :: "(pm, 'a) prog \<Rightarrow> (heaps, 'a) prog" where
  "on_hpm p = lift h_pm (\<lambda>m s. s\<lparr>h_pm := m\<rparr>) p"

definition heap_init :: "areas \<Rightarrow> (heaps, unit) prog" where
  "heap_init a = seq (if HEAP_SIZE a > 0 then on_heap (bump_init (HEAP_AREA a) (HEAP_SIZE a)) else Halt)
     (Read (\<lambda>s. if \<not> HEAP_FIRST_INIT_DONE s then
        seq (on_hpm (lift (bump_at (BOOT_PM_HEAP a)) (put_bump (BOOT_PM_HEAP a))
               (bump_init (BOOT_PM_HEAP_AREA a) (BOOT_PM_HEAP_SIZE a))))
          (seq (on_hpm (lift (global_at (GLOBAL_PM_HEAP a)) (put_global (GLOBAL_PM_HEAP a))
               (global_init (PM_HEAP_AREA a) (PM_HEAP_SIZE a))))
            (writes [\<lambda>s. s\<lparr>HEAP_FIRST_INIT_DONE := True\<rparr>]))
      else Halt))"

section \<open>Words in memory\<close>

lemma byte_of_get_word: "i < 4 \<Longrightarrow> byte_of (get_word f p) i = f (p + i)"
proof -
  assume "i < 4"
  then consider "i = 0" | "i = 1" | "i = 2" | "i = 3" by linarith
  then show ?thesis
    by cases (auto simp: byte_of_def get_word_def intro!: bit_word_eqI, auto simp: bit_simps dest: bit_imp_le_length)
qed

lemma length_le_bytes [simp]: "length (le_bytes w) = 4"
  by (simp add: le_bytes_def)

lemma write_bytes_over: "length xs = length ys \<Longrightarrow> length ys < 2 ^ 32 \<Longrightarrow>
   write_bytes (write_bytes m a xs) a ys = write_bytes m a ys"
  by (rule ext) (simp add: write_bytes_apply)

lemma le_bytes_word_at: "le_bytes (word_at m a) = map (\<lambda>i. m (a + of_nat i)) [0..<4]"
  by (simp add: le_bytes_def word_at_def byte_of_get_word upt_rec)

lemma word_at_le_bytes:
  assumes "k + 4 \<le> length bs" "length bs < 2 ^ 32" "take 4 (drop k bs) = le_bytes w"
  shows "word_at (write_bytes m a bs) (a + of_nat k) = w"
proof -
  have "unat (a + of_nat k + of_nat i - a) = k + i" if "i < 4" for i
    using that assms(1,2) unat_of_nat_small [of "k + i"] by (simp add: add.commute add.left_commute)
  then have b: "write_bytes m a bs (a + of_nat k + of_nat i) = le_bytes w ! i" if "i < 4" for i
    using that assms by (simp add: write_bytes_apply assms(3) [symmetric])
  show ?thesis using b [of 0] b [of 1] b [of 2] b [of 3] join_bytes [of w]
    by (simp add: word_at_def get_word_def le_bytes_def)
qed

lemma word_at_frame:
  assumes "length bs < 2 ^ 32" "\<And>i. i < 4 \<Longrightarrow> \<not> unat (x + of_nat i - a) < length bs"
  shows "word_at (write_bytes m a bs) x = word_at m x"
  using assms(1) assms(2) [of 0] assms(2) [of 1] assms(2) [of 2] assms(2) [of 3]
  by (simp add: word_at_def get_word_def write_bytes_apply)

interpretation bump_obj: lens "bump_at a" "put_bump a" for a
proof
  fix b c s
  show "bump_at a (put_bump a b s) = b"
    using word_at_le_bytes [of 0 "le_bytes (heap_start b) @ le_bytes (heap_end b) @ le_bytes (bump_next b)"]
      word_at_le_bytes [of 4 "le_bytes (heap_start b) @ le_bytes (heap_end b) @ le_bytes (bump_next b)"]
      word_at_le_bytes [of 8 "le_bytes (heap_start b) @ le_bytes (heap_end b) @ le_bytes (bump_next b)"]
    by (simp add: bump_at_def put_bump_def)
  show "put_bump a b (put_bump a c s) = put_bump a b s"
    by (simp add: put_bump_def write_bytes_over)
  have "le_bytes (word_at m a) @ le_bytes (word_at m (a + 4)) @ le_bytes (word_at m (a + 8)) =
      map (\<lambda>i. m (a + of_nat i)) [0..<12]" for m
    by (simp add: le_bytes_word_at upt_rec add.commute)
  then show "put_bump a (bump_at a s) s = s"
    using write_own_bytes [of "pm_mem s" a 12] by (simp add: bump_at_def put_bump_def)
qed

lemma bump_at_cong: "(\<And>i. i < 12 \<Longrightarrow> pm_mem t (a + of_nat i) = pm_mem s (a + of_nat i)) \<Longrightarrow> bump_at a t = bump_at a s"
proof -
  assume h: "\<And>i. i < 12 \<Longrightarrow> pm_mem t (a + of_nat i) = pm_mem s (a + of_nat i)"
  show ?thesis
    using h [of 0] h [of 1] h [of 2] h [of 3] h [of 4] h [of 5] h [of 6] h [of 7] h [of 8] h [of 9] h [of 10] h [of 11]
    by (simp add: bump_at_def word_at_def get_word_def add.commute)
qed

interpretation global_obj: lens "global_at a" "put_global a" for a
proof
  fix b c s
  show "global_at a (put_global a b s) = b"
    using word_at_le_bytes [of 0 "le_bytes (g_end b) @ le_bytes (g_next b)"]
      word_at_le_bytes [of 4 "le_bytes (g_end b) @ le_bytes (g_next b)"]
    by (simp add: global_at_def put_global_def)
  show "put_global a b (put_global a c s) = put_global a b s"
    by (simp add: put_global_def write_bytes_over)
  have "le_bytes (word_at m a) @ le_bytes (word_at m (a + 4)) = map (\<lambda>i. m (a + of_nat i)) [0..<8]" for m
    by (simp add: le_bytes_word_at upt_rec add.commute)
  then show "put_global a (global_at a s) s = s"
    using write_own_bytes [of "pm_mem s" a 8] by (simp add: global_at_def put_global_def)
qed

section \<open>Allocations do not overlap\<close>

primrec alloc_all :: "Layout list \<Rightarrow> (BumpAllocator, usize list) prog" where
  "alloc_all [] = Return []"
| "alloc_all (l # ls) = bind (per_task_alloc l) (\<lambda>p. bind (alloc_all ls) (\<lambda>ps. Return (p # ps)))"

text \<open>Alignments are powers of two up to a page, as those of Rust's types on the targets, and the heap
  ends at least a page below the end of the address space.\<close>

definition layout_ok :: "Layout \<Rightarrow> bool" where
  "layout_ok l \<longleftrightarrow> (\<exists>n\<le>12. l_align l = 2 ^ n)"

definition heap_ok :: "BumpAllocator \<Rightarrow> bool" where
  "heap_ok b \<longleftrightarrow> 0 < heap_start b \<and> heap_start b \<le> bump_next b \<and> bump_next b \<le> heap_end b \<and>
     unat (heap_end b) + 4096 \<le> 2 ^ 32"

definition within :: "BumpAllocator \<Rightarrow> usize \<Rightarrow> Layout \<Rightarrow> bool" where
  "within b p l \<longleftrightarrow> bump_next b \<le> p \<and> unat p + unat (l_size l) \<le> unat (heap_end b) \<and>
     unat (l_align l) dvd unat p"

definition apart :: "usize \<times> Layout \<Rightarrow> usize \<times> Layout \<Rightarrow> bool" where
  "apart x y \<longleftrightarrow> unat (fst x) + unat (l_size (snd x)) \<le> unat (fst y)"

lemma per_task_alloc_spec:
  assumes "heap_ok b" "layout_ok l"
  shows "exec (per_task_alloc l) b = Inr (0, b) \<or>
    (\<exists>p e. exec (per_task_alloc l) b = Inr (p, b\<lparr>bump_next := e\<rparr>) \<and> p \<noteq> 0 \<and> within b p l \<and>
       unat e = unat p + unat (l_size l) \<and> heap_ok (b\<lparr>bump_next := e\<rparr>))"
proof -
  obtain n where n: "n \<le> 12" "l_align l = 2 ^ n" using assms(2) by (auto simp: layout_ok_def)
  let ?p = "align_up (bump_next b) (l_align l)"
  have pow: "(2::nat) ^ n \<le> 4096" using power_increasing [OF n(1), of "2::nat"] by simp
  moreover have "unat (bump_next b) \<le> unat (heap_end b)" "unat (heap_end b) + 4096 \<le> 2 ^ 32"
    using assms(1) by (simp_all add: heap_ok_def word_le_nat_alt)
  ultimately have "unat (bump_next b) + 2 ^ n \<le> 2 ^ 32" by linarith
  note up = align_up_bounds [OF _ this] 
  have n32: "n < 32" using n(1) by simp
  have p: "bump_next b \<le> ?p" "2 ^ n dvd unat ?p" using up(1,3) [OF n32] n(2) by simp_all
  have "(2::nat) ^ n < 2 ^ 32" using pow by simp
  then have al: "unat (l_align l) = 2 ^ n" using n(2) unat_of_nat_small [of "2 ^ n"] by simp
  have pos: "?p \<noteq> 0" using p(1) assms(1) by (auto simp: heap_ok_def word_le_nat_alt word_less_nat_alt)
  show ?thesis
  proof (cases "unat ?p + unat (l_size l) < 2 ^ 32 \<and> ?p + l_size l \<le> heap_end b")
    case True
    let ?e = "?p + l_size l"
    have e: "unat ?e = unat ?p + unat (l_size l)" using True by (simp add: unat_word_ariths)
    then have "within b ?p l" "heap_ok (b\<lparr>bump_next := ?e\<rparr>)"
      using True p assms(1) al by (auto simp: within_def heap_ok_def word_le_nat_alt)
    moreover have "exec (per_task_alloc l) b = Inr (?p, b\<lparr>bump_next := ?e\<rparr>)"
      using True by (auto simp: per_task_alloc_def checked_add_def Let_def)
    ultimately show ?thesis using e pos by blast
  next
    case False
    then have "exec (per_task_alloc l) b = Inr (0, b)"
      by (auto simp: per_task_alloc_def checked_add_def Let_def)
    then show ?thesis by simp
  qed
qed

text \<open>With room for the block and its alignment the allocation succeeds.\<close>

definition room :: "nat \<Rightarrow> BumpAllocator \<Rightarrow> bool" where
  "room k b \<longleftrightarrow> unat (bump_next b) + k \<le> unat (heap_end b)"

lemma per_task_alloc_room:
  assumes "heap_ok b" "layout_ok l" "room (unat (l_align l) + unat (l_size l)) b" "exec (per_task_alloc l) b = Inr (p, b')"
  shows "p \<noteq> 0" "unat p < unat (bump_next b) + unat (l_align l)"
proof -
  obtain n where n: "n \<le> 12" "l_align l = 2 ^ n" using assms(2) by (auto simp: layout_ok_def)
  let ?p = "align_up (bump_next b) (l_align l)"
  have pow: "(2::nat) ^ n \<le> 4096" using power_increasing [OF n(1), of "2::nat"] by simp
  have al: "unat (l_align l) = 2 ^ n" using n(2) unat_of_nat_small [of "2 ^ n"] pow by simp
  have e: "unat (heap_end b) + 4096 \<le> 2 ^ 32" using assms(1) by (simp add: heap_ok_def)
  then have "unat (bump_next b) + 2 ^ n \<le> 2 ^ 32" using assms(3) al by (simp add: room_def)
  note up = align_up_bounds [OF _ this]
  have n32: "n < 32" using n(1) by simp
  have lt: "unat ?p < unat (bump_next b) + unat (l_align l)" using up(2) [OF n32] n(2) al by simp
  then have "unat ?p + unat (l_size l) \<le> unat (heap_end b)" using assms(3) by (simp add: room_def)
  then have "exec (per_task_alloc l) b = Inr (?p, b\<lparr>bump_next := ?p + l_size l\<rparr>)"
    using e by (auto simp: per_task_alloc_def checked_add_def Let_def word_less_nat_alt unat_word_ariths)
  then have "p = ?p" using assms(4) by simp
  moreover have "bump_next b \<le> ?p" using up(1) [OF n32] n(2) by simp
  moreover have "0 < unat (bump_next b)" using assms(1) by (auto simp: heap_ok_def word_le_nat_alt word_less_nat_alt)
  ultimately show "p \<noteq> 0" "unat p < unat (bump_next b) + unat (l_align l)"
    using lt by (auto simp: word_le_nat_alt)
qed

text \<open>Claim C16. Allocations are within the heap, aligned, and do not overlap: for any sequence of requests,
  every pointer that is not null starts an aligned block between the first free address and the end
  of the heap, behind all blocks handed out before it.\<close>

theorem allocations_disjoint:
  assumes "heap_ok b" "list_all layout_ok ls"
  shows "\<exists>ps b'. exec (alloc_all ls) b = Inr (ps, b') \<and> length ps = length ls \<and> heap_ok b' \<and>
    heap_end b' = heap_end b \<and>
    (let blocks = filter (\<lambda>x. fst x \<noteq> 0) (zip ps ls) in
      list_all (\<lambda>(p, l). within b p l) blocks \<and> sorted_wrt apart blocks)"
  using assms
proof (induction ls arbitrary: b)
  case Nil
  then show ?case by simp
next
  case (Cons l ls)
  from per_task_alloc_spec [of b l] Cons.prems consider
      "exec (per_task_alloc l) b = Inr (0, b)"
    | p e where "exec (per_task_alloc l) b = Inr (p, b\<lparr>bump_next := e\<rparr>)" "p \<noteq> 0" "within b p l"
       "unat e = unat p + unat (l_size l)" "heap_ok (b\<lparr>bump_next := e\<rparr>)" by auto
  then show ?case
  proof cases
    case 1
    obtain ps b' where "exec (alloc_all ls) b = Inr (ps, b')" "length ps = length ls" "heap_ok b'"
        "heap_end b' = heap_end b" "list_all (\<lambda>(p, l). within b p l) (filter (\<lambda>x. fst x \<noteq> 0) (zip ps ls))"
        "sorted_wrt apart (filter (\<lambda>x. fst x \<noteq> 0) (zip ps ls))"
      using Cons.IH [of b] Cons.prems by (auto simp: Let_def)
    then show ?thesis using 1 by (intro exI [of _ "0 # ps"] exI [of _ b']) (simp add: exec_bind)
  next
    case 2
    let ?b = "b\<lparr>bump_next := e\<rparr>"
    obtain ps b' where h: "exec (alloc_all ls) ?b = Inr (ps, b')" "length ps = length ls" "heap_ok b'"
        "heap_end b' = heap_end b" "list_all (\<lambda>(p, l). within ?b p l) (filter (\<lambda>x. fst x \<noteq> 0) (zip ps ls))"
        "sorted_wrt apart (filter (\<lambda>x. fst x \<noteq> 0) (zip ps ls))"
      using Cons.IH [OF 2(5)] Cons.prems by (auto simp: Let_def)
    have later: "within b q k \<and> apart (p, l) (q, k)" if "within ?b q k" for q k
      using that 2(3,4) by (auto simp: within_def apart_def word_le_nat_alt)
    then have "list_all (\<lambda>(p, l). within b p l) (filter (\<lambda>x. fst x \<noteq> 0) (zip ps ls))"
      using h(5) by (auto simp: list_all_iff)
    moreover have "\<forall>x\<in>set (filter (\<lambda>x. fst x \<noteq> 0) (zip ps ls)). apart (p, l) x"
      using h(5) later by (auto simp: list_all_iff)
    ultimately show ?thesis using 2(1-3) h
      by (intro exI [of _ "p # ps"] exI [of _ b']) (simp add: exec_bind)
  qed
qed

theorem allocations_disjoint_witness:
  "\<exists>ps b'. exec (alloc_all [\<lparr>l_size = 3, l_align = 1\<rparr>, \<lparr>l_size = 8, l_align = 4\<rparr>, \<lparr>l_size = 90, l_align = 2\<rparr>])
      \<lparr>heap_start = 1000, heap_end = 1100, bump_next = 1000\<rparr> = Inr (ps, b') \<and>
    length ps = length [\<lparr>l_size = 3, l_align = 1\<rparr>, \<lparr>l_size = 8, l_align = 4\<rparr>, \<lparr>l_size = 90, l_align = 2\<rparr>] \<and> heap_ok b' \<and>
    heap_end b' = heap_end \<lparr>heap_start = 1000, heap_end = 1100, bump_next = 1000\<rparr> \<and>
    (let blocks = filter (\<lambda>x. fst x \<noteq> 0)
        (zip ps [\<lparr>l_size = 3, l_align = 1\<rparr>, \<lparr>l_size = 8, l_align = 4\<rparr>, \<lparr>l_size = 90, l_align = 2\<rparr>]) in
      list_all (\<lambda>(p, l). within \<lparr>heap_start = 1000, heap_end = 1100, bump_next = 1000\<rparr> p l) blocks \<and> sorted_wrt apart blocks)"
proof (rule allocations_disjoint)
  show "heap_ok \<lparr>heap_start = 1000, heap_end = 1100, bump_next = 1000\<rparr>" by (simp add: heap_ok_def)
  have "\<exists>n\<le>12. (1::usize) = 2 ^ n" by (rule exI [of _ 0]) simp
  moreover have "\<exists>n\<le>12. (2::usize) = 2 ^ n" by (rule exI [of _ 1]) simp
  moreover have "\<exists>n\<le>12. (4::usize) = 2 ^ n" by (rule exI [of _ 2]) simp
  ultimately show "list_all layout_ok [\<lparr>l_size = 3, l_align = 1\<rparr>, \<lparr>l_size = 8, l_align = 4\<rparr>, \<lparr>l_size = 90, l_align = 2\<rparr>]"
    by (simp add: layout_ok_def)
qed

section \<open>An allocation that is cut off\<close>

text \<open>Memories that agree where nothing is logged, apart from \<open>F\<close>, are undone alike apart from \<open>F\<close>.\<close>

lemma undo_agree:
  "small es \<Longrightarrow> (\<And>x. x \<in> F \<or> covers es x \<or> m x = m' x) \<Longrightarrow> x \<notin> F \<Longrightarrow> undo es m x = undo es m' x"
proof (induction es arbitrary: m m')
  case Nil
  then show ?case by (auto simp: covers_def)
next
  case (Cons e es)
  obtain a bs where e: "e = (a, bs)" by fastforce
  have len: "length bs < 2 ^ 32" and small: "small es" using Cons.prems(1) e by (auto simp: small_def)
  have "y \<in> F \<or> covers es y \<or> write_bytes m a bs y = write_bytes m' a bs y" for y
    using Cons.prems(2) [of y] by (auto simp: e covers_def write_bytes_apply [OF len])
  then show ?case using Cons.IH [OF small _ Cons.prems(3), of "write_bytes m a bs" "write_bytes m' a bs"] by (simp add: e)
qed

text \<open>An object is logged, then a program runs that stores only in it and in the area \<open>F\<close>.\<close>

definition confined :: "(usize \<Rightarrow> bool) \<Rightarrow> pm \<Rightarrow> pm \<Rightarrow> bool" where
  "confined P u t \<longleftrightarrow> j_logs t = j_logs u \<and> j_tail t = j_tail u \<and> (\<forall>x. P x \<or> pm_mem t x = pm_mem u x)"

lemma logged_states:
  assumes "is_empty s" "unat sz < 2 ^ 31" "t \<in> set (states (seq (append_log_of obj sz) q) s)"
    and "\<And>u t. exec (append_log_of obj sz) s = Inr ((), u) \<Longrightarrow> pm_mem u = pm_mem s \<Longrightarrow> t \<in> set (states q u) \<Longrightarrow>
      confined (\<lambda>x. x \<in> F \<or> in_object x obj sz) u t"
  shows "\<exists>m. undo_inv m t \<and> (\<forall>x. x \<notin> F \<longrightarrow> m x = pm_mem s x)"
proof -
  have enc0: "enc (j_logs s) (j_tail s) []" using assms(1) by (simp add: is_empty_def)
  let ?es = "[(obj, object_bytes s obj sz)]"
  from assms(3) [unfolded seq_def] show ?thesis
  proof (cases rule: states_bind_cases)
    case 1
    then have "pm_mem t = pm_mem s" "enc (j_logs t) (j_tail t) [] \<or> enc (j_logs t) (j_tail t) ?es"
      using append_log_of_states [OF enc0 assms(2) 1] by auto
    then have "undo_inv (pm_mem s) t"
      using write_own_bytes [of "pm_mem s" obj "unat sz"] unfolding undo_inv_def
      by (elim disjE) (intro exI [of _ "[]"] exI [of _ ?es]; simp del: enc.simps)+
    then show ?thesis by blast
  next
    case (2 a u)
    then have u: "exec (append_log_of obj sz) s = Inr ((), u)" by simp
    then have fits: "j_tail s + (aligned_size sz + 4 + 4) \<le> JOURNAL_SIZE"
      by (auto simp: append_log_of_def Let_def split: if_splits)
    then have e: "pm_mem u = pm_mem s" "enc (j_logs u) (j_tail u) ?es"
      using append_log_of_spec [OF enc0 assms(2) fits, of obj] u by auto
    note c = assms(4) [OF u e(1) 2(2)]
    then have enc: "enc (j_logs t) (j_tail t) ?es" using e(2) unfolding confined_def by metis
    have "x \<in> F \<or> covers ?es x \<or> pm_mem t x = pm_mem s x" for x
      using c e(1) by (auto simp: confined_def covers_def in_object_def)
    then have "undo ?es (pm_mem t) x = undo ?es (pm_mem s) x" if "x \<notin> F" for x
      using undo_agree [OF enc_small [OF enc] _ that, of "pm_mem t" "pm_mem s"] by blast
    then have "\<forall>x. x \<notin> F \<longrightarrow> undo ?es (pm_mem t) x = pm_mem s x"
      using write_own_bytes [of "pm_mem s" obj "unat sz"] by simp
    then show ?thesis using enc unfolding undo_inv_def by blast
  qed
qed

lemma put_bump_confined: "confined (\<lambda>x. in_object x a 12) u (put_bump a b u)"
  by (simp add: confined_def put_bump_def in_object_def write_bytes_apply)

definition free_area :: "BumpAllocator \<Rightarrow> usize set" where
  "free_area b = {x. bump_next b \<le> x \<and> x < heap_end b}"

lemma store_object_fold:
  "k \<le> length obj \<Longrightarrow> fold (\<lambda>w. w) (map (\<lambda>i s. s\<lparr>pm_mem := (pm_mem s)(p + of_nat i := obj ! i)\<rparr>) [0..<k]) u =
    u\<lparr>pm_mem := write_bytes (pm_mem u) p (take k obj)\<rparr>"
proof (induction k)
  case (Suc k)
  have "take (Suc k) obj = take k obj @ [obj ! k]" using Suc.prems by (simp add: take_Suc_conv_app_nth)
  then show ?case using Suc by (simp add: write_bytes_snoc min_def del: fun_upd_apply)
qed simp

lemma exec_store_object: "exec (store_object p obj) u = Inr ((), u\<lparr>pm_mem := write_bytes (pm_mem u) p obj\<rparr>)"
  by (simp add: store_object_def exec_writes store_object_fold)

lemma store_object_states:
  assumes "t \<in> set (states (store_object p obj) u)"
  shows "\<exists>k\<le>length obj. t = u\<lparr>pm_mem := write_bytes (pm_mem u) p (take k obj)\<rparr>"
proof -
  obtain k where "k \<le> length obj"
    "t = fold (\<lambda>w. w) (map (\<lambda>i s. s\<lparr>pm_mem := (pm_mem s)(p + of_nat i := obj ! i)\<rparr>) [0..<k]) u"
    using states_writes assms unfolding store_object_def by (fastforce simp: take_map)
  then show ?thesis using store_object_fold by blast
qed

lemma block_in_free_area:
  assumes "within b p l" "unat (x - p) < unat (l_size l)"
  shows "x \<in> free_area b"
proof -
  have "unat p + unat (x - p) < unat (heap_end b)" using assms by (simp add: within_def)
  moreover have "unat (heap_end b) < 2 ^ 32" using unsigned_less [of "heap_end b", where ?'a = nat] by simp
  ultimately have "unat x = unat p + unat (x - p)" using unat_word_ariths(1) [of p "x - p"] by simp
  moreover have "unat (bump_next b) \<le> unat p" using assms(1) by (simp add: within_def word_le_nat_alt)
  ultimately show ?thesis using \<open>unat p + unat (x - p) < unat (heap_end b)\<close>
    by (simp add: free_area_def word_le_nat_alt word_less_nat_alt)
qed

lemma pm_new_unfold: "pm_new_relaxed heap align obj = seq (append_log_of heap 12)
    (bind (lift (bump_at heap) (put_bump heap) (per_task_alloc \<lparr>l_size = of_nat (length obj), l_align = align\<rparr>))
      (\<lambda>p. seq (if p = 0 then Halt else store_object p obj) (Return (if p = 0 then None else Some p))))"
proof -
  have "(\<lambda>p. seq (case if p = 0 then None else Some p of Some p \<Rightarrow> store_object p obj | None \<Rightarrow> Halt)
      (Return (if p = 0 then None else Some p))) =
    (\<lambda>p. seq (if p = 0 then Halt else store_object p obj) (Return (if p = 0 then None else Some p)))" by auto
  then show ?thesis by (simp add: pm_new_relaxed_def palloc_def pm_alloc_def seq_def bind_assoc)
qed

lemma states_bind_Return: "states (bind p (\<lambda>a. Return (f a))) s = states p s"
  by (induction p arbitrary: s) auto

lemma block_bytes: "length obj < 2 ^ 32 \<Longrightarrow> map (\<lambda>k. write_bytes m p obj (p + of_nat k)) [0..<length obj] = obj"
  by (rule nth_equalityI) (simp_all add: write_bytes_apply unat_of_nat_small)

text \<open>What an allocation does: nothing but the allocator changes, and the block is new.\<close>

definition allocated :: "usize \<Rightarrow> usize \<Rightarrow> Layout \<Rightarrow> pm \<Rightarrow> pm \<Rightarrow> bool" where
  "allocated heap p l s t \<longleftrightarrow> p \<noteq> 0 \<and> within (bump_at heap s) p l \<and> heap_ok (bump_at heap t) \<and>
     heap_start (bump_at heap t) = heap_start (bump_at heap s) \<and> heap_end (bump_at heap t) = heap_end (bump_at heap s) \<and>
     unat (bump_next (bump_at heap t)) = unat p + unat (l_size l)"

lemma pm_alloc_spec:
  assumes "heap_ok (bump_at heap s)" "layout_ok l" "j_tail s + 20 \<le> JOURNAL_SIZE"
  shows "\<exists>p t. exec (pm_alloc heap l) s = Inr (p, t) \<and> j_tail t = j_tail s + 20 \<and>
    (\<forall>x. \<not> in_object x heap 12 \<longrightarrow> pm_mem t x = pm_mem s x) \<and> (p \<noteq> 0 \<longrightarrow> allocated heap p l s t) \<and>
    (p = 0 \<longrightarrow> pm_mem t = pm_mem s) \<and>
    (room (unat (l_align l) + unat (l_size l)) (bump_at heap s) \<longrightarrow>
       p \<noteq> 0 \<and> unat p < unat (bump_next (bump_at heap s)) + unat (l_align l))"
proof -
  have al: "aligned_size 12 + 4 + 4 = 20" by (simp add: aligned_size_def arch_addr_align_up_def ARCH_ALIGN_def)
  obtain u where u: "exec (append_log_of heap 12) s = Inr ((), u)" "pm_mem u = pm_mem s" "j_tail u = j_tail s + 20"
    using assms(3) al by (simp add: append_log_of_def Let_def exec_seq exec_copy_to_log put_word_frame)
  have b: "bump_at heap u = bump_at heap s" using u(2) by (simp add: bump_at_def)
  have f: "pm_mem (put_bump heap b' u) x = pm_mem s x" if "\<not> in_object x heap 12" for b' x
    using that u(2) put_bump_confined [of heap u b'] by (auto simp: confined_def)
  have j: "j_tail (put_bump heap b' u) = j_tail s + 20" for b' using u(3) by (simp add: put_bump_def)
  from per_task_alloc_spec [OF assms(1,2)] show ?thesis
  proof (elim disjE exE conjE)
    assume "exec (per_task_alloc l) (bump_at heap s) = Inr (0, bump_at heap s)"
    then have "exec (pm_alloc heap l) s = Inr (0, u)"
      using u(1) b bump_obj.put_get [of heap u] by (simp add: pm_alloc_def exec_seq bump_obj.exec_lift)
    then show ?thesis using u per_task_alloc_room [OF assms(1,2)] \<open>exec (per_task_alloc l) (bump_at heap s) = Inr (0, bump_at heap s)\<close> by auto
  next
    fix p e
    assume p: "exec (per_task_alloc l) (bump_at heap s) = Inr (p, (bump_at heap s)\<lparr>bump_next := e\<rparr>)" "p \<noteq> 0"
      "within (bump_at heap s) p l" "unat e = unat p + unat (l_size l)" "heap_ok ((bump_at heap s)\<lparr>bump_next := e\<rparr>)"
    let ?t = "put_bump heap ((bump_at heap s)\<lparr>bump_next := e\<rparr>) u"
    have "exec (pm_alloc heap l) s = Inr (p, ?t)"
      using u(1) b p(1) by (simp add: pm_alloc_def exec_seq bump_obj.exec_lift)
    moreover have "allocated heap p l s ?t" using p by (simp add: allocated_def bump_obj.get_put)
    ultimately show ?thesis using p(2) f j per_task_alloc_room [OF assms(1,2) _ p(1)] by auto
  qed
qed

lemma pm_new_confined:
  assumes "heap_ok (bump_at heap u)" "length obj < 2 ^ 31"
    and "layout_ok \<lparr>l_size = of_nat (length obj), l_align = align\<rparr>"
    and "t \<in> set (states (bind (lift (bump_at heap) (put_bump heap)
        (per_task_alloc \<lparr>l_size = of_nat (length obj), l_align = align\<rparr>))
      (\<lambda>p. seq (if p = 0 then Halt else store_object p obj) (Return (if p = 0 then None else Some p)))) u)"
  shows "confined (\<lambda>x. x \<in> free_area (bump_at heap u) \<or> in_object x heap 12) u t"
  using assms(4)
proof (cases rule: states_bind_cases)
  case 1
  then obtain b where "t = put_bump heap b u" by (auto simp: bump_obj.states_lift)
  then show ?thesis using put_bump_confined [of heap u b] by (auto simp: confined_def)
next
  case (2 p v)
  let ?l = "\<lparr>l_size = of_nat (length obj), l_align = align\<rparr>"
  obtain b where b: "v = put_bump heap b u" "p \<noteq> 0 \<longrightarrow> within (bump_at heap u) p ?l"
    using 2(1) per_task_alloc_spec [OF assms(1,3)] by (auto simp: bump_obj.exec_lift)
  note v = put_bump_confined [of heap u b, folded b(1)]
  show ?thesis
  proof (cases "p = 0")
    case True
    then show ?thesis using 2(2) v by (auto simp: seq_simps confined_def)
  next
    case False
    from 2(2) False have "t \<in> set (states (store_object p obj) v)" by (simp add: seq_def states_bind_Return)
    then obtain k where k: "k \<le> length obj" "t = v\<lparr>pm_mem := write_bytes (pm_mem v) p (take k obj)\<rparr>"
      using store_object_states by blast
    have "x \<in> free_area (bump_at heap u)" if "unat (x - p) < k" for x
      using that k(1) b(2) False assms(2) block_in_free_area [of "bump_at heap u" p ?l x] unat_of_nat_small [of "length obj"]
      by simp
    then show ?thesis using k v assms(2) by (auto simp: confined_def write_bytes_apply)
  qed
qed

text \<open>Claim C15. Allocating and initialising an object is undone with its transaction: it can be cut off
  anywhere and the recovery any number of times; the next complete recovery returns, the allocator
  is as it was, so the block is free again, and only bytes of its free area can have changed.\<close>

theorem pm_new_undone:
  assumes "is_empty s" "heap_ok (bump_at heap s)" "length obj < 2 ^ 31"
    and "layout_ok \<lparr>l_size = of_nat (length obj), l_align = align\<rparr>"
    and "\<forall>i<12. heap + of_nat i \<notin> free_area (bump_at heap s)"
  shows "\<exists>t. exec recover (reboots recover ks (crash (pm_new_relaxed heap align obj) k s)) = Inr ((), t) \<and>
    is_empty t \<and> bump_at heap t = bump_at heap s \<and>
    (\<forall>x. x \<notin> free_area (bump_at heap s) \<longrightarrow> pm_mem t x = pm_mem s x)"
proof -
  let ?F = "free_area (bump_at heap s)" and ?t = "crash (pm_new_relaxed heap align obj) k s"
  have "?t \<in> set (states (pm_new_relaxed heap align obj) s)" by (rule crash_in_states)
  note t = this [unfolded pm_new_unfold]
  have "\<exists>m. undo_inv m ?t \<and> (\<forall>x. x \<notin> ?F \<longrightarrow> m x = pm_mem s x)" unfolding pm_new_unfold
  proof (rule logged_states [OF assms(1) _ t])
    fix u t
    assume "pm_mem u = pm_mem s" and t: "t \<in> set (states (bind (lift (bump_at heap) (put_bump heap)
        (per_task_alloc \<lparr>l_size = of_nat (length obj), l_align = align\<rparr>))
      (\<lambda>p. seq (if p = 0 then Halt else store_object p obj) (Return (if p = 0 then None else Some p)))) u)"
    then have b: "bump_at heap u = bump_at heap s" by (simp add: bump_at_def)
    show "confined (\<lambda>x. x \<in> ?F \<or> in_object x heap 12) u t"
      using pm_new_confined [OF _ assms(3,4) t] assms(2) b by simp
  qed simp
  then obtain m where m: "undo_inv m ?t" "\<forall>x. x \<notin> ?F \<longrightarrow> m x = pm_mem s x" by blast
  obtain t where t: "exec recover (reboots recover ks ?t) = Inr ((), t)" "pm_mem t = m" "is_empty t"
    using journal.recovery_ends [OF journal.reboots_inv [OF m(1), of ks]] by auto
  have "pm_mem t (heap + of_nat i) = pm_mem s (heap + of_nat i)" if "i < 12" for i
    using that m(2) t(2) assms(5) by blast
  then have "bump_at heap t = bump_at heap s" by (rule bump_at_cong)
  then show ?thesis using t m(2) by blast
qed

definition demo_heap :: pm where
  "demo_heap = put_bump 100 \<lparr>heap_start = 1000, heap_end = 1100, bump_next = 1001\<rparr> demo_pm"

lemma demo_heap_at: "bump_at 100 demo_heap = \<lparr>heap_start = 1000, heap_end = 1100, bump_next = 1001\<rparr>"
  unfolding demo_heap_def by (rule bump_obj.get_put)

lemma demo_heap_empty: "is_empty demo_heap"
  by (simp add: demo_heap_def put_bump_def is_empty_def demo_pm_def)

theorem pm_new_undone_witness:
  "\<exists>t. exec recover (reboots recover [3] (crash (pm_new_relaxed 100 4 [1, 2, 3, 4]) 17 demo_heap)) = Inr ((), t) \<and>
    is_empty t \<and> bump_at 100 t = bump_at 100 demo_heap \<and>
    (\<forall>x. x \<notin> free_area (bump_at 100 demo_heap) \<longrightarrow> pm_mem t x = pm_mem demo_heap x)"
proof (rule pm_new_undone [OF demo_heap_empty])
  show "heap_ok (bump_at 100 demo_heap)" by (simp add: demo_heap_at heap_ok_def)
  show "layout_ok \<lparr>l_size = of_nat (length [1, 2, 3, 4 :: byte]), l_align = 4\<rparr>"
    by (auto simp: layout_ok_def intro: exI [of _ 2])
  have "unat (100 + of_nat i :: usize) = 100 + i" if "i < 12" for i
    using that unat_of_nat_small [of "100 + i"] by simp
  then show "\<forall>i<12. 100 + of_nat i \<notin> free_area (bump_at 100 demo_heap)"
    by (auto simp: demo_heap_at free_area_def word_le_nat_alt)
qed simp

section \<open>Arrays\<close>

lemma align_up_1: "align_up x 1 = x"
  using and_not_mask [of x 0] by (simp add: align_up_def)

text \<open>An array is allocated with the alignment of bytes, whatever its elements need: it starts at
  the first free address, also when that is odd.\<close>

theorem palloc_array_unaligned:
  assumes "is_empty s" "bump_at heap s = b" "heap_ok b" "unat (elem_sz * n) < 2 ^ 31"
    and "unat (bump_next b) + unat (elem_sz * n) \<le> unat (heap_end b)"
  shows "\<exists>t. exec (palloc_array heap elem_sz n) s = Inr (Some (bump_next b), t) \<and>
    bump_at heap t = b\<lparr>bump_next := bump_next b + elem_sz * n\<rparr>"
proof -
  have "j_tail s + (aligned_size 12 + 4 + 4) \<le> JOURNAL_SIZE"
    using assms(1) by (simp add: is_empty_def aligned_size_def arch_addr_align_up_def ARCH_ALIGN_def JOURNAL_SIZE_def)
  then obtain u where u: "exec (append_log_of heap 12) s = Inr ((), u)" "pm_mem u = pm_mem s"
    using append_log_of_spec [of s "[]" 12 heap] assms(1) by (auto simp: is_empty_def)
  then have b: "bump_at heap u = b" using assms(2) by (simp add: bump_at_def)
  have lt: "unat (heap_end b) < 2 ^ 32" using unsigned_less [of "heap_end b", where ?'a = nat] by simp
  then have e: "unat (bump_next b + elem_sz * n) = unat (bump_next b) + unat (elem_sz * n)"
    using assms(5) unat_word_ariths(1) [of "bump_next b" "elem_sz * n"] by simp
  then have "exec (per_task_alloc \<lparr>l_size = elem_sz * n, l_align = 1\<rparr>) b =
      Inr (bump_next b, b\<lparr>bump_next := bump_next b + elem_sz * n\<rparr>)"
    using assms(5) lt by (simp add: per_task_alloc_def align_up_1 checked_add_def word_less_nat_alt Let_def)
  moreover have "bump_next b \<noteq> 0" using assms(3) by (auto simp: heap_ok_def)
  ultimately show ?thesis using u(1) b assms(4)
    by (simp add: palloc_array_def Let_def pm_alloc_def exec_bind exec_seq bump_obj.exec_lift bump_obj.get_put)
qed

theorem palloc_array_unaligned_witness:
  "\<exists>t. exec (palloc_array 100 4 2) demo_heap = Inr (Some 1001, t) \<and>
    bump_at 100 t = \<lparr>heap_start = 1000, heap_end = 1100, bump_next = 1009\<rparr>"
  using palloc_array_unaligned [OF demo_heap_empty demo_heap_at, of 4 2] by (simp add: heap_ok_def)

section \<open>Setting up once\<close>

text \<open>The persistent heaps as they are set up first.\<close>

definition set_up :: "areas \<Rightarrow> heaps \<Rightarrow> bool" where
  "set_up a s \<longleftrightarrow> HEAP_FIRST_INIT_DONE s \<and>
     bump_at (BOOT_PM_HEAP a) (h_pm s) = \<lparr>heap_start = BOOT_PM_HEAP_AREA a,
       heap_end = BOOT_PM_HEAP_AREA a + BOOT_PM_HEAP_SIZE a, bump_next = BOOT_PM_HEAP_AREA a\<rparr> \<and>
     global_at (GLOBAL_PM_HEAP a) (h_pm s) = \<lparr>g_end = PM_HEAP_AREA a + PM_HEAP_SIZE a, g_next = PM_HEAP_AREA a\<rparr>"

interpretation heap_part: lens HEAP "\<lambda>b s. s\<lparr>HEAP := b\<rparr>"
  by unfold_locales simp_all

interpretation hpm_part: lens h_pm "\<lambda>m s. s\<lparr>h_pm := m\<rparr>"
  by unfold_locales simp_all

lemmas heaps_lift = on_heap_def on_hpm_def heap_part.exec_lift heap_part.states_lift hpm_part.exec_lift
  hpm_part.states_lift bump_obj.exec_lift bump_obj.states_lift global_obj.exec_lift global_obj.states_lift

text \<open>The two objects are apart.\<close>

definition objects_apart :: "areas \<Rightarrow> bool" where
  "objects_apart a \<longleftrightarrow> (\<forall>i<12. \<not> in_object (BOOT_PM_HEAP a + of_nat i) (GLOBAL_PM_HEAP a) 8)"

lemma bump_at_put_global:
  assumes "objects_apart a"
  shows "bump_at (BOOT_PM_HEAP a) (put_global (GLOBAL_PM_HEAP a) g s) = bump_at (BOOT_PM_HEAP a) s"
  by (rule bump_at_cong)
    (use assms in \<open>auto simp: put_global_def objects_apart_def in_object_def write_bytes_apply\<close>)

lemma exec_heap_init:
  assumes "objects_apart a" "HEAP_FIRST_INIT_DONE s \<longrightarrow> set_up a s"
  shows "\<exists>t. exec (heap_init a) s = Inr ((), t) \<and> set_up a t \<and> (HEAP_FIRST_INIT_DONE s \<longrightarrow> h_pm t = h_pm s)"
  using assms
  by (auto simp: heap_init_def exec_seq heaps_lift bump_init_def global_init_def set_up_def bump_obj.get_put
      global_obj.get_put bump_at_put_global)

lemma heap_init_states:
  assumes "objects_apart a" "HEAP_FIRST_INIT_DONE s \<longrightarrow> set_up a s" "t \<in> set (states (heap_init a) s)"
  shows "HEAP_FIRST_INIT_DONE t \<longrightarrow> set_up a t"
  using assms
  by (cases "HEAP_FIRST_INIT_DONE s"; cases "HEAP_SIZE a > 0")
    (auto simp: heap_init_def on_heap_def on_hpm_def prog_simps bump_init_def global_init_def set_up_def
      bump_obj.get_put global_obj.get_put bump_at_put_global)

interpretation first_boot: roll_back "\<lambda>a s. objects_apart a \<and> (HEAP_FIRST_INIT_DONE s \<longrightarrow> set_up a s)" heap_init set_up
  by unfold_locales (use heap_init_states exec_heap_init in blast)+

text \<open>Claim C17. The persistent heaps are set up once: the first set-up can be cut off any number of times,
  the next complete one leaves the boot heap and the region of the tasks empty and ready; setting up
  again after that changes nothing in persistent memory.\<close>

theorem heap_set_up_once:
  assumes "objects_apart a" "\<not> HEAP_FIRST_INIT_DONE s"
  shows "\<exists>t t'. exec (heap_init a) (reboots (heap_init a) ks s) = Inr ((), t) \<and> set_up a t \<and>
    exec (heap_init a) t = Inr ((), t') \<and> h_pm t' = h_pm t"
proof -
  obtain t where t: "exec (heap_init a) (reboots (heap_init a) ks s) = Inr ((), t)" "set_up a t"
    using first_boot.recovery_ends [OF first_boot.reboots_inv [of a s ks]] assms by auto
  then show ?thesis using exec_heap_init [OF assms(1), of t] by (auto simp: set_up_def)
qed

definition demo_areas :: areas where
  "demo_areas = \<lparr>HEAP_AREA = 5000, HEAP_SIZE = 64, BOOT_PM_HEAP_AREA = 2000, BOOT_PM_HEAP_SIZE = 128,
     PM_HEAP_AREA = 3000, PM_HEAP_SIZE = 1024, BOOT_PM_HEAP = 200, GLOBAL_PM_HEAP = 100\<rparr>"

theorem heap_set_up_once_witness:
  "\<exists>t t'. exec (heap_init demo_areas) (reboots (heap_init demo_areas) [5, 2]
        \<lparr>HEAP = \<lparr>heap_start = 0, heap_end = 0, bump_next = 0\<rparr>, h_pm = demo_pm, HEAP_FIRST_INIT_DONE = False\<rparr>) =
      Inr ((), t) \<and> set_up demo_areas t \<and> exec (heap_init demo_areas) t = Inr ((), t') \<and> h_pm t' = h_pm t"
proof (rule heap_set_up_once)
  have "unat (200 + of_nat i - 100 :: usize) = 100 + i" if "i < 12" for i
    using that unat_of_nat_small [of "100 + i"] by simp
  then show "objects_apart demo_areas" by (auto simp: objects_apart_def demo_areas_def in_object_def)
qed simp

end
