(* ===== verification/PVec.thy ===== *)
theory PVec
  imports Heap
begin

text \<open>
  The persistent vectors of applications (\<open>src/user/pvec.rs\<close>, boxed as in \<open>src/user/pbox.rs\<close>): a header with the
  address of the buffer, its capacity and its length, in persistent memory, and elements of \<open>n\<close> bytes
  in the buffer. The operations run inside a transaction; a change of the header is logged first,
  an element written by \<open>push\<close> is not.
\<close>

section \<open>The operations\<close>

record RawPVec =
  v_ptr :: usize
  v_cap :: usize
  v_len :: usize

definition raw_at :: "usize \<Rightarrow> pm \<Rightarrow> RawPVec" where
  "raw_at a s = \<lparr>v_ptr = word_at (pm_mem s) a, v_cap = word_at (pm_mem s) (a + 4), v_len = word_at (pm_mem s) (a + 8)\<rparr>"

definition put_raw :: "usize \<Rightarrow> RawPVec \<Rightarrow> pm \<Rightarrow> pm" where
  "put_raw a v s = s\<lparr>pm_mem := write_bytes (pm_mem s) a (le_bytes (v_ptr v) @ le_bytes (v_cap v) @ le_bytes (v_len v))\<rparr>"

definition set_vlen :: "usize \<Rightarrow> (usize \<Rightarrow> usize) \<Rightarrow> pm \<Rightarrow> pm" where
  "set_vlen a f s = put_raw a ((raw_at a s)\<lparr>v_len := f (v_len (raw_at a s))\<rparr>) s"

text \<open>The boxed header for writing: \<open>PBox::as_mut\<close> logs it.\<close>

definition raw_vec_mut :: "usize \<Rightarrow> (pm, unit) prog" where
  "raw_vec_mut self = create_log self 12"

definition read_bytes :: "usize \<Rightarrow> nat \<Rightarrow> pm \<Rightarrow> byte list" where
  "read_bytes a n s = map (\<lambda>k. pm_mem s (a + of_nat k)) [0..<n]"

definition pvec_clear :: "usize \<Rightarrow> (pm, unit) prog" where
  "pvec_clear self = seq (raw_vec_mut self) (writes [set_vlen self (\<lambda>_. 0)])"

definition pvec_push :: "usize \<Rightarrow> nat \<Rightarrow> byte list \<Rightarrow> (pm, unit) prog" where
  "pvec_push self n x = seq (raw_vec_mut self) (Read (\<lambda>s. let buf = raw_at self s in
     if v_len buf = v_cap buf then Fail Panic
     else seq (store_object (v_ptr buf + v_len buf * of_nat n) x) (writes [set_vlen self (\<lambda>l. l + 1)])))"

definition pvec_is_full :: "usize \<Rightarrow> pm \<Rightarrow> bool" where
  "pvec_is_full self s \<longleftrightarrow> v_len (raw_at self s) = v_cap (raw_at self s)"

definition pvec_len :: "usize \<Rightarrow> pm \<Rightarrow> usize" where
  "pvec_len self s = v_len (raw_at self s)"

definition pvec_pop :: "usize \<Rightarrow> nat \<Rightarrow> (pm, byte list option) prog" where
  "pvec_pop self n = Read (\<lambda>s. if v_len (raw_at self s) = 0 then Return None
     else seq (raw_vec_mut self) (Write (set_vlen self (\<lambda>l. l - 1)) (Read (\<lambda>s. let buf = raw_at self s in
       Return (Some (read_bytes (v_ptr buf + v_len buf * of_nat n) n s))))))"

text \<open>The address of an element for writing; the element is logged.\<close>

definition pvec_index_mut :: "usize \<Rightarrow> nat \<Rightarrow> usize \<Rightarrow> (pm, usize) prog" where
  "pvec_index_mut self n idx = Read (\<lambda>s. let buf = raw_at self s in
     if \<not> idx < v_len buf then Fail Panic
     else let ptr = v_ptr buf + idx * of_nat n in seq (append_log_of ptr (of_nat n)) (Return ptr))"

text \<open>Writing through the reference, as in \<open>*v.index_mut(idx, j) = x\<close>, and reading \<open>v[idx]\<close>.\<close>

definition pvec_store :: "usize \<Rightarrow> nat \<Rightarrow> usize \<Rightarrow> byte list \<Rightarrow> (pm, unit) prog" where
  "pvec_store self n idx x = bind (pvec_index_mut self n idx) (\<lambda>ptr. store_object ptr x)"

definition pvec_index :: "usize \<Rightarrow> nat \<Rightarrow> usize \<Rightarrow> (pm, byte list) prog" where
  "pvec_index self n idx = Read (\<lambda>s. let buf = raw_at self s in
     if \<not> idx < v_len buf then Fail Panic else Return (read_bytes (v_ptr buf + idx * of_nat n) n s))"

text \<open>The iterators: a range of addresses, shortened from either end.\<close>

record RawValIter =
  it_start :: usize
  it_end :: usize

definition iter_new :: "usize \<Rightarrow> nat \<Rightarrow> pm \<Rightarrow> RawValIter" where
  "iter_new self n s = (let buf = raw_at self s in
     \<lparr>it_start = v_ptr buf, it_end = v_ptr buf + v_len buf * of_nat n\<rparr>)"

definition iter_next :: "nat \<Rightarrow> pm \<Rightarrow> RawValIter \<Rightarrow> byte list option \<times> RawValIter" where
  "iter_next n s i = (if it_start i = it_end i then (None, i)
     else (Some (read_bytes (it_start i) n s), i\<lparr>it_start := it_start i + of_nat n\<rparr>))"

definition iter_next_back :: "nat \<Rightarrow> pm \<Rightarrow> RawValIter \<Rightarrow> byte list option \<times> RawValIter" where
  "iter_next_back n s i = (if it_start i = it_end i then (None, i)
     else let e = it_end i - of_nat n in (Some (read_bytes e n s), i\<lparr>it_end := e\<rparr>))"

definition iter_size_hint :: "nat \<Rightarrow> RawValIter \<Rightarrow> usize" where
  "iter_size_hint n i = (it_end i - it_start i) div of_nat (if n = 0 then 1 else n)"

definition pvec_drain :: "usize \<Rightarrow> nat \<Rightarrow> (pm, RawValIter) prog" where
  "pvec_drain self n = Read (\<lambda>s. let it = iter_new self n s in
     seq (raw_vec_mut self) (seq (writes [set_vlen self (\<lambda>_. 0)]) (Return it)))"

section \<open>A vector holds a list\<close>

abbreviation slot_at :: "RawPVec \<Rightarrow> nat \<Rightarrow> nat \<Rightarrow> usize" where
  "slot_at v n i \<equiv> v_ptr v + of_nat (i * n)"

definition in_buffer :: "RawPVec \<Rightarrow> nat \<Rightarrow> usize \<Rightarrow> bool" where
  "in_buffer v n x \<longleftrightarrow> unat (x - v_ptr v) < unat (v_cap v) * n"

definition pvec_rep :: "usize \<Rightarrow> nat \<Rightarrow> pm \<Rightarrow> byte list list \<Rightarrow> bool" where
  "pvec_rep self n s xs \<longleftrightarrow> (let v = raw_at self s in 0 < n \<and> unat (v_cap v) * n < 2 ^ 31 \<and>
     length xs \<le> unat (v_cap v) \<and> v_len v = of_nat (length xs) \<and>
     (\<forall>x. in_object x self 12 \<longrightarrow> \<not> in_buffer v n x) \<and>
     map (\<lambda>i. read_bytes (slot_at v n i) n s) [0..<length xs] = xs)"

definition to_bump :: "RawPVec \<Rightarrow> BumpAllocator" where
  "to_bump v = \<lparr>heap_start = v_ptr v, heap_end = v_cap v, bump_next = v_len v\<rparr>"

lemma header_bump: "to_bump (raw_at a s) = bump_at a s" "put_raw a v = put_bump a (to_bump v)"
  by (simp_all add: to_bump_def raw_at_def bump_at_def put_raw_def put_bump_def fun_eq_iff)

lemma to_bump_eq_iff: "to_bump v = to_bump w \<longleftrightarrow> v = w"
  by (auto simp: to_bump_def intro: RawPVec.equality)

lemma raw_at_put [simp]: "raw_at a (put_raw a v s) = v"
  using bump_obj.get_put [of a "to_bump v" s] by (simp add: header_bump(2) header_bump(1) [symmetric] to_bump_eq_iff)

lemma raw_at_cong:
  assumes "\<And>i. i < 12 \<Longrightarrow> pm_mem t (a + of_nat i) = pm_mem s (a + of_nat i)"
  shows "raw_at a t = raw_at a s"
  using bump_at_cong [OF assms] by (simp add: header_bump(1) [symmetric] to_bump_eq_iff)

lemma in_header: "i < 12 \<Longrightarrow> in_object (a + of_nat i) a 12"
  using unat_of_nat_small [of i] by (simp add: in_object_def)

lemma put_raw_frame: "\<not> in_object x a 12 \<Longrightarrow> pm_mem (put_raw a v s) x = pm_mem s x"
  by (simp add: put_raw_def write_bytes_apply in_object_def)

lemma raw_at_set_vlen: "raw_at a (set_vlen a f s) = (raw_at a s)\<lparr>v_len := f (v_len (raw_at a s))\<rparr>"
  by (simp add: set_vlen_def)

text \<open>Where the bytes of the slots are.\<close>

lemma slot_offset:
  fixes p :: usize
  assumes "a < 2 ^ 31" "b < 2 ^ 31"
  shows "unat (p + of_nat a - (p + of_nat b)) = (if b \<le> a then a - b else a + 2 ^ 32 - b)"
proof -
  have "p + of_nat a - (p + of_nat b) = (of_nat a - of_nat b :: usize)" by simp
  then show ?thesis using assms unat_of_nat_small [of a] unat_of_nat_small [of b]
    by (simp add: unat_sub_if')
qed

lemma slot_step: "slot_at v n i + of_nat k = v_ptr v + of_nat (i * n + k)"
  by simp

lemma slot_bound: "i < c \<Longrightarrow> k < n \<Longrightarrow> i * n + k < c * n" for n :: nat
  by (metis Suc_leI add.commute add_less_cancel_left less_le_trans mult_Suc mult_le_mono1)

lemma slot_in_buffer:
  assumes "unat (v_cap v) * n < 2 ^ 31" "i < unat (v_cap v)" "k < n"
  shows "in_buffer v n (slot_at v n i + of_nat k)"
  unfolding in_buffer_def slot_step
  using slot_bound [OF assms(2,3)] assms(1) slot_offset [of "i * n + k" 0 "v_ptr v"] by simp

lemma read_slot_cong:
  assumes "unat (v_cap v) * n < 2 ^ 31" "i < unat (v_cap v)" "\<And>x. in_buffer v n x \<Longrightarrow> pm_mem t x = pm_mem s x"
  shows "read_bytes (slot_at v n i) n t = read_bytes (slot_at v n i) n s"
  using assms(3) slot_in_buffer [OF assms(1,2)] unfolding read_bytes_def by (simp del: of_nat_mult)

lemma read_slot_write:
  assumes "unat (v_cap v) * n < 2 ^ 31" "i < unat (v_cap v)" "j < unat (v_cap v)" "length x = n"
  shows "read_bytes (slot_at v n i) n (s\<lparr>pm_mem := write_bytes m (slot_at v n j) x\<rparr>) =
    (if i = j then x else read_bytes (slot_at v n i) n (s\<lparr>pm_mem := m\<rparr>))"
proof -
  have len: "length x < 2 ^ 32"
    using assms slot_bound [of j "unat (v_cap v)" "n - 1" n] by (cases n) simp_all
  have "write_bytes m (slot_at v n j) x (slot_at v n i + of_nat k) = (if i = j then x ! k else m (slot_at v n i + of_nat k))"
    if "k < n" for k
  proof -
    have b: "i * n + k < 2 ^ 31" using slot_bound [OF assms(2) that] assms(1) by (rule less_trans)
    have "0 < n" using that by simp
    then have b': "j * n < 2 ^ 31" using slot_bound [OF assms(3), of 0 n] assms(1) by (metis add.right_neutral less_trans)
    have "unat (slot_at v n i + of_nat k - slot_at v n j) = (if j * n \<le> i * n + k then i * n + k - j * n else i * n + k + 2 ^ 32 - j * n)"
      unfolding slot_step by (rule slot_offset [OF b b'])
    moreover have "i * n + k - j * n < n \<and> j * n \<le> i * n + k \<longleftrightarrow> i = j"
    proof (cases i j rule: linorder_cases)
      case less
      then have "i * n + k < j * n" using slot_bound that by blast
      then show ?thesis using less by simp
    next
      case greater
      then have "j * n + n \<le> i * n" by (metis Suc_leI add.commute mult_Suc mult_le_mono1)
      then show ?thesis using greater by simp
    qed (use that in simp)
    moreover have "\<not> i * n + k + 2 ^ 32 - j * n < n" if "\<not> j * n \<le> i * n + k"
      using b' assms(4) slot_bound [of j "unat (v_cap v)" "n - 1" n] assms(1,3) \<open>k < n\<close> by simp
    ultimately show ?thesis using assms(4) by (auto simp: write_bytes_apply [OF len])
  qed
  then show ?thesis using assms(4) by (auto simp: read_bytes_def intro: nth_equalityI)
qed

lemma pvec_rep_update:
  assumes "pvec_rep self n s xs" "v = raw_at self s" "raw_at self t = v\<lparr>v_len := of_nat (length ys)\<rparr>"
    and "length ys \<le> unat (v_cap v)" "\<And>i. i < length ys \<Longrightarrow> read_bytes (slot_at v n i) n t = ys ! i"
  shows "pvec_rep self n t ys"
  using assms by (auto simp: pvec_rep_def Let_def in_buffer_def intro: nth_equalityI)

lemma pvec_rep_facts:
  assumes "pvec_rep self n s xs" "v = raw_at self s"
  shows "0 < n" "unat (v_cap v) * n < 2 ^ 31" "length xs \<le> unat (v_cap v)" "v_len v = of_nat (length xs)"
    "\<And>x. in_buffer v n x \<Longrightarrow> \<not> in_object x self 12" "\<And>i. i < length xs \<Longrightarrow> read_bytes (slot_at v n i) n s = xs ! i"
    "unat (v_cap v) < 2 ^ 31" "unat (v_len v) = length xs" "\<And>i. i < length xs \<Longrightarrow> length (xs ! i) = n"
proof -
  show f: "0 < n" "unat (v_cap v) * n < 2 ^ 31" "length xs \<le> unat (v_cap v)" "v_len v = of_nat (length xs)"
    "\<And>x. in_buffer v n x \<Longrightarrow> \<not> in_object x self 12"
    using assms by (auto simp: pvec_rep_def Let_def)
  show e: "read_bytes (slot_at v n i) n s = xs ! i" if "i < length xs" for i
    using assms that unfolding pvec_rep_def Let_def by (metis (no_types, lifting) add_0 nth_map_upt diff_zero)
  show "length (xs ! i) = n" if "i < length xs" for i using arg_cong [OF e [OF that], of length] by (simp add: read_bytes_def)
  show "unat (v_cap v) < 2 ^ 31" using f(1,2) by (metis One_nat_def Suc_leI le_less_trans mult.right_neutral mult_le_mono2)
  then show "unat (v_len v) = length xs" using f(3,4) unat_of_nat_small [of "length xs"] by simp
qed

section \<open>The operations on represented lists\<close>

lemma exec_append_log:
  assumes "j_tail s + (aligned_size sz + 4 + 4) \<le> JOURNAL_SIZE"
  shows "\<exists>u. exec (append_log_of a sz) s = Inr ((), u) \<and> pm_mem u = pm_mem s \<and> j_tail u = j_tail s + (aligned_size sz + 4 + 4)"
  using assms by (simp add: append_log_of_def Let_def exec_seq exec_copy_to_log put_word_frame)

lemma aligned_12: "aligned_size 12 = 12"
  by (simp add: aligned_size_def arch_addr_align_up_def ARCH_ALIGN_def)

lemma exec_raw_vec_mut:
  assumes "j_tail s + 20 \<le> JOURNAL_SIZE"
  shows "\<exists>u. exec (raw_vec_mut self) s = Inr ((), u) \<and> pm_mem u = pm_mem s \<and> j_tail u = j_tail s + 20"
  using exec_append_log [of s 12 self] assms by (simp add: raw_vec_mut_def create_log_def aligned_12)

lemma pm_mem_raw: "pm_mem u = pm_mem s \<Longrightarrow> raw_at a u = raw_at a s"
  by (simp add: raw_at_def)

lemma pm_mem_read: "pm_mem u = pm_mem s \<Longrightarrow> read_bytes a n u = read_bytes a n s"
  by (simp add: read_bytes_def)

lemma pm_mem_rep: "pm_mem u = pm_mem s \<Longrightarrow> pvec_rep self n u xs = pvec_rep self n s xs"
  using pm_mem_raw [of u s self] pm_mem_read [of u s] by (simp add: pvec_rep_def)

lemma read_slot_set_vlen:
  assumes "pvec_rep self n s xs" "v = raw_at self s" "i < unat (v_cap v)"
  shows "read_bytes (slot_at v n i) n (set_vlen self f t) = read_bytes (slot_at v n i) n t"
proof (rule read_slot_cong [OF pvec_rep_facts(2) [OF assms(1,2)] assms(3)])
  fix x
  assume "in_buffer v n x"
  then have "\<not> in_object x self 12" by (rule pvec_rep_facts(5) [OF assms(1,2)])
  then show "pm_mem (set_vlen self f t) x = pm_mem t x" by (simp add: set_vlen_def put_raw_frame)
qed

lemma rep_set_vlen:
  assumes "pvec_rep self n s xs" "k \<le> length xs" "f (of_nat (length xs)) = of_nat k"
  shows "pvec_rep self n (set_vlen self f s) (take k xs)"
proof (rule pvec_rep_update [OF assms(1) refl])
  note r = pvec_rep_facts [OF assms(1) refl]
  show "raw_at self (set_vlen self f s) = (raw_at self s)\<lparr>v_len := of_nat (length (take k xs))\<rparr>"
    using r(4) assms(2,3) by (simp add: raw_at_set_vlen min_def)
  show "length (take k xs) \<le> unat (v_cap (raw_at self s))" using r(3) by simp
  show "read_bytes (slot_at (raw_at self s) n i) n (set_vlen self f s) = take k xs ! i" if "i < length (take k xs)" for i
    using that r(3,6) read_slot_set_vlen [OF assms(1) refl, of i] by simp
qed

lemma raw_at_write_slot:
  assumes "pvec_rep self n s xs" "v = raw_at self s" "j < unat (v_cap v)" "length x = n"
  shows "raw_at self (s\<lparr>pm_mem := write_bytes (pm_mem s) (slot_at v n j) x\<rparr>) = v"
proof -
  note r = pvec_rep_facts [OF assms(1,2)]
  have n: "n < 2 ^ 32" using r(2) assms(3) slot_bound [of j "unat (v_cap v)" "n - 1" n] r(1) by simp
  have "\<not> unat (self + of_nat i - slot_at v n j) < n" if "i < 12" for i
  proof
    let ?k = "unat (self + of_nat i - slot_at v n j)"
    assume "?k < n"
    from slot_in_buffer [OF r(2) assms(3) this] have "in_buffer v n (self + of_nat i)" by simp
    then show False using r(5) in_header [OF that, of self] by blast
  qed
  then have "raw_at self (s\<lparr>pm_mem := write_bytes (pm_mem s) (slot_at v n j) x\<rparr>) = raw_at self s"
    by (intro raw_at_cong) (use n assms(4) in \<open>simp add: write_bytes_apply\<close>)
  then show ?thesis using assms(2) by simp
qed

lemma rep_write_slot:
  assumes "pvec_rep self n s xs" "v = raw_at self s" "j < length xs" "length x = n"
  shows "pvec_rep self n (s\<lparr>pm_mem := write_bytes (pm_mem s) (slot_at v n j) x\<rparr>) (xs[j := x])"
proof (rule pvec_rep_update [OF assms(1,2)])
  note r = pvec_rep_facts [OF assms(1,2)]
  have j: "j < unat (v_cap v)" using r(3) assms(3) by simp
  show "raw_at self (s\<lparr>pm_mem := write_bytes (pm_mem s) (slot_at v n j) x\<rparr>) = v\<lparr>v_len := of_nat (length (xs[j := x]))\<rparr>"
    using raw_at_write_slot [OF assms(1,2) j assms(4)] r(4) by simp
  show "length (xs[j := x]) \<le> unat (v_cap v)" using r(3) by simp
  show "read_bytes (slot_at v n i) n (s\<lparr>pm_mem := write_bytes (pm_mem s) (slot_at v n j) x\<rparr>) = xs[j := x] ! i"
    if "i < length (xs[j := x])" for i
    using that r(3,6) read_slot_write [OF r(2) _ j assms(4), where i = i and s = s and m = "pm_mem s"] by (simp add: nth_list_update del: of_nat_mult)
qed

lemma rep_push:
  assumes "pvec_rep self n s xs" "v = raw_at self s" "length xs < unat (v_cap v)" "length x = n"
  shows "pvec_rep self n (set_vlen self (\<lambda>l. l + 1) (s\<lparr>pm_mem := write_bytes (pm_mem s) (slot_at v n (length xs)) x\<rparr>)) (xs @ [x])"
proof (rule pvec_rep_update [OF assms(1,2)])
  note r = pvec_rep_facts [OF assms(1,2)]
  let ?s = "s\<lparr>pm_mem := write_bytes (pm_mem s) (slot_at v n (length xs)) x\<rparr>"
  show "raw_at self (set_vlen self (\<lambda>l. l + 1) ?s) = v\<lparr>v_len := of_nat (length (xs @ [x]))\<rparr>"
    using raw_at_write_slot [OF assms] r(4) by (simp add: raw_at_set_vlen add.commute)
  show "length (xs @ [x]) \<le> unat (v_cap v)" using assms(3) by simp
  show "read_bytes (slot_at v n i) n (set_vlen self (\<lambda>l. l + 1) ?s) = (xs @ [x]) ! i" if "i < length (xs @ [x])" for i
  proof -
    have i: "i < unat (v_cap v)" using that assms(3) by simp
    show ?thesis
      using that r(6) read_slot_write [OF r(2) i assms(3,4), where s = s and m = "pm_mem s"] read_slot_set_vlen [OF assms(1,2) i, of "\<lambda>l. l + 1" ?s]
      by (auto simp: nth_append less_Suc_eq simp del: of_nat_mult)
  qed
qed

text \<open>The iterators visit the elements from the front and from the back.\<close>

lemma iter_steps:
  assumes "pvec_rep self n s xs" "v = raw_at self s" "i < k" "k \<le> length xs"
  shows "iter_next n s \<lparr>it_start = slot_at v n i, it_end = slot_at v n k\<rparr> =
      (Some (xs ! i), \<lparr>it_start = slot_at v n (Suc i), it_end = slot_at v n k\<rparr>)"
    and "iter_next_back n s \<lparr>it_start = slot_at v n i, it_end = slot_at v n k\<rparr> =
      (Some (xs ! (k - 1)), \<lparr>it_start = slot_at v n i, it_end = slot_at v n (k - 1)\<rparr>)"
proof -
  note r = pvec_rep_facts [OF assms(1,2)]
  have "k * n \<le> unat (v_cap v) * n" using assms(4) r(3) by simp
  moreover have lt: "i * n < k * n" using assms(3) r(1) by simp
  ultimately have "k * n < 2 ^ 31" "i * n < 2 ^ 31" using r(2) by linarith+
  then have "unat (slot_at v n k - slot_at v n i) = k * n - i * n" using slot_offset [of "k * n" "i * n" "v_ptr v"] lt by simp
  then have ne: "slot_at v n i \<noteq> slot_at v n k" using lt by (metis diff_self unat_0 zero_less_diff less_irrefl)
  have st: "slot_at v n i + of_nat n = slot_at v n (Suc i)" "slot_at v n k - of_nat n = slot_at v n (k - 1)"
    using assms(3) by (cases k; simp add: algebra_simps)+
  have ik: "i < length xs" "k - 1 < length xs" using assms(3,4) by simp_all
  show "iter_next n s \<lparr>it_start = slot_at v n i, it_end = slot_at v n k\<rparr> =
      (Some (xs ! i), \<lparr>it_start = slot_at v n (Suc i), it_end = slot_at v n k\<rparr>)"
    by (simp only: iter_next_def RawValIter.simps ne if_False st(1) r(6) [OF ik(1)])
  show "iter_next_back n s \<lparr>it_start = slot_at v n i, it_end = slot_at v n k\<rparr> =
      (Some (xs ! (k - 1)), \<lparr>it_start = slot_at v n i, it_end = slot_at v n (k - 1)\<rparr>)"
    by (simp only: iter_next_back_def Let_def RawValIter.simps ne if_False st(2) r(6) [OF ik(2)])
qed

section \<open>Sequences of operations\<close>

primrec runs :: "('o \<Rightarrow> (pm, 'r) prog) \<Rightarrow> 'o list \<Rightarrow> (pm, 'r list) prog" where
  "runs run [] = Return []"
| "runs run (p # ps) = bind (run p) (\<lambda>r. bind (runs run ps) (\<lambda>rs. Return (r # rs)))"

primrec specs :: "('o \<Rightarrow> 'a \<Rightarrow> fault + 'r \<times> 'a) \<Rightarrow> 'o list \<Rightarrow> 'a \<Rightarrow> fault + 'r list \<times> 'a" where
  "specs spec [] x = Inr ([], x)"
| "specs spec (p # ps) x = (case spec p x of Inl e \<Rightarrow> Inl e
   | Inr (r, y) \<Rightarrow> map_sum id (map_prod (\<lambda>rs. r # rs) id) (specs spec ps y))"

text \<open>A container in persistent memory whose operations do what a specification says, as long as the log records they
  append fit into the journal; \<open>cost\<close> bounds what an operation appends.\<close>

locale journaled_adt =
  fixes rep :: "pm \<Rightarrow> 'a \<Rightarrow> bool" and run :: "'o \<Rightarrow> (pm, 'r) prog" and spec :: "'o \<Rightarrow> 'a \<Rightarrow> fault + 'r \<times> 'a"
    and ok :: "'o \<Rightarrow> bool" and cost :: "'o \<Rightarrow> nat"
  assumes step: "rep s x \<Longrightarrow> ok p \<Longrightarrow> j_tail s + cost p \<le> JOURNAL_SIZE \<Longrightarrow>
    case spec p x of Inl e \<Rightarrow> exec (run p) s = Inl e
    | Inr (r, y) \<Rightarrow> \<exists>t. exec (run p) s = Inr (r, t) \<and> rep t y \<and> j_tail t \<le> j_tail s + cost p"
begin

lemma refines:
  "rep s x \<Longrightarrow> \<forall>p\<in>set ps. ok p \<Longrightarrow> j_tail s + sum_list (map cost ps) \<le> JOURNAL_SIZE \<Longrightarrow>
    case specs spec ps x of Inl e \<Rightarrow> exec (runs run ps) s = Inl e
    | Inr (rs, y) \<Rightarrow> \<exists>t. exec (runs run ps) s = Inr (rs, t) \<and> rep t y"
proof (induction ps arbitrary: s x)
  case (Cons p ps)
  note one = step [OF Cons.prems(1), of p]
  show ?case
  proof (cases "spec p x")
    case (Inl e)
    then show ?thesis using one Cons.prems(2,3) by (simp add: exec_bind)
  next
    case (Inr ry)
    obtain r y where ry: "ry = (r, y)" by fastforce
    obtain t where t: "exec (run p) s = Inr (r, t)" "rep t y" "j_tail t \<le> j_tail s + cost p"
      using one Inr ry Cons.prems(2,3) by auto
    from Cons.IH [OF t(2)] t(3) Cons.prems(2,3)
    have "case specs spec ps y of Inl e \<Rightarrow> exec (runs run ps) t = Inl e
      | Inr (rs, y) \<Rightarrow> \<exists>t'. exec (runs run ps) t = Inr (rs, t') \<and> rep t' y" by simp
    then show ?thesis using Inr ry t(1) by (auto simp: exec_bind split: sum.splits)
  qed
qed simp

end

section \<open>A vector refines a bounded list\<close>

datatype vop = VPush "byte list" | VPop | VStore nat "byte list" | VIndex nat | VClear

fun vop_spec :: "nat \<Rightarrow> vop \<Rightarrow> byte list list \<Rightarrow> fault + byte list option \<times> byte list list" where
  "vop_spec c (VPush x) xs = (if length xs = c then Inl Panic else Inr (None, xs @ [x]))"
| "vop_spec c VPop xs = (if xs = [] then Inr (None, []) else Inr (Some (last xs), butlast xs))"
| "vop_spec c (VStore i x) xs = (if i < length xs then Inr (None, xs[i := x]) else Inl Panic)"
| "vop_spec c (VIndex i) xs = (if i < length xs then Inr (Some (xs ! i), xs) else Inl Panic)"
| "vop_spec c VClear xs = Inr (None, [])"

definition vops_spec :: "nat \<Rightarrow> vop list \<Rightarrow> byte list list \<Rightarrow> fault + byte list option list \<times> byte list list" where
  "vops_spec c = specs (vop_spec c)"

primrec vop_run :: "usize \<Rightarrow> nat \<Rightarrow> vop \<Rightarrow> (pm, byte list option) prog" where
  "vop_run self n (VPush x) = seq (pvec_push self n x) (Return None)"
| "vop_run self n VPop = pvec_pop self n"
| "vop_run self n (VStore i x) = seq (pvec_store self n (of_nat i) x) (Return None)"
| "vop_run self n (VIndex i) = bind (pvec_index self n (of_nat i)) (\<lambda>x. Return (Some x))"
| "vop_run self n VClear = seq (pvec_clear self) (Return None)"

definition vops_run :: "usize \<Rightarrow> nat \<Rightarrow> vop list \<Rightarrow> (pm, byte list option list) prog" where
  "vops_run self n = runs (vop_run self n)"

text \<open>The arguments are elements and indices of the program, and what the operations take of the journal.\<close>

primrec vop_ok :: "nat \<Rightarrow> vop \<Rightarrow> bool" where
  "vop_ok n (VPush x) \<longleftrightarrow> length x = n"
| "vop_ok n VPop \<longleftrightarrow> True"
| "vop_ok n (VStore i x) \<longleftrightarrow> i < 2 ^ 32 \<and> length x = n"
| "vop_ok n (VIndex i) \<longleftrightarrow> i < 2 ^ 32"
| "vop_ok n VClear \<longleftrightarrow> True"

primrec vop_log :: "nat \<Rightarrow> vop \<Rightarrow> nat" where
  "vop_log n (VPush x) = 20"
| "vop_log n VPop = 20"
| "vop_log n (VStore i x) = aligned_size (of_nat n) + 8"
| "vop_log n (VIndex i) = 0"
| "vop_log n VClear = 20"

lemma rep_index:
  assumes "pvec_rep self n s xs" "i < 2 ^ 32"
  shows "of_nat i < v_len (raw_at self s) \<longleftrightarrow> i < length xs"
  using pvec_rep_facts(8) [OF assms(1) refl] unat_of_nat_small [OF assms(2)] by (simp add: word_less_nat_alt)

lemma run_push:
  assumes "pvec_rep self n s xs" "length x = n" "j_tail s + 20 \<le> JOURNAL_SIZE" "c = unat (v_cap (raw_at self s))"
  shows "if length xs = c then exec (pvec_push self n x) s = Inl Panic
    else \<exists>t. exec (pvec_push self n x) s = Inr ((), t) \<and> pvec_rep self n t (xs @ [x]) \<and> j_tail t = j_tail s + 20 \<and>
      v_cap (raw_at self t) = v_cap (raw_at self s)"
proof -
  obtain u where u: "exec (raw_vec_mut self) s = Inr ((), u)" "pm_mem u = pm_mem s" "j_tail u = j_tail s + 20"
    using exec_raw_vec_mut [OF assms(3)] by blast
  let ?v = "raw_at self s"
  note r = pvec_rep_facts [OF assms(1) refl]
  have v: "raw_at self u = ?v" by (rule pm_mem_raw [OF u(2)])
  have rep: "pvec_rep self n u xs" using assms(1) pm_mem_rep [OF u(2)] by simp
  have full: "v_len ?v = v_cap ?v \<longleftrightarrow> length xs = c" using r(8) assms(4) by (simp add: word_unat_eq_iff)
  have a: "v_ptr ?v + v_len ?v * of_nat n = slot_at ?v n (length xs)" using r(4) by simp
  let ?t = "set_vlen self (\<lambda>l. l + 1) (u\<lparr>pm_mem := write_bytes (pm_mem u) (slot_at ?v n (length xs)) x\<rparr>)"
  show ?thesis
  proof (cases "length xs = c")
    case True
    then show ?thesis using full u(1) v by (simp add: pvec_push_def exec_seq Let_def)
  next
    case False
    then have "length xs < unat (v_cap ?v)" using r(3) assms(4) by simp
    from rep_push [OF rep v [symmetric] this assms(2)] raw_at_write_slot [OF rep v [symmetric] this assms(2)]
    have "pvec_rep self n ?t (xs @ [x])" "v_cap (raw_at self ?t) = v_cap ?v" by (simp_all add: raw_at_set_vlen)
    moreover have "exec (pvec_push self n x) s = Inr ((), ?t)"
      using False full u(1) v a by (simp add: pvec_push_def exec_seq Let_def exec_store_object)
    moreover have "j_tail ?t = j_tail s + 20" using u(3) by (simp add: set_vlen_def put_raw_def)
    ultimately show ?thesis using False by simp
  qed
qed

lemma run_shrink:
  assumes "pvec_rep self n s xs" "j_tail s + 20 \<le> JOURNAL_SIZE" "k \<le> length xs" "f (of_nat (length xs)) = of_nat k"
  shows "\<exists>t. exec (seq (raw_vec_mut self) (writes [set_vlen self f])) s = Inr ((), t) \<and> pvec_rep self n t (take k xs) \<and>
    j_tail t = j_tail s + 20 \<and> raw_at self t = (raw_at self s)\<lparr>v_len := of_nat k\<rparr> \<and>
    (\<forall>i<length xs. read_bytes (slot_at (raw_at self s) n i) n t = xs ! i)"
proof -
  obtain u where u: "exec (raw_vec_mut self) s = Inr ((), u)" "pm_mem u = pm_mem s" "j_tail u = j_tail s + 20"
    using exec_raw_vec_mut [OF assms(2)] by blast
  note v = pm_mem_raw [OF u(2), of self]
  have rep: "pvec_rep self n u xs" using assms(1) pm_mem_rep [OF u(2)] by simp
  note r = pvec_rep_facts [OF rep v [symmetric]]
  have "read_bytes (slot_at (raw_at self s) n i) n (set_vlen self f u) = xs ! i" if "i < length xs" for i
    using that r(3,6) read_slot_set_vlen [OF rep v [symmetric], of i f u] by simp
  then show ?thesis using u rep_set_vlen [of self n u xs k f, OF rep assms(3,4)] r(4) v assms(4)
    by (auto simp: exec_seq raw_at_set_vlen) (simp_all add: set_vlen_def put_raw_def)
qed

lemma run_pop:
  assumes "pvec_rep self n s (xs @ [x])" "j_tail s + 20 \<le> JOURNAL_SIZE"
  shows "\<exists>t. exec (pvec_pop self n) s = Inr (Some x, t) \<and> pvec_rep self n t xs \<and> j_tail t = j_tail s + 20 \<and>
    v_cap (raw_at self t) = v_cap (raw_at self s)"
proof -
  let ?v = "raw_at self s"
  note r = pvec_rep_facts [OF assms(1) refl]
  from run_shrink [OF assms, of "length xs" "\<lambda>l. l - 1"] obtain t where
    t: "exec (seq (raw_vec_mut self) (writes [set_vlen self (\<lambda>l. l - 1)])) s = Inr ((), t)" "pvec_rep self n t xs"
      "j_tail t = j_tail s + 20" "raw_at self t = ?v\<lparr>v_len := of_nat (length xs)\<rparr>"
      "read_bytes (slot_at ?v n (length xs)) n t = x"
    by (auto simp: nth_append)
  have "v_len ?v \<noteq> 0" using r(8) by auto
  moreover have "exec (seq (raw_vec_mut self) (Write (set_vlen self (\<lambda>l. l - 1)) q)) s = exec q t" for q :: "(pm, byte list option) prog"
    using t(1) by (auto simp: exec_seq split: sum.splits)
  ultimately show ?thesis using t(2-5) by (simp add: pvec_pop_def Let_def)
qed

lemma run_store:
  assumes "pvec_rep self n s xs" "i < 2 ^ 32" "length x = n" "j_tail s + (aligned_size (of_nat n) + 8) \<le> JOURNAL_SIZE"
  shows "if i < length xs then \<exists>t. exec (pvec_store self n (of_nat i) x) s = Inr ((), t) \<and> pvec_rep self n t (xs[i := x]) \<and>
      j_tail t = j_tail s + (aligned_size (of_nat n) + 8) \<and> v_cap (raw_at self t) = v_cap (raw_at self s)
    else exec (pvec_store self n (of_nat i) x) s = Inl Panic"
proof -
  let ?v = "raw_at self s" and ?a = "slot_at (raw_at self s) n i"
  note ix = rep_index [OF assms(1,2)]
  obtain u where u: "exec (append_log_of ?a (of_nat n)) s = Inr ((), u)" "pm_mem u = pm_mem s"
      "j_tail u = j_tail s + (aligned_size (of_nat n) + 8)"
    using exec_append_log [of s "of_nat n" ?a] assms(4) by auto
  let ?t = "u\<lparr>pm_mem := write_bytes (pm_mem u) ?a x\<rparr>"
  have rep: "pvec_rep self n u xs" using assms(1) pm_mem_rep [OF u(2)] by simp
  note v = pm_mem_raw [OF u(2), of self]
  show ?thesis
  proof (cases "i < length xs")
    case True
    then have "i < unat (v_cap ?v)" using pvec_rep_facts(3) [OF assms(1) refl] by simp
    from raw_at_write_slot [OF rep v [symmetric] this assms(3)] rep_write_slot [OF rep v [symmetric] True assms(3)]
    have "pvec_rep self n ?t (xs[i := x])" "raw_at self ?t = ?v" by simp_all
    moreover have "exec (pvec_store self n (of_nat i) x) s = Inr ((), ?t)"
      using True ix u(1) by (simp add: pvec_store_def pvec_index_mut_def Let_def exec_bind exec_seq exec_store_object)
    ultimately show ?thesis using True u(3) by simp
  next
    case False
    then show ?thesis using ix by (simp add: pvec_store_def pvec_index_mut_def Let_def)
  qed
qed

lemma vop_refines:
  assumes "pvec_rep self n s xs" "vop_ok n p" "j_tail s + vop_log n p \<le> JOURNAL_SIZE" "c = unat (v_cap (raw_at self s))"
  shows "case vop_spec c p xs of Inl e \<Rightarrow> exec (vop_run self n p) s = Inl e
    | Inr (r, ys) \<Rightarrow> \<exists>t. exec (vop_run self n p) s = Inr (r, t) \<and> pvec_rep self n t ys \<and>
        j_tail t \<le> j_tail s + vop_log n p \<and> v_cap (raw_at self t) = v_cap (raw_at self s)"
proof (cases p)
  case (VPush x)
  then show ?thesis using run_push [OF assms(1) _ _ assms(4), of x] assms(2,3)
    by (auto simp: exec_seq split: if_splits)
next
  case VPop
  show ?thesis
  proof (cases xs rule: rev_cases)
    case Nil
    then show ?thesis using VPop assms(1) pvec_rep_facts(4) [OF assms(1) refl] by (simp add: pvec_pop_def)
  next
    case (snoc ys y)
    then show ?thesis using VPop run_pop [of self n s ys y] assms(1,3) by auto
  qed
next
  case (VStore i x)
  then show ?thesis using run_store [OF assms(1), of i x] assms(2,3) by (auto simp: exec_seq split: if_splits)
next
  case (VIndex i)
  then show ?thesis using rep_index [OF assms(1), of i] pvec_rep_facts(6) [OF assms(1) refl, of i] assms(1,2)
    by (auto simp: pvec_index_def Let_def)
next
  case VClear
  then show ?thesis using run_shrink [OF assms(1), of 0 "\<lambda>_. 0"] assms(3)
    by (auto simp: pvec_clear_def exec_seq)
qed

interpretation vec_adt: journaled_adt "\<lambda>s xs. pvec_rep self n s xs \<and> unat (v_cap (raw_at self s)) = c" "vop_run self n"
  "vop_spec c" "vop_ok n" "vop_log n" for self n c
proof (unfold_locales, elim conjE)
  fix s xs p
  assume h: "pvec_rep self n s xs" "vop_ok n p" "j_tail s + vop_log n p \<le> JOURNAL_SIZE" "unat (v_cap (raw_at self s)) = c"
  show "case vop_spec c p xs of Inl e \<Rightarrow> exec (vop_run self n p) s = Inl e
    | Inr (r, ys) \<Rightarrow> \<exists>t. exec (vop_run self n p) s = Inr (r, t) \<and>
        (pvec_rep self n t ys \<and> unat (v_cap (raw_at self t)) = c) \<and> j_tail t \<le> j_tail s + vop_log n p"
    using vop_refines [OF h(1-3), of c] h(4) by (auto split: sum.splits)
qed


section \<open>Transactions that push\<close>

definition free_slots :: "RawPVec \<Rightarrow> nat \<Rightarrow> nat \<Rightarrow> usize set" where
  "free_slots v n k = {y. in_buffer v n y \<and> k * n \<le> unat (y - v_ptr v)}"

lemma slot_free:
  assumes "unat (v_cap v) * n < 2 ^ 31" "j < unat (v_cap v)" "unat (y - slot_at v n j) < n"
  shows "y \<in> free_slots v n j"
proof -
  let ?k = "unat (y - slot_at v n j)"
  have y: "y = slot_at v n j + of_nat ?k" by simp
  have b: "j * n + ?k < 2 ^ 31" using slot_bound [OF assms(2,3)] assms(1) by (rule less_trans)
  have "unat (slot_at v n j + of_nat ?k - v_ptr v) = j * n + ?k"
    unfolding slot_step using slot_offset [OF b, of 0 "v_ptr v"] by simp
  then have "j * n \<le> unat (y - v_ptr v)" using y by simp
  then show ?thesis using slot_in_buffer [OF assms] y by (simp add: free_slots_def)
qed

lemma rep_outside_free:
  assumes "pvec_rep self n s xs" "v = raw_at self s" "\<And>y. y \<notin> free_slots v n (length xs) \<Longrightarrow> pm_mem t y = pm_mem s y"
  shows "pvec_rep self n t xs"
proof (rule pvec_rep_update [OF assms(1,2)])
  note r = pvec_rep_facts [OF assms(1,2)]
  have "pm_mem t (self + of_nat i) = pm_mem s (self + of_nat i)" if "i < 12" for i
    using assms(3) r(5) in_header [OF that, of self] by (auto simp: free_slots_def)
  then show "raw_at self t = v\<lparr>v_len := of_nat (length xs)\<rparr>" using raw_at_cong [of t self s] r(4) assms(2) by simp
  show "length xs \<le> unat (v_cap v)" by (rule r(3))
  show "read_bytes (slot_at v n i) n t = xs ! i" if i: "i < length xs" for i
  proof -
    have "pm_mem t (slot_at v n i + of_nat k) = pm_mem s (slot_at v n i + of_nat k)" if "k < n" for k
    proof (rule assms(3))
      have "i * n + k < length xs * n" using slot_bound [OF i that] .
      moreover have b: "i * n + k < 2 ^ 31" using slot_bound [of i "unat (v_cap v)" k n] i that r(2,3) by linarith
      have "unat (slot_at v n i + of_nat k - v_ptr v) = i * n + k"
        unfolding slot_step using slot_offset [OF b, of 0 "v_ptr v"] by simp
      ultimately show "slot_at v n i + of_nat k \<notin> free_slots v n (length xs)" by (simp add: free_slots_def)
    qed
    then have "read_bytes (slot_at v n i) n t = read_bytes (slot_at v n i) n s" by (simp add: read_bytes_def)
    then show ?thesis using r(6) [OF i] by simp
  qed
qed

lemma confined_mono: "confined P u t \<Longrightarrow> (\<And>x. P x \<Longrightarrow> Q x) \<Longrightarrow> confined Q u t"
  by (auto simp: confined_def)

lemma confined_trans: "confined P u w \<Longrightarrow> confined P w t \<Longrightarrow> confined P u t"
  unfolding confined_def by metis

lemma push_confined:
  assumes "pvec_rep self n u xs" "v = raw_at self u" "length x = n"
    and "t \<in> set (states (Read (\<lambda>s. let buf = raw_at self s in if v_len buf = v_cap buf then Fail Panic
     else seq (store_object (v_ptr buf + v_len buf * of_nat n) x) (writes [set_vlen self (\<lambda>l. l + 1)]))) u)"
  shows "confined (\<lambda>y. y \<in> free_slots v n (length xs) \<or> in_object y self 12) u t"
proof (cases "v_len v = v_cap v")
  case True
  then show ?thesis using assms(2,4) by (simp add: Let_def confined_def)
next
  case False
  note r = pvec_rep_facts [OF assms(1,2)]
  let ?a = "slot_at v n (length xs)"
  have c: "length xs < unat (v_cap v)" using False r(3,8) by (metis le_neq_implies_less word_unat_eq_iff)
  have n: "n < 2 ^ 32" using slot_bound [OF c, of "n - 1" n] r(1,2) by simp
  have part: "confined (\<lambda>y. y \<in> free_slots v n (length xs)) u (u\<lparr>pm_mem := write_bytes (pm_mem u) ?a (take k x)\<rparr>)" for k
    using slot_free [OF r(2) c] assms(3) n by (auto simp: confined_def write_bytes_apply)
  have a: "v_ptr v + v_len v * of_nat n = ?a" using r(4) by simp
  from assms(4) have "t \<in> set (states (bind (store_object ?a x) (\<lambda>_. writes [set_vlen self (\<lambda>l. l + 1)])) u)"
    using False a assms(2) by (simp add: Let_def seq_def)
  then show ?thesis
  proof (cases rule: states_bind_cases)
    case 1
    then obtain k where "t = u\<lparr>pm_mem := write_bytes (pm_mem u) ?a (take k x)\<rparr>" using store_object_states by blast
    then have "confined (\<lambda>y. y \<in> free_slots v n (length xs)) u t" using part [of k] by (simp only:)
    then show ?thesis by (rule confined_mono) simp
  next
    case (2 b w)
    have w: "w = u\<lparr>pm_mem := write_bytes (pm_mem u) ?a x\<rparr>" using 2(1) by (simp add: exec_store_object)
    have cw: "confined (\<lambda>y. y \<in> free_slots v n (length xs) \<or> in_object y self 12) u w"
      using part [of "length x"] unfolding w take_all [OF order_refl] by (rule confined_mono) simp
    have "t = w \<or> t = set_vlen self (\<lambda>l. l + 1) w" using 2(2) by auto
    moreover have "confined (\<lambda>y. in_object y self 12) w (set_vlen self (\<lambda>l. l + 1) w)"
      unfolding set_vlen_def header_bump(2) by (rule put_bump_confined)
    then have "confined (\<lambda>y. y \<in> free_slots v n (length xs) \<or> in_object y self 12) w (set_vlen self (\<lambda>l. l + 1) w)"
      by (rule confined_mono) simp
    ultimately show ?thesis using cw confined_trans [OF cw] by blast
  qed
qed

text \<open>A push that is not committed is undone: it can be cut off anywhere and the recovery any number
  of times; the next complete recovery returns, the vector holds what it held, and only bytes
  of its unused slots can have changed. (The element is written without being logged, which is
  harmless there.)\<close>

theorem pvec_push_undone:
  assumes "is_empty s" "pvec_rep self n s xs" "length x = n"
  shows "\<exists>t. exec recover (reboots recover ks (crash (pvec_push self n x) k s)) = Inr ((), t) \<and> is_empty t \<and>
    pvec_rep self n t xs \<and> (\<forall>y. y \<notin> free_slots (raw_at self s) n (length xs) \<longrightarrow> pm_mem t y = pm_mem s y)"
proof -
  let ?v = "raw_at self s" and ?t = "crash (pvec_push self n x) k s"
  have t: "?t \<in> set (states (pvec_push self n x) s)" by (rule crash_in_states)
  have "\<exists>m. undo_inv m ?t \<and> (\<forall>y. y \<notin> free_slots ?v n (length xs) \<longrightarrow> m y = pm_mem s y)"
    unfolding pvec_push_def raw_vec_mut_def create_log_def
  proof (rule logged_states [OF assms(1) _ t [unfolded pvec_push_def raw_vec_mut_def create_log_def]])
    fix u t
    assume u: "pm_mem u = pm_mem s" and t: "t \<in> set (states (Read (\<lambda>s. let buf = raw_at self s in
      if v_len buf = v_cap buf then Fail Panic
      else seq (store_object (v_ptr buf + v_len buf * of_nat n) x) (writes [set_vlen self (\<lambda>l. l + 1)]))) u)"
    show "confined (\<lambda>y. y \<in> free_slots ?v n (length xs) \<or> in_object y self 12) u t"
      using push_confined [OF _ pm_mem_raw [OF u, symmetric] assms(3) t] assms(2) pm_mem_rep [OF u] by blast
  qed simp
  then obtain m where m: "undo_inv m ?t" "\<forall>y. y \<notin> free_slots ?v n (length xs) \<longrightarrow> m y = pm_mem s y" by blast
  obtain t where t: "exec recover (reboots recover ks ?t) = Inr ((), t)" "pm_mem t = m" "is_empty t"
    using journal.recovery_ends [OF journal.reboots_inv [OF m(1), of ks]] by auto
  then show ?thesis using m(2) rep_outside_free [OF assms(2) refl, of t] by auto
qed

section \<open>Where a vector is not undone\<close>

lemma log_header:
  assumes "enc (j_logs s) (j_tail s) es" "j_tail s + 20 \<le> JOURNAL_SIZE"
  shows "\<exists>u. exec (raw_vec_mut self) s = Inr ((), u) \<and> pm_mem u = pm_mem s \<and> j_tail u = j_tail s + 20 \<and>
    enc (j_logs u) (j_tail u) ((self, read_bytes self 12 s) # es)"
proof -
  obtain u where u: "exec (append_log_of self 12) s = Inr ((), u)" "pm_mem u = pm_mem s"
      "enc (j_logs u) (j_tail u) ((self, object_bytes s self 12) # es)"
    using append_log_of_spec [OF assms(1), of 12 self] assms(2) by (auto simp: aligned_12)
  have "object_bytes s self 12 = read_bytes self 12 s" by (simp add: read_bytes_def)
  then show ?thesis using u append_log_of_tail [OF u(1)] by (simp add: raw_vec_mut_def create_log_def aligned_12 del: enc.simps)
qed

lemma set_vlen_journal: "j_logs (set_vlen a f s) = j_logs s" "j_tail (set_vlen a f s) = j_tail s"
  by (simp_all add: set_vlen_def put_raw_def)

lemma set_vlen_outside: "\<not> in_object y a 12 \<Longrightarrow> pm_mem (set_vlen a f s) y = pm_mem s y"
  by (simp add: set_vlen_def put_raw_frame)

lemma read_bytes_nth: "unat (y - a) < n \<Longrightarrow> read_bytes a n s ! unat (y - a) = pm_mem s y"
  by (simp add: read_bytes_def)

text \<open>A pop and a push in one transaction are not undone: the push overwrites the slot of the popped
  element, which is not logged, and rolling the transaction back restores the length only. The
  vector then holds the new element in the place of the old one.\<close>

theorem pop_push_not_undone:
  assumes "is_empty s" "pvec_rep self n s (xs @ [x])" "length y = n"
  shows "\<exists>u t. exec (seq (pvec_pop self n) (pvec_push self n y)) s = Inr ((), u) \<and>
    exec recover u = Inr ((), t) \<and> is_empty t \<and> pvec_rep self n t (xs @ [y])"
proof -
  let ?v = "raw_at self s" and ?k = "length xs"
  note r = pvec_rep_facts [OF assms(2) refl]
  have k: "?k < unat (v_cap ?v)" "?k < length (xs @ [x])" using r(3) by simp_all
  let ?a = "slot_at ?v n ?k" and ?h = "read_bytes self 12"
  have "enc (j_logs s) (j_tail s) []" using assms(1) by (simp add: is_empty_def)
  from log_header [OF this, of self] obtain u1 where
    u1: "exec (raw_vec_mut self) s = Inr ((), u1)" "pm_mem u1 = pm_mem s" "j_tail u1 = 20"
      "enc (j_logs u1) (j_tail u1) [(self, ?h s)]"
    using assms(1) by (auto simp: is_empty_def JOURNAL_SIZE_def simp del: enc.simps)
  let ?s1 = "set_vlen self (\<lambda>l. l - 1) u1"
  have v1: "raw_at self ?s1 = ?v\<lparr>v_len := of_nat ?k\<rparr>"
    using r(4) by (simp add: raw_at_set_vlen pm_mem_raw [OF u1(2)])
  have e1: "enc (j_logs ?s1) (j_tail ?s1) [(self, ?h s)]" using u1(4) by (simp only: set_vlen_journal)
  have "j_tail ?s1 + 20 \<le> JOURNAL_SIZE" by (simp add: set_vlen_journal u1(3) JOURNAL_SIZE_def)
  from log_header [OF e1 this, of self] obtain u2 where
    u2: "exec (raw_vec_mut self) ?s1 = Inr ((), u2)" "pm_mem u2 = pm_mem ?s1" 
      "enc (j_logs u2) (j_tail u2) [(self, ?h ?s1), (self, ?h s)]" by blast
  let ?s2 = "u2\<lparr>pm_mem := write_bytes (pm_mem u2) ?a y\<rparr>"
  let ?s3 = "set_vlen self (\<lambda>l. l + 1) ?s2"
  have pop: "exec (seq (pvec_pop self n) q) s = exec q ?s1" for q :: "(pm, unit) prog"
    using u1(1) r(8) by (auto simp: pvec_pop_def exec_seq Let_def)
  have v2: "raw_at self u2 = ?v\<lparr>v_len := of_nat ?k\<rparr>" using v1 pm_mem_raw [OF u2(2), of self] by simp
  have "of_nat ?k \<noteq> v_cap ?v" using k(1) r(7) unat_of_nat_small [of ?k] by auto
  then have "exec (pvec_push self n y) ?s1 = Inr ((), ?s3)"
    using u2(1) v2 by (simp add: pvec_push_def exec_seq Let_def exec_store_object)
  then have run: "exec (seq (pvec_pop self n) (pvec_push self n y)) s = Inr ((), ?s3)" by (simp only: pop)
  have e3: "enc (j_logs ?s3) (j_tail ?s3) [(self, ?h ?s1), (self, ?h s)]" using u2(3) by (simp add: set_vlen_journal del: enc.simps)
  let ?t = "?s3\<lparr>pm_mem := undo [(self, ?h ?s1), (self, ?h s)] (pm_mem ?s3), j_tail := 0\<rparr>"
  have rec: "exec recover ?s3 = Inr ((), ?t)" by (rule recover_undoes [OF e3])
  let ?s' = "s\<lparr>pm_mem := write_bytes (pm_mem s) ?a y\<rparr>"
  have n: "length y < 2 ^ 32" using slot_bound [OF k(1), of "n - 1" n] r(1,2) assms(3) by simp
  have "pm_mem ?t z = pm_mem ?s' z" for z
  proof (cases "in_object z self 12")
    case True
    have "\<not> unat (z - ?a) < n" using slot_free [OF r(2) k(1)] r(5) True by (auto simp: free_slots_def)
    then show ?thesis using True n assms(3) read_bytes_nth [of z self 12 s]
      by (simp add: in_object_def write_bytes_apply read_bytes_def)
  next
    case False
    then show ?thesis using n u1(2) u2(2)
      by (simp add: set_vlen_outside write_bytes_apply in_object_def read_bytes_def)
  qed
  then have "pm_mem ?t = pm_mem ?s'" by (rule ext)
  moreover have "pvec_rep self n ?s' ((xs @ [x])[?k := y])" by (rule rep_write_slot [OF assms(2) refl k(2) assms(3)])
  ultimately have "pvec_rep self n ?t (xs @ [y])" using pm_mem_rep [of ?t ?s'] by simp
  then show ?thesis using run rec by (intro exI [of _ ?s3] exI [of _ ?t]) (simp add: is_empty_def)
qed

section \<open>An example\<close>

text \<open>A vector of one-byte elements with room for three of them at address 300, its header at address 100,
  which holds 44 and 45.\<close>

definition demo_vec :: pm where
  "demo_vec = put_raw 100 \<lparr>v_ptr = 300, v_cap = 3, v_len = 2\<rparr> demo_pm"

lemma demo_vec_raw: "raw_at 100 demo_vec = \<lparr>v_ptr = 300, v_cap = 3, v_len = 2\<rparr>"
  by (simp add: demo_vec_def)

lemma demo_vec_empty: "is_empty demo_vec"
  by (simp add: demo_vec_def put_raw_def is_empty_def demo_pm_def)

lemma demo_vec_rep: "pvec_rep 100 1 demo_vec [[44], [45]]"
proof -
  have d: "\<not> in_buffer \<lparr>v_ptr = 300, v_cap = 3, v_len = 2\<rparr> 1 x" if "in_object x 100 12" for x
  proof -
    have u: "unat (x - 100) < 12" using that by (simp add: in_object_def)
    have "x - 300 = x - 100 - 200" by simp
    then have "unat (x - 300) = unat (x - 100) + 2 ^ 32 - 200" using u by (simp only: unat_sub_if') simp
    then show ?thesis using u by (simp add: in_buffer_def)
  qed
  have "\<not> in_object 300 100 12" "\<not> in_object 301 100 12" by (simp_all add: in_object_def)
  then have "pm_mem demo_vec 300 = 44" "pm_mem demo_vec 301 = 45"
    using put_raw_frame [of _ 100 "\<lparr>v_ptr = 300, v_cap = 3, v_len = 2\<rparr>" demo_pm] by (simp_all add: demo_vec_def demo_pm_def)
  then show ?thesis using d by (simp add: pvec_rep_def Let_def demo_vec_raw read_bytes_def upt_rec)
qed


theorem pvec_push_undone_witness:
  "\<exists>t. exec recover (reboots recover [2, 5] (crash (pvec_push 100 1 [7]) 16 demo_vec)) = Inr ((), t) \<and>
    is_empty t \<and> pvec_rep 100 1 t [[44], [45]]"
  using pvec_push_undone [OF demo_vec_empty demo_vec_rep, of "[7]" "[2, 5]" 16] by auto

theorem pop_push_not_undone_witness:
  "\<exists>u t. exec (seq (pvec_pop 100 1) (pvec_push 100 1 [7])) demo_vec = Inr ((), u) \<and>
    exec recover u = Inr ((), t) \<and> is_empty t \<and> pvec_rep 100 1 t [[44], [7]]"
  using pop_push_not_undone [OF demo_vec_empty, of 100 1 "[[44]]" "[45]" "[7]"] demo_vec_rep by auto

end
