(* ===== verification/PQueue.thy ===== *)
theory PQueue
  imports PVec
begin

text \<open>
  The persistent queues of applications (\<open>src/user/pqueue.rs\<close>): a ring buffer whose header (address of the buffer,
  capacity, head, tail and length) is in persistent memory. A change of the header is logged first,
  an element written by \<open>push_back\<close> is not.
\<close>

section \<open>The operations\<close>

record RawPQueue =
  q_ptr :: usize
  q_cap :: usize
  q_head :: usize
  q_tail :: usize
  q_len :: usize

definition rawq_at :: "usize \<Rightarrow> pm \<Rightarrow> RawPQueue" where
  "rawq_at a s = \<lparr>q_ptr = word_at (pm_mem s) a, q_cap = word_at (pm_mem s) (a + 4), q_head = word_at (pm_mem s) (a + 8),
     q_tail = word_at (pm_mem s) (a + 12), q_len = word_at (pm_mem s) (a + 16)\<rparr>"

definition rawq_bytes :: "RawPQueue \<Rightarrow> byte list" where
  "rawq_bytes q = le_bytes (q_ptr q) @ le_bytes (q_cap q) @ le_bytes (q_head q) @ le_bytes (q_tail q) @ le_bytes (q_len q)"

definition put_rawq :: "usize \<Rightarrow> RawPQueue \<Rightarrow> pm \<Rightarrow> pm" where
  "put_rawq a q s = s\<lparr>pm_mem := write_bytes (pm_mem s) a (rawq_bytes q)\<rparr>"

text \<open>Programs on the header in registers and on the header in memory.\<close>

definition on_rawq :: "usize \<Rightarrow> (RawPQueue, 'a) prog \<Rightarrow> (pm, 'a) prog" where
  "on_rawq self p = lift (rawq_at self) (put_rawq self) p"

definition raw_mut_pqueue :: "usize \<Rightarrow> (pm, unit) prog" where
  "raw_mut_pqueue self = create_log self 20"

definition advance_tail :: "(RawPQueue, unit) prog" where
  "advance_tail = Write (\<lambda>q. q\<lparr>q_tail := q_tail q + 1\<rparr>)
     (Read (\<lambda>q. seq (if q_tail q = q_cap q then writes [\<lambda>q. q\<lparr>q_tail := 0\<rparr>] else Halt)
        (writes [\<lambda>q. q\<lparr>q_len := q_len q + 1\<rparr>])))"

definition advance_head :: "(RawPQueue, unit) prog" where
  "advance_head = Write (\<lambda>q. q\<lparr>q_head := q_head q + 1\<rparr>)
     (Read (\<lambda>q. seq (if q_head q = q_cap q then writes [\<lambda>q. q\<lparr>q_head := 0\<rparr>] else Halt)
        (writes [\<lambda>q. q\<lparr>q_len := q_len q - 1\<rparr>])))"

definition pq_push_back :: "usize \<Rightarrow> nat \<Rightarrow> byte list \<Rightarrow> (pm, unit) prog" where
  "pq_push_back self n elem = seq (raw_mut_pqueue self) (Read (\<lambda>s. let buf = rawq_at self s in
     if \<not> q_len buf < q_cap buf then Fail Panic
     else seq (store_object (q_ptr buf + q_tail buf * of_nat n) elem) (on_rawq self advance_tail)))"

definition pq_clear :: "usize \<Rightarrow> (pm, unit) prog" where
  "pq_clear self = seq (raw_mut_pqueue self) (on_rawq self
     (writes [\<lambda>q. q\<lparr>q_tail := 0\<rparr>, \<lambda>q. q\<lparr>q_head := 0\<rparr>, \<lambda>q. q\<lparr>q_len := 0\<rparr>]))"

definition pq_len :: "usize \<Rightarrow> (pm, usize) prog" where
  "pq_len self = Read (\<lambda>s. Return (q_len (rawq_at self s)))"

text \<open>What the reference that \<open>peek_front\<close> returns points to.\<close>

definition pq_peek_front :: "usize \<Rightarrow> nat \<Rightarrow> (pm, byte list option) prog" where
  "pq_peek_front self n = Read (\<lambda>s. let buf = rawq_at self s in
     if q_len buf = 0 then Return None
     else Return (Some (read_bytes (q_ptr buf + q_head buf * of_nat n) n s)))"

definition pq_pop_front :: "usize \<Rightarrow> nat \<Rightarrow> (pm, byte list option) prog" where
  "pq_pop_front self n = Read (\<lambda>s. if q_len (rawq_at self s) = 0 then Return None
     else seq (raw_mut_pqueue self) (Read (\<lambda>s. let buf = rawq_at self s;
         r = Some (read_bytes (q_ptr buf + q_head buf * of_nat n) n s) in
       seq (on_rawq self advance_head) (Return r))))"

section \<open>The header in memory\<close>

lemma length_rawq_bytes [simp]: "length (rawq_bytes q) = 20"
  by (simp add: rawq_bytes_def)

interpretation rawq_obj: lens "rawq_at a" "put_rawq a" for a
proof
  fix b c s
  show "rawq_at a (put_rawq a b s) = b"
    using word_at_le_bytes [of 0 "rawq_bytes b" "q_ptr b"] word_at_le_bytes [of 4 "rawq_bytes b" "q_cap b"]
      word_at_le_bytes [of 8 "rawq_bytes b" "q_head b"] word_at_le_bytes [of 12 "rawq_bytes b" "q_tail b"]
      word_at_le_bytes [of 16 "rawq_bytes b" "q_len b"]
    by (simp add: rawq_at_def put_rawq_def) (simp add: rawq_bytes_def)
  show "put_rawq a b (put_rawq a c s) = put_rawq a b s"
    by (simp add: put_rawq_def write_bytes_over)
  have "rawq_bytes (rawq_at a s) = map (\<lambda>i. pm_mem s (a + of_nat i)) [0..<20]"
    by (simp add: rawq_bytes_def rawq_at_def le_bytes_word_at upt_rec add.commute)
  then show "put_rawq a (rawq_at a s) s = s"
    using write_own_bytes [of "pm_mem s" a 20] by (simp add: put_rawq_def)
qed

lemma put_rawq_frame: "\<not> in_object x a 20 \<Longrightarrow> pm_mem (put_rawq a q s) x = pm_mem s x"
  by (simp add: put_rawq_def write_bytes_apply in_object_def)

lemma rawq_at_cong:
  assumes "\<And>x. in_object x a 20 \<Longrightarrow> pm_mem t x = pm_mem s x"
  shows "rawq_at a t = rawq_at a s"
proof -
  have h: "pm_mem t (a + of_nat i) = pm_mem s (a + of_nat i)" if "i < 20" for i
    using that assms [of "a + of_nat i"] unat_of_nat_small [of i] by (simp add: in_object_def)
  have w: "word_at (pm_mem t) (a + of_nat k) = word_at (pm_mem s) (a + of_nat k)" if "k + 4 \<le> 20" for k
    using h [of k] h [of "k + 1"] h [of "k + 2"] h [of "k + 3"] that
    by (simp add: word_at_def get_word_def ac_simps)
  show ?thesis using w [of 0] w [of 4] w [of 8] w [of 12] w [of 16] by (simp add: rawq_at_def)
qed

section \<open>A queue holds a list\<close>

definition ring_index :: "RawPQueue \<Rightarrow> nat \<Rightarrow> nat" where
  "ring_index q i = (unat (q_head q) + i) mod unat (q_cap q)"

definition buffer_of :: "RawPQueue \<Rightarrow> RawPVec" where
  "buffer_of q = \<lparr>v_ptr = q_ptr q, v_cap = q_cap q, v_len = q_len q\<rparr>"

definition pq_header :: "usize \<Rightarrow> nat \<Rightarrow> RawPQueue \<Rightarrow> nat \<Rightarrow> bool" where
  "pq_header self n q len \<longleftrightarrow> 0 < n \<and> unat (q_cap q) * n < 2 ^ 31 \<and> q_head q < q_cap q \<and> len \<le> unat (q_cap q) \<and>
     unat (q_len q) = len \<and> unat (q_tail q) = ring_index q len \<and>
     (\<forall>x. in_object x self 20 \<longrightarrow> \<not> in_buffer (buffer_of q) n x)"

definition pq_rep :: "usize \<Rightarrow> nat \<Rightarrow> pm \<Rightarrow> byte list list \<Rightarrow> bool" where
  "pq_rep self n s xs \<longleftrightarrow> (let q = rawq_at self s in pq_header self n q (length xs) \<and>
     (\<forall>i<length xs. read_bytes (slot_at (buffer_of q) n (ring_index q i)) n s = xs ! i))"

section \<open>The operations on represented lists\<close>

lemma pq_cap_facts:
  assumes "pq_header self n q len"
  shows "0 < unat (q_cap q)" "unat (q_cap q) < 2 ^ 31" "ring_index q i < unat (q_cap q)" "unat (q_head q) < unat (q_cap q)"
    "i < unat (q_cap q) \<Longrightarrow> j < unat (q_cap q) \<Longrightarrow> ring_index q i = ring_index q j \<longleftrightarrow> i = j"
proof -
  show c: "unat (q_head q) < unat (q_cap q)" using assms by (simp add: pq_header_def word_less_nat_alt)
  then show p: "0 < unat (q_cap q)" by simp
  then show "ring_index q i < unat (q_cap q)" by (simp add: ring_index_def)
  have "unat (q_cap q) * 1 \<le> unat (q_cap q) * n" using assms by (intro mult_le_mono2) (simp add: pq_header_def)
  moreover have "unat (q_cap q) * n < 2 ^ 31" using assms unfolding pq_header_def by blast
  ultimately show "unat (q_cap q) < 2 ^ 31" by linarith
  show "ring_index q i = ring_index q j \<longleftrightarrow> i = j" if "i < unat (q_cap q)" "j < unat (q_cap q)"
    using that c by (auto simp: ring_index_def mod_if split: if_splits)
qed

lemma exec_raw_mut_pqueue:
  assumes "j_tail s + 28 \<le> JOURNAL_SIZE"
  shows "\<exists>u. exec (raw_mut_pqueue self) s = Inr ((), u) \<and> pm_mem u = pm_mem s \<and> j_tail u = j_tail s + 28"
  using exec_append_log [of s 20 self] assms
  by (simp add: raw_mut_pqueue_def create_log_def aligned_size_def arch_addr_align_up_def ARCH_ALIGN_def)

lemma exec_advance_tail: "exec advance_tail q = Inr ((), q\<lparr>q_tail := if q_tail q + 1 = q_cap q then 0 else q_tail q + 1,
    q_len := q_len q + 1\<rparr>)"
  by (simp add: advance_tail_def exec_seq)

lemma exec_advance_head: "exec advance_head q = Inr ((), q\<lparr>q_head := if q_head q + 1 = q_cap q then 0 else q_head q + 1,
    q_len := q_len q - 1\<rparr>)"
  by (simp add: advance_head_def exec_seq)

text \<open>Moving an index of the ring on by one.\<close>

lemma ring_step:
  fixes i :: usize
  assumes "i < c" "unat c < 2 ^ 31"
  shows "unat (if i + 1 = c then 0 else i + 1) = Suc (unat i) mod unat c"
proof -
  have "unat (i + 1) = Suc (unat i)" using assms by (simp add: word_less_nat_alt unat_word_ariths)
  then show ?thesis using assms by (auto simp: word_less_nat_alt word_unat_eq_iff mod_less)
qed

text \<open>The elements after a change of the header, and after a store to a slot.\<close>

lemma read_ring_put_rawq:
  assumes "pq_header self n q len" "k < unat (q_cap q)"
  shows "read_bytes (slot_at (buffer_of q) n k) n (put_rawq self q' s) = read_bytes (slot_at (buffer_of q) n k) n s"
proof (rule read_slot_cong)
  show "unat (v_cap (buffer_of q)) * n < 2 ^ 31" "k < unat (v_cap (buffer_of q))"
    using assms by (simp_all add: pq_header_def buffer_of_def)
  fix x
  assume "in_buffer (buffer_of q) n x"
  then have "\<not> in_object x self 20" using assms(1) unfolding pq_header_def by blast
  then show "pm_mem (put_rawq self q' s) x = pm_mem s x" by (rule put_rawq_frame)
qed

lemma rawq_at_write_slot:
  assumes "pq_header self n (rawq_at self s) len" "q = rawq_at self s" "k < unat (q_cap q)" "length x = n"
  shows "rawq_at self (s\<lparr>pm_mem := write_bytes (pm_mem s) (slot_at (buffer_of q) n k) x\<rparr>) = q"
proof -
  have c: "unat (v_cap (buffer_of q)) * n < 2 ^ 31" "k < unat (v_cap (buffer_of q))" "0 < n"
    using assms(1-3) by (simp_all add: pq_header_def buffer_of_def)
  have n: "n < 2 ^ 32" using slot_bound [OF c(2), of "n - 1" n] c by simp
  have "\<not> unat (y - slot_at (buffer_of q) n k) < n" if y: "in_object y self 20" for y
  proof
    assume "unat (y - slot_at (buffer_of q) n k) < n"
    from slot_in_buffer [OF c(1,2) this] have "in_buffer (buffer_of q) n y" by simp
    then show False using assms(1,2) y unfolding pq_header_def by blast
  qed
  then have "rawq_at self (s\<lparr>pm_mem := write_bytes (pm_mem s) (slot_at (buffer_of q) n k) x\<rparr>) = rawq_at self s"
    using n assms(4) by (intro rawq_at_cong) (simp add: write_bytes_apply)
  then show ?thesis using assms(2) by simp
qed

lemma buffer_of_cong: "q_ptr q' = q_ptr q \<Longrightarrow> q_cap q' = q_cap q \<Longrightarrow> slot_at (buffer_of q') n k = slot_at (buffer_of q) n k"
  by (simp add: buffer_of_def)

lemma slot_address: "unat w = k \<Longrightarrow> q_ptr q + w * of_nat n = slot_at (buffer_of q) n k"
  by (auto simp: buffer_of_def)

lemma pq_headerI:
  assumes "pq_header self n q len" "q_ptr q' = q_ptr q" "q_cap q' = q_cap q" "unat (q_head q') < unat (q_cap q)"
    "len' \<le> unat (q_cap q)" "unat (q_len q') = len'" "unat (q_tail q') = ring_index q' len'"
  shows "pq_header self n q' len'"
  using assms by (simp add: pq_header_def in_buffer_def buffer_of_def word_less_nat_alt)

lemma mem_rawq: "pm_mem u = pm_mem s \<Longrightarrow> rawq_at a u = rawq_at a s"
  by (rule rawq_at_cong) simp

lemma mem_pq_rep: "pm_mem u = pm_mem s \<Longrightarrow> pq_rep self n u xs = pq_rep self n s xs"
  using mem_rawq [of u s self] pm_mem_read [of u s] by (simp add: pq_rep_def)

lemma run_push_back:
  assumes "pq_rep self n s xs" "length x = n" "j_tail s + 28 \<le> JOURNAL_SIZE" "q = rawq_at self s"
  shows "if length xs = unat (q_cap q) then exec (pq_push_back self n x) s = Inl Panic
    else \<exists>t. exec (pq_push_back self n x) s = Inr ((), t) \<and> pq_rep self n t (xs @ [x]) \<and> j_tail t = j_tail s + 28 \<and>
      q_cap (rawq_at self t) = q_cap q"
proof -
  obtain u where u: "exec (raw_mut_pqueue self) s = Inr ((), u)" "pm_mem u = pm_mem s" "j_tail u = j_tail s + 28"
    using exec_raw_mut_pqueue [OF assms(3)] by blast
  note uq = mem_rawq [OF u(2), of self]
  have rep: "pq_rep self n u xs" using assms(1) mem_pq_rep [OF u(2)] by simp
  have h: "pq_header self n q (length xs)" using assms(1,4) by (simp add: pq_rep_def Let_def)
  note c = pq_cap_facts [OF h]
  show ?thesis
  proof (cases "length xs = unat (q_cap q)")
    case True
    then have "\<not> q_len q < q_cap q" using h by (simp add: pq_header_def word_less_nat_alt)
    then show ?thesis using True u(1) uq assms(4) by (simp add: pq_push_back_def exec_seq Let_def)
  next
    case False
    let ?l = "length xs" and ?i = "ring_index q (length xs)" and ?b = "buffer_of q"
    have l: "?l < unat (q_cap q)" using False h by (simp add: pq_header_def)
    then have lt: "q_len q < q_cap q" using h by (simp add: pq_header_def word_less_nat_alt)
    have tl: "unat (q_tail q) = ?i" using h by (simp add: pq_header_def)
    then have a: "q_ptr q + q_tail q * of_nat n = slot_at ?b n ?i" by (rule slot_address)
    let ?s1 = "u\<lparr>pm_mem := write_bytes (pm_mem u) (slot_at ?b n ?i) x\<rparr>"
    let ?q = "q\<lparr>q_tail := if q_tail q + 1 = q_cap q then 0 else q_tail q + 1, q_len := q_len q + 1\<rparr>"
    have q1: "rawq_at self ?s1 = q"
      by (rule rawq_at_write_slot [of self n u "length xs"]) (use h uq assms(2,4) c(3) in simp_all)
    have run: "exec (pq_push_back self n x) s = Inr ((), put_rawq self ?q ?s1)"
      using u(1) uq assms(4) lt a q1
      by (simp add: pq_push_back_def exec_seq Let_def exec_store_object on_rawq_def rawq_obj.exec_lift exec_advance_tail)
    have ri: "ring_index ?q i = ring_index q i" for i by (simp add: ring_index_def)
    have "q_tail q < q_cap q" using tl c(3) [of ?l] by (simp add: word_less_nat_alt)
    from ring_step [OF this c(2)] have "unat (q_tail ?q) = ring_index ?q (Suc ?l)"
      by (simp add: tl ring_index_def mod_Suc_eq)
    moreover have "unat (q_len ?q) = Suc ?l"
      using h l c(2) by (simp add: pq_header_def unat_word_ariths)
    ultimately have h': "pq_header self n ?q (Suc ?l)"
      using l c(4) by (intro pq_headerI [OF h]) simp_all
    have "read_bytes (slot_at (buffer_of ?q) n (ring_index ?q i)) n (put_rawq self ?q ?s1) = (xs @ [x]) ! i" if i: "i < Suc ?l" for i
    proof -
      have "read_bytes (slot_at ?b n (ring_index q i)) n ?s1 =
          (if ring_index q i = ?i then x else read_bytes (slot_at ?b n (ring_index q i)) n (u\<lparr>pm_mem := pm_mem u\<rparr>))"
        by (rule read_slot_write) (use h c(3) assms(2) in \<open>simp_all add: pq_header_def buffer_of_def\<close>)
      moreover have "ring_index q i = ?i \<longleftrightarrow> i = ?l" using c(5) [of i ?l] i l by simp
      moreover have "i < ?l \<Longrightarrow> read_bytes (slot_at ?b n (ring_index q i)) n u = xs ! i"
        using rep uq assms(4) by (simp add: pq_rep_def Let_def)
      ultimately have "read_bytes (slot_at ?b n (ring_index q i)) n ?s1 = (xs @ [x]) ! i"
        using i by (auto simp: nth_append less_Suc_eq simp del: of_nat_mult)
      then show ?thesis
        using read_ring_put_rawq [OF h c(3), of i ?q ?s1] buffer_of_cong [of ?q q n] by (simp add: ri del: of_nat_mult)
    qed
    then have "pq_rep self n (put_rawq self ?q ?s1) (xs @ [x])"
      using h' by (simp add: pq_rep_def rawq_obj.get_put Let_def del: of_nat_mult)
    moreover have "j_tail (put_rawq self ?q ?s1) = j_tail s + 28" by (simp add: put_rawq_def u(3))
    ultimately show ?thesis using False run by (simp add: rawq_obj.get_put)
  qed
qed

lemma rep_front:
  assumes "pq_rep self n s (x # xs)" "q = rawq_at self s"
  shows "q_len q \<noteq> 0" "read_bytes (q_ptr q + q_head q * of_nat n) n s = x"
proof -
  have h: "pq_header self n q (Suc (length xs))" using assms by (simp add: pq_rep_def Let_def)
  then show "q_len q \<noteq> 0" by (auto simp: pq_header_def)
  have "unat (q_head q) = ring_index q 0" using pq_cap_facts(4) [OF h] by (simp add: ring_index_def)
  note slot_address [OF this]
  moreover have "read_bytes (slot_at (buffer_of q) n (ring_index q 0)) n s = x"
    using assms unfolding pq_rep_def Let_def by (metis length_Cons nth_Cons_0 zero_less_Suc)
  ultimately show "read_bytes (q_ptr q + q_head q * of_nat n) n s = x" by simp
qed

lemma rep_empty: "pq_rep self n s [] \<Longrightarrow> q_len (rawq_at self s) = 0"
  by (simp add: pq_rep_def Let_def pq_header_def unat_eq_0)

lemma run_pop_front:
  assumes "pq_rep self n s (x # xs)" "j_tail s + 28 \<le> JOURNAL_SIZE" "q = rawq_at self s"
  shows "\<exists>t. exec (pq_pop_front self n) s = Inr (Some x, t) \<and> pq_rep self n t xs \<and> j_tail t = j_tail s + 28 \<and>
      q_cap (rawq_at self t) = q_cap q"
proof -
  obtain u where u: "exec (raw_mut_pqueue self) s = Inr ((), u)" "pm_mem u = pm_mem s" "j_tail u = j_tail s + 28"
    using exec_raw_mut_pqueue [OF assms(2)] by blast
  note uq = mem_rawq [OF u(2), of self]
  have rep: "pq_rep self n u (x # xs)" using assms(1) mem_pq_rep [OF u(2)] by simp
  have h: "pq_header self n q (Suc (length xs))" using assms(1,3) by (simp add: pq_rep_def Let_def)
  note c = pq_cap_facts [OF h]
  let ?l = "length xs"
  let ?q = "q\<lparr>q_head := if q_head q + 1 = q_cap q then 0 else q_head q + 1, q_len := q_len q - 1\<rparr>"
  have qu: "q = rawq_at self u" using uq assms(3) by simp
  have run: "exec (pq_pop_front self n) s = Inr (Some x, put_rawq self ?q u)"
    using u(1) rep_front(1) [OF assms(1,3)] rep_front(2) [OF rep qu] assms(3) qu [symmetric]
    by (simp add: pq_pop_front_def exec_seq Let_def on_rawq_def rawq_obj.exec_lift exec_advance_head)
  have "q_head q < q_cap q" using h by (simp add: pq_header_def)
  from ring_step [OF this c(2)] have hd: "unat (q_head ?q) = Suc (unat (q_head q)) mod unat (q_cap q)" by simp
  have ri: "ring_index ?q i = ring_index q (Suc i)" for i
    unfolding ring_index_def hd by (simp add: mod_add_left_eq)
  have "unat (q_len q) = Suc ?l" using h by (simp add: pq_header_def)
  then have ln: "unat (q_len ?q) = ?l" using rep_front(1) [OF assms(1,3)] by (simp add: unat_minus_one)
  have h': "pq_header self n ?q ?l"
  proof (rule pq_headerI [OF h])
    show "unat (q_head ?q) < unat (q_cap q)" unfolding hd using c(1) by simp
    show "?l \<le> unat (q_cap q)" using h by (simp add: pq_header_def)
    show "unat (q_tail ?q) = ring_index ?q ?l" unfolding ri using h by (simp add: pq_header_def)
  qed (use ln in simp_all)
  have "read_bytes (slot_at (buffer_of ?q) n (ring_index ?q i)) n (put_rawq self ?q u) = xs ! i" if i: "i < ?l" for i
  proof -
    have "\<forall>j<Suc ?l. read_bytes (slot_at (buffer_of q) n (ring_index q j)) n u = (x # xs) ! j"
      using rep qu by (simp add: pq_rep_def Let_def)
    then have "read_bytes (slot_at (buffer_of q) n (ring_index q (Suc i))) n u = xs ! i" using i by fastforce
    then show ?thesis
      using read_ring_put_rawq [OF h c(3), of "Suc i" ?q u] buffer_of_cong [of ?q q n] by (simp add: ri del: of_nat_mult)
  qed
  then have "pq_rep self n (put_rawq self ?q u) xs"
    using h' by (simp add: pq_rep_def rawq_obj.get_put Let_def del: of_nat_mult)
  moreover have "j_tail (put_rawq self ?q u) = j_tail s + 28" by (simp add: put_rawq_def u(3))
  ultimately show ?thesis using run by (simp add: rawq_obj.get_put)
qed

lemma run_pq_clear:
  assumes "pq_rep self n s xs" "j_tail s + 28 \<le> JOURNAL_SIZE" "q = rawq_at self s"
  shows "\<exists>t. exec (pq_clear self) s = Inr ((), t) \<and> pq_rep self n t [] \<and> j_tail t = j_tail s + 28 \<and>
      q_cap (rawq_at self t) = q_cap q"
proof -
  obtain u where u: "exec (raw_mut_pqueue self) s = Inr ((), u)" "pm_mem u = pm_mem s" "j_tail u = j_tail s + 28"
    using exec_raw_mut_pqueue [OF assms(2)] by blast
  have qu: "rawq_at self u = q" using mem_rawq [OF u(2), of self] assms(3) by simp
  have h: "pq_header self n q (length xs)" using assms(1,3) by (simp add: pq_rep_def Let_def)
  let ?q = "q\<lparr>q_tail := 0, q_head := 0, q_len := 0\<rparr>"
  have "pq_header self n ?q 0" by (rule pq_headerI [OF h]) (use pq_cap_facts(1) [OF h] in \<open>simp_all add: ring_index_def\<close>)
  moreover have "exec (pq_clear self) s = Inr ((), put_rawq self ?q u)"
    using u(1) qu by (simp add: pq_clear_def exec_seq on_rawq_def rawq_obj.get_put rawq_obj.put_put)
  moreover have "j_tail (put_rawq self ?q u) = j_tail s + 28" by (simp add: put_rawq_def u(3))
  ultimately show ?thesis by (simp add: pq_rep_def rawq_obj.get_put)
qed

section \<open>A queue refines a bounded list\<close>

datatype pqop = PQPush "byte list" | PQPop | PQPeek | PQLen | PQClear

datatype pqres = PQDone | PQElem "byte list option" | PQNum usize

primrec pqop_run :: "usize \<Rightarrow> nat \<Rightarrow> pqop \<Rightarrow> (pm, pqres) prog" where
  "pqop_run self n (PQPush x) = seq (pq_push_back self n x) (Return PQDone)"
| "pqop_run self n PQPop = bind (pq_pop_front self n) (\<lambda>r. Return (PQElem r))"
| "pqop_run self n PQPeek = bind (pq_peek_front self n) (\<lambda>r. Return (PQElem r))"
| "pqop_run self n PQLen = bind (pq_len self) (\<lambda>r. Return (PQNum r))"
| "pqop_run self n PQClear = seq (pq_clear self) (Return PQDone)"

primrec pqop_spec :: "nat \<Rightarrow> pqop \<Rightarrow> byte list list \<Rightarrow> fault + pqres \<times> byte list list" where
  "pqop_spec c (PQPush x) xs = (if length xs = c then Inl Panic else Inr (PQDone, xs @ [x]))"
| "pqop_spec c PQPop xs = Inr (case xs of [] \<Rightarrow> (PQElem None, []) | x # ys \<Rightarrow> (PQElem (Some x), ys))"
| "pqop_spec c PQPeek xs = Inr (PQElem (case xs of [] \<Rightarrow> None | x # ys \<Rightarrow> Some x), xs)"
| "pqop_spec c PQLen xs = Inr (PQNum (of_nat (length xs)), xs)"
| "pqop_spec c PQClear xs = Inr (PQDone, [])"

primrec pqop_ok :: "nat \<Rightarrow> pqop \<Rightarrow> bool" where
  "pqop_ok n (PQPush x) \<longleftrightarrow> length x = n"
| "pqop_ok n PQPop \<longleftrightarrow> True"
| "pqop_ok n PQPeek \<longleftrightarrow> True"
| "pqop_ok n PQLen \<longleftrightarrow> True"
| "pqop_ok n PQClear \<longleftrightarrow> True"

lemma pqop_refines:
  assumes "pq_rep self n s xs" "unat (q_cap (rawq_at self s)) = c" "pqop_ok n p" "j_tail s + 28 \<le> JOURNAL_SIZE"
  shows "case pqop_spec c p xs of Inl e \<Rightarrow> exec (pqop_run self n p) s = Inl e
    | Inr (r, ys) \<Rightarrow> \<exists>t. exec (pqop_run self n p) s = Inr (r, t) \<and>
        (pq_rep self n t ys \<and> unat (q_cap (rawq_at self t)) = c) \<and> j_tail t \<le> j_tail s + 28"
proof (cases p)
  case (PQPush x)
  then show ?thesis using run_push_back [OF assms(1) _ assms(4) refl, of x] assms(2,3)
    by (auto simp: exec_seq split: if_splits)
next
  case PQPop
  show ?thesis
  proof (cases xs)
    case Nil
    then show ?thesis using PQPop assms rep_empty [of self n s] by (simp add: pq_pop_front_def)
  next
    case (Cons y ys)
    then show ?thesis using PQPop run_pop_front [of self n s y ys, OF _ assms(4) refl] assms(1,2)
      by (auto simp: exec_bind)
  qed
next
  case PQPeek
  then show ?thesis using assms rep_empty [of self n s] rep_front [of self n s]
    by (cases xs) (simp_all add: pq_peek_front_def Let_def)
next
  case PQLen
  have "unat (q_len (rawq_at self s)) = length xs" using assms(1) by (simp add: pq_rep_def Let_def pq_header_def)
  then have "q_len (rawq_at self s) = of_nat (length xs)" by (simp flip: \<open>unat (q_len (rawq_at self s)) = length xs\<close>)
  then show ?thesis using PQLen assms by (simp add: pq_len_def)
next
  case PQClear
  then show ?thesis using run_pq_clear [OF assms(1,4) refl] assms(2) by (auto simp: exec_seq)
qed

interpretation queue_adt: journaled_adt "\<lambda>s xs. pq_rep self n s xs \<and> unat (q_cap (rawq_at self s)) = c" "pqop_run self n"
  "pqop_spec c" "pqop_ok n" "\<lambda>_. 28" for self n c
  using pqop_refines by unfold_locales blast


section \<open>Where a queue is not undone\<close>

lemma log_rawq:
  assumes "enc (j_logs s) (j_tail s) es" "j_tail s + 28 \<le> JOURNAL_SIZE"
  shows "\<exists>u. exec (raw_mut_pqueue self) s = Inr ((), u) \<and> pm_mem u = pm_mem s \<and> j_tail u = j_tail s + 28 \<and>
    enc (j_logs u) (j_tail u) ((self, read_bytes self 20 s) # es)"
proof -
  have al: "aligned_size 20 = 20" by (simp add: aligned_size_def arch_addr_align_up_def ARCH_ALIGN_def)
  obtain u where u: "exec (append_log_of self 20) s = Inr ((), u)" "pm_mem u = pm_mem s"
      "enc (j_logs u) (j_tail u) ((self, object_bytes s self 20) # es)"
    using append_log_of_spec [OF assms(1), of 20 self] assms(2) by (auto simp: al)
  have "object_bytes s self 20 = read_bytes self 20 s" by (simp add: read_bytes_def)
  then show ?thesis using u append_log_of_tail [OF u(1)] by (simp add: raw_mut_pqueue_def create_log_def al del: enc.simps)
qed

lemma put_rawq_journal: "j_logs (put_rawq a q s) = j_logs s" "j_tail (put_rawq a q s) = j_tail s"
  by (simp_all add: put_rawq_def)

lemma undo_twice:
  assumes "n < 2 ^ 32"
  shows "undo [(a, read_bytes a n s1), (a, read_bytes a n s)] m z = (if unat (z - a) < n then pm_mem s z else m z)"
  using assms read_bytes_nth [of z a n s] by (simp add: write_bytes_apply read_bytes_def)

lemma rep_write_front:
  assumes "pq_rep self n s (x # xs)" "q = rawq_at self s" "length y = n"
  shows "pq_rep self n (s\<lparr>pm_mem := write_bytes (pm_mem s) (slot_at (buffer_of q) n (ring_index q 0)) y\<rparr>) (y # xs)"
proof -
  have h: "pq_header self n q (Suc (length xs))" using assms(1,2) by (simp add: pq_rep_def Let_def)
  note c = pq_cap_facts [OF h]
  let ?t = "s\<lparr>pm_mem := write_bytes (pm_mem s) (slot_at (buffer_of q) n (ring_index q 0)) y\<rparr>"
  have q: "rawq_at self ?t = q"
    by (rule rawq_at_write_slot [of self n s "Suc (length xs)"]) (use h assms(2,3) c(3) in simp_all)
  have "read_bytes (slot_at (buffer_of q) n (ring_index q i)) n ?t = (y # xs) ! i" if i: "i < Suc (length xs)" for i
  proof -
    have "read_bytes (slot_at (buffer_of q) n (ring_index q i)) n ?t = (if ring_index q i = ring_index q 0 then y
        else read_bytes (slot_at (buffer_of q) n (ring_index q i)) n (s\<lparr>pm_mem := pm_mem s\<rparr>))"
      by (rule read_slot_write) (use h c(3) assms(3) in \<open>simp_all add: pq_header_def buffer_of_def\<close>)
    moreover have "ring_index q i = ring_index q 0 \<longleftrightarrow> i = 0" using c(1) c(5) [of i 0] i h by (simp add: pq_header_def)
    moreover have "\<forall>j<Suc (length xs). read_bytes (slot_at (buffer_of q) n (ring_index q j)) n s = (x # xs) ! j"
      using assms(1,2) by (simp add: pq_rep_def Let_def)
    ultimately show ?thesis using i by (cases i) (simp_all del: of_nat_mult)
  qed
  then show ?thesis using h q by (simp add: pq_rep_def Let_def del: of_nat_mult)
qed

text \<open>Taking an element out of a full queue and putting one in, in one transaction, is not undone: the new element
  is stored in the slot of the old one, which is not logged; rolling the transaction back restores the
  header only, and the queue then starts with the element that was never committed.\<close>

theorem pop_push_full_not_undone:
  assumes "is_empty s" "pq_rep self n s (x # xs)" "Suc (length xs) = unat (q_cap (rawq_at self s))" "length y = n"
  shows "\<exists>u t. exec (seq (pq_pop_front self n) (pq_push_back self n y)) s = Inr ((), u) \<and>
    exec recover u = Inr ((), t) \<and> is_empty t \<and> pq_rep self n t (y # xs)"
proof -
  define q where "q = rawq_at self s"
  let ?r = "read_bytes self 20" and ?a = "slot_at (buffer_of q) n (ring_index q 0)"
  have h: "pq_header self n q (Suc (length xs))" using assms(2) by (simp add: pq_rep_def Let_def q_def)
  note c = pq_cap_facts [OF h]
  have len: "unat (q_len q) = Suc (length xs)" and tl: "unat (q_tail q) = ring_index q 0"
    using h assms(3) by (simp_all add: pq_header_def ring_index_def q_def)
  have "enc (j_logs s) (j_tail s) []" using assms(1) by (simp add: is_empty_def)
  from log_rawq [OF this, of self] assms(1) obtain u1 where
    u1: "exec (raw_mut_pqueue self) s = Inr ((), u1)" "pm_mem u1 = pm_mem s" "j_tail u1 = 28"
      "enc (j_logs u1) (j_tail u1) [(self, ?r s)]"
    by (auto simp: is_empty_def JOURNAL_SIZE_def simp del: enc.simps)
  have q1: "rawq_at self u1 = q" using mem_rawq [OF u1(2)] by (simp add: q_def)
  define q' where "q' = q\<lparr>q_head := if q_head q + 1 = q_cap q then 0 else q_head q + 1, q_len := q_len q - 1\<rparr>"
  define s1 where "s1 = put_rawq self q' u1"
  have pop: "exec (seq (pq_pop_front self n) p) s = exec p s1" for p :: "(pm, unit) prog"
    using u1(1) q1 rep_front(1) [OF assms(2) q_def]
    by (simp add: pq_pop_front_def exec_seq Let_def on_rawq_def rawq_obj.exec_lift exec_advance_head s1_def q'_def q_def)
  have e1: "enc (j_logs s1) (j_tail s1) [(self, ?r s)]" using u1(4) unfolding s1_def by (simp only: put_rawq_journal)
  have "j_tail s1 + 28 \<le> JOURNAL_SIZE" by (simp add: s1_def put_rawq_journal u1(3) JOURNAL_SIZE_def)
  from log_rawq [OF e1 this, of self] obtain u2 where
    u2: "exec (raw_mut_pqueue self) s1 = Inr ((), u2)" "pm_mem u2 = pm_mem s1"
      "enc (j_logs u2) (j_tail u2) [(self, ?r s1), (self, ?r s)]" by blast
  have q2: "rawq_at self u2 = q'" using mem_rawq [OF u2(2)] by (simp add: s1_def rawq_obj.get_put)
  let ?s2 = "u2\<lparr>pm_mem := write_bytes (pm_mem u2) ?a y\<rparr>"
  obtain q3 where run: "exec (pq_push_back self n y) s1 = Inr ((), put_rawq self q3 ?s2)"
  proof
    have "unat (q_len q') = length xs" using len rep_front(1) [OF assms(2) q_def] by (simp add: q'_def unat_minus_one)
    then have "q_len q' < q_cap q'" using assms(3) by (simp add: word_less_nat_alt q'_def q_def)
    moreover have "q_ptr q' + q_tail q' * of_nat n = ?a" using slot_address [OF tl, of q n] by (simp add: q'_def)
    ultimately show "exec (pq_push_back self n y) s1 = Inr ((), put_rawq self (snd (projr (exec advance_tail (rawq_at self ?s2)))) ?s2)"
      using u2(1) q2 by (simp add: pq_push_back_def exec_seq Let_def exec_store_object on_rawq_def rawq_obj.exec_lift exec_advance_tail)
  qed
  let ?s3 = "put_rawq self q3 ?s2" and ?s' = "s\<lparr>pm_mem := write_bytes (pm_mem s) ?a y\<rparr>"
  have "enc (j_logs ?s3) (j_tail ?s3) [(self, ?r s1), (self, ?r s)]" using u2(3) by (simp add: put_rawq_journal del: enc.simps)
  note rec = recover_undoes [OF this]
  have fits: "unat (q_cap q) * n < 2 ^ 31" using h unfolding pq_header_def by blast
  have b: "unat (v_cap (buffer_of q)) * n < 2 ^ 31" "ring_index q 0 < unat (v_cap (buffer_of q))"
    using fits c(3) by (simp_all add: buffer_of_def)
  have n: "length y < 2 ^ 32" using slot_bound [OF b(2), of "n - 1" n] b(1) h assms(4) by (simp add: pq_header_def)
  have "undo [(self, ?r s1), (self, ?r s)] (pm_mem ?s3) z = pm_mem ?s' z" for z
  proof (cases "in_object z self 20")
    case True
    have "\<not> unat (z - ?a) < n" using slot_free [OF b] True h by (auto simp: free_slots_def pq_header_def)
    then show ?thesis using True n assms(4) undo_twice [of 20 self s1 s "pm_mem ?s3" z]
      by (simp add: in_object_def write_bytes_apply del: undo.simps)
  next
    case False
    then show ?thesis using n u1(2) u2(2) undo_twice [of 20 self s1 s "pm_mem ?s3" z] put_rawq_frame [OF False]
      by (simp add: s1_def write_bytes_apply in_object_def del: undo.simps)
  qed
  then have "undo [(self, ?r s1), (self, ?r s)] (pm_mem ?s3) = pm_mem ?s'" by (rule ext)
  then have "exec recover ?s3 = Inr ((), ?s3\<lparr>pm_mem := pm_mem ?s', j_tail := 0\<rparr>)" using rec by (simp only:)
  moreover have "pq_rep self n (?s3\<lparr>pm_mem := pm_mem ?s', j_tail := 0\<rparr>) (y # xs) = pq_rep self n ?s' (y # xs)"
    by (rule mem_pq_rep) simp
  moreover have "is_empty (?s3\<lparr>pm_mem := pm_mem ?s', j_tail := 0\<rparr>)" by (simp add: is_empty_def)
  ultimately show ?thesis unfolding pop run using rep_write_front [OF assms(2) q_def assms(4)] by blast
qed

section \<open>An example\<close>

text \<open>A queue of one-byte elements with room for three of them at address 300, its header at address 100,
  whose two elements 46 and 44 are in the last and in the first slot.\<close>

definition demo_rawq :: RawPQueue where
  "demo_rawq = \<lparr>q_ptr = 300, q_cap = 3, q_head = 2, q_tail = 1, q_len = 2\<rparr>"

definition demo_queue :: pm where
  "demo_queue = put_rawq 100 demo_rawq demo_pm"

lemma demo_queue_rep: "pq_rep 100 1 demo_queue [[46], [44]]"
proof -
  have d: "\<not> in_buffer (buffer_of demo_rawq) 1 x" if "in_object x 100 20" for x
  proof -
    have u: "unat (x - 100) < 20" using that by (simp add: in_object_def)
    have "x - 300 = x - 100 - 200" by simp
    then have "unat (x - 300) = unat (x - 100) + 2 ^ 32 - 200" using u by (simp only: unat_sub_if') simp
    then show ?thesis using u by (simp add: in_buffer_def buffer_of_def demo_rawq_def)
  qed
  then have h: "pq_header 100 1 demo_rawq 2" by (simp add: pq_header_def demo_rawq_def ring_index_def)
  have "\<not> in_object 302 100 20" "\<not> in_object 300 100 20" by (simp_all add: in_object_def)
  then have "pm_mem demo_queue 302 = 46" "pm_mem demo_queue 300 = 44"
    using put_rawq_frame [of _ 100 demo_rawq demo_pm] by (simp_all add: demo_queue_def demo_pm_def)
  then have "read_bytes (slot_at (buffer_of demo_rawq) 1 (ring_index demo_rawq i)) 1 demo_queue = [[46], [44]] ! i" if "i < 2" for i
    using that by (auto simp: less_2_cases_iff read_bytes_def ring_index_def demo_rawq_def buffer_of_def)
  then show ?thesis using h by (simp add: pq_rep_def Let_def demo_queue_def rawq_obj.get_put numeral_2_eq_2)
qed


end
