(* ===== verification/PRef.thy ===== *)
theory PRef
  imports PVec
begin

text \<open>
  The persistent handles of applications (\<open>src/user/pbox.rs\<close>, \<open>src/user/pstatics.rs\<close>): boxes, statics, the owning pointers \<open>Ptr\<close>,
  \<open>PtrRO\<close>, \<open>PtrWLog\<close>, \<open>PtrRW\<close> and the borrowed references \<open>PRef\<close>, \<open>PRefWLog\<close>, \<open>PRefRW\<close>. The type of a handle
  is a state of a protocol: an object that is written before it is read needs no log record, an
  object that has been read is logged before it is written. The first part gives transaction bodies
  a meaning in which reads are visible and shows when a body can be rerun after a power failure; the second
  part models the methods and shows that what Rust's type checker accepts is such a body.
\<close>

section \<open>Transaction bodies\<close>

text \<open>A body reads bytes, stores bytes and logs objects; what it does next depends on what it read.\<close>

datatype 'r tx =
    Ret 'r
  | Rd usize nat "byte list \<Rightarrow> 'r tx"
  | Wr usize "byte list" "'r tx"
  | Log usize nat "'r tx"

primrec tx_prog :: "'r tx \<Rightarrow> (pm, 'r) prog" where
  "tx_prog (Ret r) = Return r"
| "tx_prog (Rd a n k) = Read (\<lambda>s. tx_prog (k (read_bytes a n s)))"
| "tx_prog (Wr a bs t) = seq (store_object a bs) (tx_prog t)"
| "tx_prog (Log a n t) = seq (append_log_of a (of_nat n)) (tx_prog t)"

primrec tx_bind :: "'q tx \<Rightarrow> ('q \<Rightarrow> 'r tx) \<Rightarrow> 'r tx" where
  "tx_bind (Ret r) f = f r"
| "tx_bind (Rd a n k) f = Rd a n (\<lambda>v. tx_bind (k v) f)"
| "tx_bind (Wr a bs t) f = Wr a bs (tx_bind t f)"
| "tx_bind (Log a n t) f = Log a n (tx_bind t f)"

definition area :: "usize \<Rightarrow> nat \<Rightarrow> usize set" where
  "area a n = {x. unat (x - a) < n}"

definition bytes_of :: "(usize \<Rightarrow> byte) \<Rightarrow> usize \<Rightarrow> nat \<Rightarrow> byte list" where
  "bytes_of m a n = map (\<lambda>k. m (a + of_nat k)) [0..<n]"

text \<open>\<open>rerunnable E F L m t\<close>: run in memory \<open>m\<close>, the body \<open>t\<close> stores to a byte only when the byte is logged or
  the body does not depend on what it was. \<open>E\<close> collects the bytes whose initial value has been read,
  \<open>F\<close> those stored to without a log record, \<open>L\<close> those logged.\<close>

primrec rerunnable :: "'r tx \<Rightarrow> usize set \<Rightarrow> usize set \<Rightarrow> usize set \<Rightarrow> (usize \<Rightarrow> byte) \<Rightarrow> bool" where
  "rerunnable (Ret r) = (\<lambda>E F L m. True)"
| "rerunnable (Rd a n k) = (\<lambda>E F L m. n < 2 ^ 31 \<and> rerunnable (k (bytes_of m a n)) (E \<union> (area a n - F)) F L m)"
| "rerunnable (Wr a bs t) = (\<lambda>E F L m. length bs < 2 ^ 31 \<and> area a (length bs) \<inter> E \<subseteq> L \<and>
     rerunnable t E (F \<union> (area a (length bs) - L)) L (write_bytes m a bs))"
| "rerunnable (Log a n t) = (\<lambda>E F L m. n < 2 ^ 31 \<and> rerunnable t E F (L \<union> area a n) m)"

text \<open>All bytes the body stores to without a log record, and its result and final memory.\<close>

primrec unlogged :: "'r tx \<Rightarrow> usize set \<Rightarrow> usize set \<Rightarrow> (usize \<Rightarrow> byte) \<Rightarrow> usize set" where
  "unlogged (Ret r) = (\<lambda>F L m. F)"
| "unlogged (Rd a n k) = (\<lambda>F L m. unlogged (k (bytes_of m a n)) F L m)"
| "unlogged (Wr a bs t) = (\<lambda>F L m. unlogged t (F \<union> (area a (length bs) - L)) L (write_bytes m a bs))"
| "unlogged (Log a n t) = (\<lambda>F L m. unlogged t F (L \<union> area a n) m)"

section \<open>What a cut off body leaves\<close>

lemma read_bytes_of: "read_bytes a n s = bytes_of (pm_mem s) a n"
  by (simp add: read_bytes_def bytes_of_def)

lemma bytes_of_cong: "n < 2 ^ 32 \<Longrightarrow> (\<And>x. x \<in> area a n \<Longrightarrow> m' x = m x) \<Longrightarrow> bytes_of m' a n = bytes_of m a n"
  using unat_of_nat_small by (auto simp: bytes_of_def area_def)

lemma unlogged_mono: "F \<subseteq> unlogged t F L m"
  by (induction t arbitrary: F L m) (auto, blast+)

text \<open>Bytes that have been read are not stored to without a log record any more.\<close>

lemma unlogged_unread:
  "rerunnable t E F L m \<Longrightarrow> x \<in> unlogged t F L m \<Longrightarrow> x \<in> E \<Longrightarrow> x \<in> F"
proof (induction t arbitrary: E F L m)
  case (Rd a n k)
  then show ?case by simp blast
next
  case (Wr a bs t)
  from Wr.prems Wr.IH [of E "F \<union> (area a (length bs) - L)" L "write_bytes m a bs"] show ?case by auto
qed auto

lemma covers_log: "n < 2 ^ 31 \<Longrightarrow> x \<in> area a n \<Longrightarrow> covers ((a, object_bytes s a (of_nat n)) # es) x"
  using unat_of_nat_small [of n] by (simp add: covers_def area_def)

definition undone_to :: "usize set \<Rightarrow> usize set \<Rightarrow> (usize \<Rightarrow> byte) \<Rightarrow> pm \<Rightarrow> bool" where
  "undone_to F L m0 s \<longleftrightarrow> (\<exists>es. enc (j_logs s) (j_tail s) es \<and> (\<forall>x\<in>L. covers es x) \<and>
     (\<forall>x. x \<notin> F \<longrightarrow> undo es (pm_mem s) x = m0 x))"

lemma undone_toI:
  "enc (j_logs s) (j_tail s) es \<Longrightarrow> \<forall>x\<in>L. covers es x \<Longrightarrow> \<forall>x. x \<notin> F \<longrightarrow> undo es (pm_mem s) x = m0 x \<Longrightarrow> undone_to F L m0 s"
  by (auto simp: undone_to_def)

lemma undone_inv: "undone_to F L m0 s \<Longrightarrow> F \<subseteq> G \<Longrightarrow> \<exists>m. undo_inv m s \<and> (\<forall>x. x \<notin> G \<longrightarrow> m x = m0 x)"
  by (auto simp: undone_to_def undo_inv_def)

lemma undone_store:
  assumes "undone_to F L m0 s" "length bs < 2 ^ 31" "k \<le> length bs"
  shows "undone_to (F \<union> (area a (length bs) - L)) L m0 (s\<lparr>pm_mem := write_bytes (pm_mem s) a (take k bs)\<rparr>)"
proof -
  let ?G = "F \<union> (area a (length bs) - L)" and ?m = "write_bytes (pm_mem s) a (take k bs)"
  obtain es where es: "enc (j_logs s) (j_tail s) es" "\<forall>x\<in>L. covers es x" "\<forall>x. x \<notin> F \<longrightarrow> undo es (pm_mem s) x = m0 x"
    using assms(1) by (auto simp: undone_to_def)
  have "x \<in> ?G \<or> covers es x \<or> ?m x = pm_mem s x" for x
    using es(2) assms(2,3) by (auto simp: write_bytes_apply area_def)
  then have "undo es ?m x = undo es (pm_mem s) x" if "x \<notin> ?G" for x
    using undo_agree [OF enc_small [OF es(1)] _ that, of ?m "pm_mem s"] by blast
  then show ?thesis using es by (auto simp: undone_to_def)
qed

lemma undone_log:
  assumes "undone_to F L m0 s" "n < 2 ^ 31" "t \<in> set (states (append_log_of a (of_nat n)) s)"
  shows "undone_to F L m0 t"
    and "exec (append_log_of a (of_nat n)) s = Inr ((), u) \<Longrightarrow> undone_to F (L \<union> area a n) m0 u"
proof -
  obtain es where es: "enc (j_logs s) (j_tail s) es" "\<forall>x\<in>L. covers es x" "\<forall>x. x \<notin> F \<longrightarrow> undo es (pm_mem s) x = m0 x"
    using assms(1) by (auto simp: undone_to_def)
  let ?e = "(a, object_bytes s a (of_nat n))"
  have sz: "unat (of_nat n :: usize) < 2 ^ 31" using assms(2) unat_of_nat_small [of n] by simp
  have u: "undo (?e # es) (pm_mem s) = undo es (pm_mem s)" by (simp add: write_own_bytes)
  have c: "covers (?e # es) x" if "covers es x" for x using that by (auto simp: covers_def)
  from append_log_of_states [OF es(1) sz assms(3)] have t: "pm_mem t = pm_mem s"
      "enc (j_logs t) (j_tail t) es \<or> enc (j_logs t) (j_tail t) (?e # es)" by auto
  from t(2) show "undone_to F L m0 t"
  proof
    assume "enc (j_logs t) (j_tail t) es"
    then show ?thesis by (rule undone_toI) (use es t(1) in auto)
  next
    assume "enc (j_logs t) (j_tail t) (?e # es)"
    then show ?thesis by (rule undone_toI) (use es c u t(1) in auto)
  qed
  assume x: "exec (append_log_of a (of_nat n)) s = Inr ((), u)"
  then have "j_tail s + (aligned_size (of_nat n) + 4 + 4) \<le> JOURNAL_SIZE"
    by (auto simp: append_log_of_def Let_def split: if_splits)
  from append_log_of_spec [OF es(1) sz this, of a] x
  have v: "pm_mem u = pm_mem s" "enc (j_logs u) (j_tail u) (?e # es)" by auto
  show "undone_to F (L \<union> area a n) m0 u"
    by (rule undone_toI [OF v(2)]) (use es(2,3) c covers_log [OF assms(2)] \<open>undo (?e # es) (pm_mem s) = undo es (pm_mem s)\<close> v(1) in auto)
qed

lemma tx_states:
  assumes "rerunnable t E F L (pm_mem s)" "undone_to F L m0 s" "u \<in> set (states (tx_prog t) s)"
  shows "\<exists>m. undo_inv m u \<and> (\<forall>x. x \<notin> unlogged t F L (pm_mem s) \<longrightarrow> m x = m0 x)"
  using assms
proof (induction t arbitrary: E F L s)
  case (Ret r)
  then show ?case using undone_inv [of F L m0 s F] by simp
next
  case (Rd a n k)
  then show ?case using Rd.IH [OF rangeI, of "bytes_of (pm_mem s) a n" "E \<union> (area a n - F)" F L s] by (simp add: read_bytes_of)
next
  case (Wr a bs t)
  let ?F = "F \<union> (area a (length bs) - L)"
  from Wr.prems(3) have "u \<in> set (states (bind (store_object a bs) (\<lambda>_. tx_prog t)) s)" by (simp add: seq_def)
  then show ?case
  proof (cases rule: states_bind_cases)
    case 1
    then obtain k where k: "k \<le> length bs" "u = s\<lparr>pm_mem := write_bytes (pm_mem s) a (take k bs)\<rparr>"
      using store_object_states by blast
    show ?thesis unfolding k(2)
      by (rule undone_inv [OF undone_store [OF Wr.prems(2) _ k(1)]])
        (use Wr.prems(1) unlogged_mono [of ?F t L] in simp_all)
  next
    case (2 b v)
    then have v: "v = s\<lparr>pm_mem := write_bytes (pm_mem s) a bs\<rparr>" by (simp add: exec_store_object)
    have "undone_to ?F L m0 v" using undone_store [OF Wr.prems(2), of bs "length bs" a] Wr.prems(1) by (simp add: v)
    from Wr.IH [OF _ this 2(2), of E] Wr.prems(1) show ?thesis by (simp add: v)
  qed
next
  case (Log a n t)
  have n: "n < 2 ^ 31" using Log.prems(1) by simp
  from Log.prems(3) have "u \<in> set (states (bind (append_log_of a (of_nat n)) (\<lambda>_. tx_prog t)) s)" by (simp add: seq_def)
  then show ?case
  proof (cases rule: states_bind_cases)
    case 1
    then have "undone_to F L m0 u" by (rule undone_log(1) [OF Log.prems(2) n])
    then show ?thesis by (rule undone_inv) (use unlogged_mono in simp)
  next
    case (2 b v)
    then have x: "exec (append_log_of a (of_nat n)) s = Inr ((), v)" by simp
    then have pm: "pm_mem v = pm_mem s" by (auto simp: append_log_of_def Let_def exec_seq exec_copy_to_log put_word_frame split: if_splits)
    have "undone_to F (L \<union> area a n) m0 v"
      by (rule undone_log(2) [OF Log.prems(2) n crash_in_states [where k = 0] x])
    from Log.IH [OF _ this 2(2), of E] Log.prems(1) show ?thesis by (simp add: pm)
  qed
qed

section \<open>Running again\<close>

text \<open>Memories that agree outside the bytes that are stored to without a log record make no difference.\<close>

lemma rerun_agrees:
  assumes "rerunnable t E F L m" "F \<inter> E = {}" "\<And>x. x \<notin> unlogged t F L m - F \<Longrightarrow> m' x = m x"
    and "pm_mem s = m" "pm_mem s' = m'" "j_tail s' = j_tail s"
  shows "rerunnable t E F L m'" "unlogged t F L m' = unlogged t F L m"
    "exec (tx_prog t) s = Inr (r, u) \<Longrightarrow> \<exists>u'. exec (tx_prog t) s' = Inr (r, u') \<and> pm_mem u' = pm_mem u"
proof -
  have "rerunnable t E F L m' \<and> unlogged t F L m' = unlogged t F L m \<and>
    (exec (tx_prog t) s = Inr (r, u) \<longrightarrow> (\<exists>u'. exec (tx_prog t) s' = Inr (r, u') \<and> pm_mem u' = pm_mem u))"
    using assms
  proof (induction t arbitrary: E F L m m' s s')
    case (Ret r)
    then have "m' = m" by (intro ext) auto
    with Ret show ?case by auto
  next
    case (Rd a n k)
    have n: "n < 2 ^ 32" using Rd.prems(1) by simp
    have v: "bytes_of m' a n = bytes_of m a n"
    proof (rule bytes_of_cong [OF n])
      fix x
      assume x: "x \<in> area a n"
      have "x \<notin> unlogged (Rd a n k) F L m - F"
        using unlogged_unread [of "k (bytes_of m a n)" "E \<union> (area a n - F)" F L m x] Rd.prems(1) x by auto
      then show "m' x = m x" by (rule Rd.prems(3))
    qed
    have "rerunnable (k (bytes_of m a n)) (E \<union> (area a n - F)) F L m" using Rd.prems(1) by simp
    moreover have "F \<inter> (E \<union> (area a n - F)) = {}" using Rd.prems(2) by auto
    moreover have "m' x = m x" if "x \<notin> unlogged (k (bytes_of m a n)) F L m - F" for x using Rd.prems(3) that by simp
    ultimately show ?case using Rd.IH [OF rangeI _ _ _ Rd.prems(4-6)] v Rd.prems(1,4,5) by (simp add: read_bytes_of)
  next
    case (Wr a bs t)
    let ?F = "F \<union> (area a (length bs) - L)"
    have len: "length bs < 2 ^ 32" using Wr.prems(1) by simp
    have "?F \<inter> E = {}" using Wr.prems(1,2) by auto
    moreover have "write_bytes m' a bs x = write_bytes m a bs x"
      if "x \<notin> unlogged t ?F L (write_bytes m a bs) - ?F" for x
      using that Wr.prems(3) [of x] by (auto simp: write_bytes_apply [OF len] area_def)
    ultimately show ?case
      using Wr.IH [of E ?F L "write_bytes m a bs" "write_bytes m' a bs" "s\<lparr>pm_mem := write_bytes m a bs\<rparr>"
          "s'\<lparr>pm_mem := write_bytes m' a bs\<rparr>"] Wr.prems
      by (simp add: exec_seq exec_store_object)
  next
    case (Log a n t)
    let ?n = "aligned_size (of_nat n) + 4 + 4"
    show ?case
    proof (cases "j_tail s + ?n \<le> JOURNAL_SIZE")
      case True
      then obtain v v' where v: "exec (append_log_of a (of_nat n)) s = Inr ((), v)" "pm_mem v = pm_mem s" "j_tail v = j_tail s + ?n"
          "exec (append_log_of a (of_nat n)) s' = Inr ((), v')" "pm_mem v' = pm_mem s'" "j_tail v' = j_tail s' + ?n"
        using exec_append_log [of s "of_nat n" a] exec_append_log [of s' "of_nat n" a] Log.prems(6) by auto
      then show ?thesis using Log.IH [of E F "L \<union> area a n" m m' v v'] Log.prems by (simp add: exec_seq)
    next
      case False
      then have "exec (tx_prog (Log a n t)) s = Inl Panic" by (simp add: exec_seq append_log_of_def Let_def)
      then show ?thesis using Log.IH [of E F "L \<union> area a n" m m' s s'] Log.prems by simp
    qed
  qed
  then show "rerunnable t E F L m'" "unlogged t F L m' = unlogged t F L m"
    "exec (tx_prog t) s = Inr (r, u) \<Longrightarrow> \<exists>u'. exec (tx_prog t) s' = Inr (r, u') \<and> pm_mem u' = pm_mem u" by blast+
qed

text \<open>An attempt: the body is cut off after \<open>k\<close> stores, the recovery as the list says, the last recovery ends.\<close>

definition attempt :: "'r tx \<Rightarrow> nat \<times> nat list \<Rightarrow> pm \<Rightarrow> pm" where
  "attempt t x s = final recover (reboots recover (snd x) (crash (tx_prog t) (fst x) s))"

definition attempts :: "'r tx \<Rightarrow> (nat \<times> nat list) list \<Rightarrow> pm \<Rightarrow> pm" where
  "attempts t xs s = fold (attempt t) xs s"

lemma attempt_spec:
  assumes "rerunnable t {} {} {} (pm_mem s)" "is_empty s"
  shows "is_empty (attempt t x s)" "y \<notin> unlogged t {} {} (pm_mem s) \<Longrightarrow> pm_mem (attempt t x s) y = pm_mem s y"
proof -
  have "undone_to {} {} (pm_mem s) s" using assms(2) by (auto simp: undone_to_def is_empty_def intro: exI [of _ "[]"])
  from tx_states [OF assms(1) this crash_in_states, of "fst x"]
  obtain m where m: "undo_inv m (crash (tx_prog t) (fst x) s)" "\<forall>y. y \<notin> unlogged t {} {} (pm_mem s) \<longrightarrow> m y = pm_mem s y" by blast
  obtain b u where u: "exec recover (reboots recover (snd x) (crash (tx_prog t) (fst x) s)) = Inr (b, u)" "pm_mem u = m" "is_empty u"
    using journal.recovery_ends [OF journal.reboots_inv [OF m(1), of "snd x"]] by blast
  then have "attempt t x s = u" using exec_final [OF u(1)] by (simp add: attempt_def)
  then show "is_empty (attempt t x s)" "y \<notin> unlogged t {} {} (pm_mem s) \<Longrightarrow> pm_mem (attempt t x s) y = pm_mem s y"
    using u m(2) by auto
qed

lemma attempts_spec:
  assumes "rerunnable t {} {} {} (pm_mem s)" "is_empty s"
  shows "is_empty (attempts t xs s) \<and> (\<forall>y. y \<notin> unlogged t {} {} (pm_mem s) \<longrightarrow> pm_mem (attempts t xs s) y = pm_mem s y)"
  using assms
proof (induction xs arbitrary: s)
  case (Cons x xs)
  let ?s = "attempt t x s"
  have a: "is_empty ?s" "\<And>y. y \<notin> unlogged t {} {} (pm_mem s) \<Longrightarrow> pm_mem ?s y = pm_mem s y"
    using attempt_spec [OF Cons.prems] by auto
  have j: "j_tail ?s = j_tail s" using a(1) Cons.prems(2) by (simp add: is_empty_def)
  have r: "rerunnable t {} {} {} (pm_mem ?s)" "unlogged t {} {} (pm_mem ?s) = unlogged t {} {} (pm_mem s)"
    using rerun_agrees(1,2) [OF Cons.prems(1) _ _ refl refl j] a(2) by auto
  from Cons.IH [OF r(1) a(1)] show ?case using a(2) by (simp add: attempts_def r(2))
qed (simp add: attempts_def)

text \<open>A rerunnable body comes to its result whatever the failures were.\<close>

lemma attempts_rerun:
  assumes "rerunnable t {} {} {} (pm_mem s)" "is_empty s" "exec (tx_prog t) s = Inr (r, u)"
  shows "\<exists>u'. exec (tx_prog t) (attempts t xs s) = Inr (r, u') \<and> pm_mem u' = pm_mem u"
proof -
  note a = attempts_spec [OF assms(1,2), of xs]
  then have "j_tail (attempts t xs s) = j_tail s" using assms(2) by (simp add: is_empty_def)
  then show ?thesis using rerun_agrees(3) [OF assms(1) _ _ refl refl _ assms(3)] a by auto
qed

section \<open>The methods of the handles\<close>

text \<open>An object of \<open>n\<close> bytes at address \<open>a\<close>; a reference is an address. What a closure or the caller does
  with a shared reference is to read the object, with a mutable one to read it and to store
  a new value that depends on the old one.\<close>

definition use_ref :: "nat \<Rightarrow> usize \<Rightarrow> byte list tx" where
  "use_ref n r = Rd r n Ret"

definition use_mut :: "nat \<Rightarrow> (byte list \<Rightarrow> byte list) \<Rightarrow> usize \<Rightarrow> byte list tx" where
  "use_mut n f r = Rd r n (\<lambda>v. Wr r (f v) (Ret v))"

definition PBox_as_mut :: "usize \<Rightarrow> nat \<Rightarrow> usize tx" where
  "PBox_as_mut a n = Log a n (Ret a)"

definition PBox_as_ref :: "usize \<Rightarrow> usize tx" where
  "PBox_as_ref a = Ret a"

definition PBox_as_pref_wlog :: "usize \<Rightarrow> usize tx" where
  "PBox_as_pref_wlog a = Ret a"

definition PBox_as_mut_no_logging :: "usize \<Rightarrow> usize tx" where
  "PBox_as_mut_no_logging a = Ret a"

definition Ptr_write :: "usize \<Rightarrow> byte list \<Rightarrow> usize tx" where
  "Ptr_write a new_data = tx_bind (PBox_as_mut_no_logging a) (\<lambda>r. Wr r new_data (Ret a))"

definition Ptr_read :: "usize \<Rightarrow> nat \<Rightarrow> byte list tx" where
  "Ptr_read a n = tx_bind (PBox_as_ref a) (use_ref n)"

definition Ptr_into_ptr_ro :: "usize \<Rightarrow> usize tx" where
  "Ptr_into_ptr_ro a = Ret a"

definition Ptr_into_pbox :: "usize \<Rightarrow> usize tx" where
  "Ptr_into_pbox a = Ret a"

definition Ptr_as_pref :: "usize \<Rightarrow> usize tx" where
  "Ptr_as_pref a = PBox_as_mut_no_logging a"

definition PtrRO_as_ref :: "usize \<Rightarrow> usize tx" where
  "PtrRO_as_ref a = PBox_as_ref a"

definition PtrWLog_write :: "usize \<Rightarrow> nat \<Rightarrow> (byte list \<Rightarrow> byte list) \<Rightarrow> usize tx" where
  "PtrWLog_write a n f = tx_bind (PBox_as_mut a n) (\<lambda>mut_ref. tx_bind (use_mut n f mut_ref) (\<lambda>_. Ret a))"

definition PtrWLog_as_mut :: "usize \<Rightarrow> nat \<Rightarrow> usize tx" where
  "PtrWLog_as_mut a n = PBox_as_mut a n"

definition PtrWLog_as_ref :: "usize \<Rightarrow> usize tx" where
  "PtrWLog_as_ref a = PBox_as_ref a"

definition PtrWLog_into_pbox :: "usize \<Rightarrow> usize tx" where
  "PtrWLog_into_pbox a = Ret a"

definition PtrRW_down_cast :: "usize \<Rightarrow> usize tx" where
  "PtrRW_down_cast a = Ret a"

definition PtrRW_into_pbox :: "usize \<Rightarrow> usize tx" where
  "PtrRW_into_pbox a = Ret a"

definition PtrRW_into_ptr :: "usize \<Rightarrow> usize tx" where
  "PtrRW_into_ptr a = Ret a"

definition PtrRW_deref :: "usize \<Rightarrow> usize tx" where
  "PtrRW_deref a = PBox_as_ref a"

definition PtrRW_deref_mut :: "usize \<Rightarrow> usize tx" where
  "PtrRW_deref_mut a = PBox_as_mut_no_logging a"

definition PRef_read :: "usize \<Rightarrow> nat \<Rightarrow> byte list tx" where
  "PRef_read inner n = use_ref n inner"

definition PRef_into_readable :: "usize \<Rightarrow> usize tx" where
  "PRef_into_readable inner = Ret inner"

definition PRef_write :: "usize \<Rightarrow> byte list \<Rightarrow> usize tx" where
  "PRef_write inner data = Wr inner data (Ret inner)"

text \<open>The selector names a field: its place in the object.\<close>

definition PRef_partial_write :: "usize \<Rightarrow> nat \<Rightarrow> byte list \<Rightarrow> unit tx" where
  "PRef_partial_write inner selector field_data = (let field_ptr = inner + of_nat selector in Wr field_ptr field_data (Ret ()))"

definition PRef_read_wr :: "usize \<Rightarrow> nat \<Rightarrow> (byte list \<Rightarrow> byte list) \<Rightarrow> byte list tx" where
  "PRef_read_wr inner n f = Log inner n (use_mut n f inner)"

definition PRefWLog_read :: "usize \<Rightarrow> nat \<Rightarrow> byte list tx" where
  "PRefWLog_read inner n = use_ref n inner"

definition PRefWLog_as_ref :: "usize \<Rightarrow> usize tx" where
  "PRefWLog_as_ref inner = Ret inner"

definition PRefWLog_as_mut :: "usize \<Rightarrow> nat \<Rightarrow> usize tx" where
  "PRefWLog_as_mut inner n = Log inner n (Ret inner)"

definition PRefWLog_write :: "usize \<Rightarrow> nat \<Rightarrow> (byte list \<Rightarrow> byte list) \<Rightarrow> usize tx" where
  "PRefWLog_write inner n f = Log inner n (tx_bind (use_mut n f inner) (\<lambda>_. Ret inner))"

definition PRefWLog_into_pref_rw :: "usize \<Rightarrow> nat \<Rightarrow> usize tx" where
  "PRefWLog_into_pref_rw inner n = Log inner n (Ret inner)"

definition PRefWLog_read_wr :: "usize \<Rightarrow> nat \<Rightarrow> (byte list \<Rightarrow> byte list) \<Rightarrow> byte list tx" where
  "PRefWLog_read_wr inner n f = Log inner n (use_mut n f inner)"

definition PRefRW_as_ref :: "usize \<Rightarrow> usize tx" where
  "PRefRW_as_ref inner = Ret inner"

definition PRefRW_as_mut :: "usize \<Rightarrow> usize tx" where
  "PRefRW_as_mut inner = Ret inner"

text \<open>Persistent statics (\<open>src/user/pstatics.rs\<close>) and the guards of persistent mutexes (\<open>src/user/pmutex.rs\<close>).\<close>

definition PStatic_as_mut :: "usize \<Rightarrow> nat \<Rightarrow> usize tx" where
  "PStatic_as_mut var n = Log var n (Ret var)"

definition PStatic_as_ref :: "usize \<Rightarrow> usize tx" where
  "PStatic_as_ref var = Ret var"

definition PStatic_as_pref :: "usize \<Rightarrow> usize tx" where
  "PStatic_as_pref var = Ret var"

definition PMutexGuard_as_mut :: "usize \<Rightarrow> nat \<Rightarrow> usize tx" where
  "PMutexGuard_as_mut inner n = Log inner n (Ret inner)"

definition PMutexGuard_as_ref :: "usize \<Rightarrow> usize tx" where
  "PMutexGuard_as_ref inner = Ret inner"

section \<open>Programs over handles\<close>

text \<open>The types of handles; a reference that was borrowed from a pointer, a box or a static gives it back at the end of the
  borrow. The flag of a static is not part of its type: it says whether the static has been read.\<close>

datatype owner = Nobody | OfPtr | OfBox | OfStatic

datatype hty = PStatic bool | PMutexGuard | PBox | Ptr | PtrRO | PtrWLog | PtrRW | PRef owner | PRefWLog owner | PRefRW owner

datatype meth =
    BoxAsMut "byte list \<Rightarrow> byte list" | BoxAsRef | BoxAsPrefWlog
  | PtrWrite "byte list" | PtrRead | PtrIntoRo | PtrIntoBox | PtrAsPref
  | RoAsRef
  | WLogWrite "byte list \<Rightarrow> byte list" | WLogAsMut "byte list \<Rightarrow> byte list" | WLogAsRef | WLogIntoBox
  | RwDownCast | RwIntoBox | RwIntoPtr | RwDeref | RwDerefMut "byte list \<Rightarrow> byte list"
  | RefRead | RefIntoReadable | RefWrite "byte list" | RefPartialWrite nat "byte list"
  | RefReadWr "byte list \<Rightarrow> byte list"
  | RefWLogRead | RefWLogAsRef | RefWLogAsMut "byte list \<Rightarrow> byte list" | RefWLogWrite "byte list \<Rightarrow> byte list"
  | RefWLogIntoRw | RefWLogReadWr "byte list \<Rightarrow> byte list"
  | RefRWAsRef | RefRWAsMut "byte list \<Rightarrow> byte list"
  | StaticAsMut "byte list \<Rightarrow> byte list" | StaticAsRef | StaticAsPref
  | GuardAsMut "byte list \<Rightarrow> byte list" | GuardAsRef
  | EndBorrow

primrec meth_tx :: "meth \<Rightarrow> usize \<Rightarrow> nat \<Rightarrow> byte list tx" where
  "meth_tx (BoxAsMut f) a n = tx_bind (PBox_as_mut a n) (use_mut n f)"
| "meth_tx BoxAsRef a n = tx_bind (PBox_as_ref a) (use_ref n)"
| "meth_tx BoxAsPrefWlog a n = tx_bind (PBox_as_pref_wlog a) (\<lambda>_. Ret [])"
| "meth_tx (PtrWrite x) a n = tx_bind (Ptr_write a x) (\<lambda>_. Ret [])"
| "meth_tx PtrRead a n = Ptr_read a n"
| "meth_tx PtrIntoRo a n = tx_bind (Ptr_into_ptr_ro a) (\<lambda>_. Ret [])"
| "meth_tx PtrIntoBox a n = tx_bind (Ptr_into_pbox a) (\<lambda>_. Ret [])"
| "meth_tx PtrAsPref a n = tx_bind (Ptr_as_pref a) (\<lambda>_. Ret [])"
| "meth_tx RoAsRef a n = tx_bind (PtrRO_as_ref a) (use_ref n)"
| "meth_tx (WLogWrite f) a n = tx_bind (PtrWLog_write a n f) (\<lambda>_. Ret [])"
| "meth_tx (WLogAsMut f) a n = tx_bind (PtrWLog_as_mut a n) (use_mut n f)"
| "meth_tx WLogAsRef a n = tx_bind (PtrWLog_as_ref a) (use_ref n)"
| "meth_tx WLogIntoBox a n = tx_bind (PtrWLog_into_pbox a) (\<lambda>_. Ret [])"
| "meth_tx RwDownCast a n = tx_bind (PtrRW_down_cast a) (\<lambda>_. Ret [])"
| "meth_tx RwIntoBox a n = tx_bind (PtrRW_into_pbox a) (\<lambda>_. Ret [])"
| "meth_tx RwIntoPtr a n = tx_bind (PtrRW_into_ptr a) (\<lambda>_. Ret [])"
| "meth_tx RwDeref a n = tx_bind (PtrRW_deref a) (use_ref n)"
| "meth_tx (RwDerefMut f) a n = tx_bind (PtrRW_deref_mut a) (use_mut n f)"
| "meth_tx RefRead a n = PRef_read a n"
| "meth_tx RefIntoReadable a n = tx_bind (PRef_into_readable a) (\<lambda>_. Ret [])"
| "meth_tx (RefWrite x) a n = tx_bind (PRef_write a x) (\<lambda>_. Ret [])"
| "meth_tx (RefPartialWrite i x) a n = tx_bind (PRef_partial_write a i x) (\<lambda>_. Ret [])"
| "meth_tx (RefReadWr f) a n = PRef_read_wr a n f"
| "meth_tx RefWLogRead a n = PRefWLog_read a n"
| "meth_tx RefWLogAsRef a n = tx_bind (PRefWLog_as_ref a) (use_ref n)"
| "meth_tx (RefWLogAsMut f) a n = tx_bind (PRefWLog_as_mut a n) (use_mut n f)"
| "meth_tx (RefWLogWrite f) a n = tx_bind (PRefWLog_write a n f) (\<lambda>_. Ret [])"
| "meth_tx RefWLogIntoRw a n = tx_bind (PRefWLog_into_pref_rw a n) (\<lambda>_. Ret [])"
| "meth_tx (RefWLogReadWr f) a n = PRefWLog_read_wr a n f"
| "meth_tx RefRWAsRef a n = tx_bind (PRefRW_as_ref a) (use_ref n)"
| "meth_tx (RefRWAsMut f) a n = tx_bind (PRefRW_as_mut a) (use_mut n f)"
| "meth_tx (StaticAsMut f) a n = tx_bind (PStatic_as_mut a n) (use_mut n f)"
| "meth_tx StaticAsRef a n = tx_bind (PStatic_as_ref a) (use_ref n)"
| "meth_tx StaticAsPref a n = tx_bind (PStatic_as_pref a) (\<lambda>_. Ret [])"
| "meth_tx (GuardAsMut f) a n = tx_bind (PMutexGuard_as_mut a n) (use_mut n f)"
| "meth_tx GuardAsRef a n = tx_bind (PMutexGuard_as_ref a) (use_ref n)"
| "meth_tx EndBorrow a n = Ret []"

text \<open>Whether the caller learns the value of the object.\<close>

primrec reads :: "meth \<Rightarrow> bool" where
  "reads (BoxAsMut f) = True"
| "reads BoxAsRef = True"
| "reads BoxAsPrefWlog = False"
| "reads (PtrWrite x) = False"
| "reads PtrRead = True"
| "reads PtrIntoRo = False"
| "reads PtrIntoBox = False"
| "reads PtrAsPref = False"
| "reads RoAsRef = True"
| "reads (WLogWrite f) = False"
| "reads (WLogAsMut f) = True"
| "reads WLogAsRef = True"
| "reads WLogIntoBox = False"
| "reads RwDownCast = False"
| "reads RwIntoBox = False"
| "reads RwIntoPtr = False"
| "reads RwDeref = True"
| "reads (RwDerefMut f) = True"
| "reads RefRead = True"
| "reads RefIntoReadable = False"
| "reads (RefWrite x) = False"
| "reads (RefPartialWrite i x) = False"
| "reads (RefReadWr f) = True"
| "reads RefWLogRead = True"
| "reads RefWLogAsRef = True"
| "reads (RefWLogAsMut f) = True"
| "reads (RefWLogWrite f) = False"
| "reads RefWLogIntoRw = False"
| "reads (RefWLogReadWr f) = True"
| "reads RefRWAsRef = True"
| "reads (RefRWAsMut f) = True"
| "reads (StaticAsMut f) = True"
| "reads StaticAsRef = True"
| "reads StaticAsPref = False"
| "reads (GuardAsMut f) = True"
| "reads GuardAsRef = True"
| "reads EndBorrow = False"

text \<open>The signatures: the type of the receiver and the type of the handle the caller has afterwards.\<close>

primrec sig :: "meth \<Rightarrow> hty \<Rightarrow> hty option" where
  "sig (BoxAsMut f) h = (if h = PBox then Some PBox else None)"
| "sig BoxAsRef h = (if h = PBox then Some PBox else None)"
| "sig BoxAsPrefWlog h = (if h = PBox then Some (PRefWLog OfBox) else None)"
| "sig (PtrWrite x) h = (if h = Ptr then Some PtrRW else None)"
| "sig PtrRead h = (if h = Ptr then Some PtrWLog else None)"
| "sig PtrIntoRo h = (if h = Ptr then Some PtrRO else None)"
| "sig PtrIntoBox h = (if h = Ptr then Some PBox else None)"
| "sig PtrAsPref h = (if h = Ptr then Some (PRef OfPtr) else None)"
| "sig RoAsRef h = (if h = PtrRO then Some PtrRO else None)"
| "sig (WLogWrite f) h = (if h = PtrWLog then Some PtrRW else None)"
| "sig (WLogAsMut f) h = (if h = PtrWLog then Some PtrWLog else None)"
| "sig WLogAsRef h = (if h = PtrWLog then Some PtrWLog else None)"
| "sig WLogIntoBox h = (if h = PtrWLog then Some PBox else None)"
| "sig RwDownCast h = (if h = PtrRW then Some PtrWLog else None)"
| "sig RwIntoBox h = (if h = PtrRW then Some PBox else None)"
| "sig RwIntoPtr h = (if h = PtrRW then Some Ptr else None)"
| "sig RwDeref h = (if h = PtrRW then Some PtrRW else None)"
| "sig (RwDerefMut f) h = (if h = PtrRW then Some PtrRW else None)"
| "sig RefRead h = (case h of PRef w \<Rightarrow> Some (PRefWLog w) | _ \<Rightarrow> None)"
| "sig RefIntoReadable h = (case h of PRef w \<Rightarrow> Some (PRefWLog w) | _ \<Rightarrow> None)"
| "sig (RefWrite x) h = (case h of PRef w \<Rightarrow> Some (PRefRW w) | _ \<Rightarrow> None)"
| "sig (RefPartialWrite i x) h = (case h of PRef w \<Rightarrow> Some (PRef w) | _ \<Rightarrow> None)"
| "sig (RefReadWr f) h = (case h of PRef w \<Rightarrow> Some (PRefRW w) | _ \<Rightarrow> None)"
| "sig RefWLogRead h = (case h of PRefWLog w \<Rightarrow> Some (PRefWLog w) | _ \<Rightarrow> None)"
| "sig RefWLogAsRef h = (case h of PRefWLog w \<Rightarrow> Some (PRefWLog w) | _ \<Rightarrow> None)"
| "sig (RefWLogAsMut f) h = (case h of PRefWLog w \<Rightarrow> Some (PRefWLog w) | _ \<Rightarrow> None)"
| "sig (RefWLogWrite f) h = (case h of PRefWLog w \<Rightarrow> Some (PRefRW w) | _ \<Rightarrow> None)"
| "sig RefWLogIntoRw h = (case h of PRefWLog w \<Rightarrow> Some (PRefRW w) | _ \<Rightarrow> None)"
| "sig (RefWLogReadWr f) h = (case h of PRefWLog w \<Rightarrow> Some (PRefRW w) | _ \<Rightarrow> None)"
| "sig RefRWAsRef h = (case h of PRefRW w \<Rightarrow> Some (PRefRW w) | _ \<Rightarrow> None)"
| "sig (RefRWAsMut f) h = (case h of PRefRW w \<Rightarrow> Some (PRefRW w) | _ \<Rightarrow> None)"
| "sig (StaticAsMut f) h = (case h of PStatic b \<Rightarrow> Some (PStatic b) | _ \<Rightarrow> None)"
| "sig StaticAsRef h = (case h of PStatic b \<Rightarrow> Some (PStatic True) | _ \<Rightarrow> None)"
| "sig StaticAsPref h = (case h of PStatic b \<Rightarrow> Some (PRef OfStatic) | _ \<Rightarrow> None)"
| "sig (GuardAsMut f) h = (if h = PMutexGuard then Some PMutexGuard else None)"
| "sig GuardAsRef h = (if h = PMutexGuard then Some PMutexGuard else None)"
| "sig EndBorrow h = (if h \<in> {PRef OfPtr, PRefWLog OfPtr, PRefRW OfPtr} then Some Ptr
     else if h \<in> {PRefWLog OfBox, PRefRW OfBox} then Some PBox
     else if h = PRefWLog OfStatic then Some (PStatic True)
     else if h \<in> {PRef OfStatic, PRefRW OfStatic} then Some (PStatic False) else None)"

text \<open>The values written have the size of the type.\<close>

definition sized :: "nat \<Rightarrow> (byte list \<Rightarrow> byte list) \<Rightarrow> bool" where
  "sized n f \<longleftrightarrow> (\<forall>v. length v = n \<longrightarrow> length (f v) = n)"

primrec fits :: "nat \<Rightarrow> meth \<Rightarrow> bool" where
  "fits n (BoxAsMut f) \<longleftrightarrow> sized n f"
| "fits n BoxAsRef \<longleftrightarrow> True"
| "fits n BoxAsPrefWlog \<longleftrightarrow> True"
| "fits n (PtrWrite x) \<longleftrightarrow> length x = n"
| "fits n PtrRead \<longleftrightarrow> True"
| "fits n PtrIntoRo \<longleftrightarrow> True"
| "fits n PtrIntoBox \<longleftrightarrow> True"
| "fits n PtrAsPref \<longleftrightarrow> True"
| "fits n RoAsRef \<longleftrightarrow> True"
| "fits n (WLogWrite f) \<longleftrightarrow> sized n f"
| "fits n (WLogAsMut f) \<longleftrightarrow> sized n f"
| "fits n WLogAsRef \<longleftrightarrow> True"
| "fits n WLogIntoBox \<longleftrightarrow> True"
| "fits n RwDownCast \<longleftrightarrow> True"
| "fits n RwIntoBox \<longleftrightarrow> True"
| "fits n RwIntoPtr \<longleftrightarrow> True"
| "fits n RwDeref \<longleftrightarrow> True"
| "fits n (RwDerefMut f) \<longleftrightarrow> sized n f"
| "fits n RefRead \<longleftrightarrow> True"
| "fits n RefIntoReadable \<longleftrightarrow> True"
| "fits n (RefWrite x) \<longleftrightarrow> length x = n"
| "fits n (RefPartialWrite i x) \<longleftrightarrow> i + length x \<le> n"
| "fits n (RefReadWr f) \<longleftrightarrow> sized n f"
| "fits n RefWLogRead \<longleftrightarrow> True"
| "fits n RefWLogAsRef \<longleftrightarrow> True"
| "fits n (RefWLogAsMut f) \<longleftrightarrow> sized n f"
| "fits n (RefWLogWrite f) \<longleftrightarrow> sized n f"
| "fits n RefWLogIntoRw \<longleftrightarrow> True"
| "fits n (RefWLogReadWr f) \<longleftrightarrow> sized n f"
| "fits n RefRWAsRef \<longleftrightarrow> True"
| "fits n (RefRWAsMut f) \<longleftrightarrow> sized n f"
| "fits n (StaticAsMut f) \<longleftrightarrow> sized n f"
| "fits n StaticAsRef \<longleftrightarrow> True"
| "fits n StaticAsPref \<longleftrightarrow> True"
| "fits n (GuardAsMut f) \<longleftrightarrow> sized n f"
| "fits n GuardAsRef \<longleftrightarrow> True"
| "fits n EndBorrow \<longleftrightarrow> True"

text \<open>A body over handles: calls of methods, what comes next may depend on what was read. Object \<open>h\<close> is
  \<open>objs h\<close>, its address and size.\<close>

datatype 'r client = Done 'r | Call nat meth "byte list \<Rightarrow> 'r client"

primrec client_tx :: "(nat \<Rightarrow> usize \<times> nat) \<Rightarrow> 'r client \<Rightarrow> 'r tx" where
  "client_tx objs (Done r) = Ret r"
| "client_tx objs (Call h m k) = tx_bind (meth_tx m (fst (objs h)) (snd (objs h))) (\<lambda>v. client_tx objs (k v))"

text \<open>What the type checker does not see: a \<open>Ptr\<close> gets back a reference that was read through, and a static that
  has been read hands out a new reference.\<close>

definition unread :: "meth \<Rightarrow> hty \<Rightarrow> bool" where
  "unread m \<tau> \<longleftrightarrow> \<not> (m = EndBorrow \<and> \<tau> = PRefWLog OfPtr) \<and> \<not> (m = StaticAsPref \<and> \<tau> = PStatic True)"

text \<open>The type checker; with \<open>strict\<close> it also rejects these two.\<close>

inductive typed :: "bool \<Rightarrow> (nat \<Rightarrow> usize \<times> nat) \<Rightarrow> (nat \<rightharpoonup> hty) \<Rightarrow> 'r client \<Rightarrow> bool" for strict objs where
  typed_Done: "typed strict objs \<Gamma> (Done r)"
| typed_Call: "\<Gamma> h = Some \<tau> \<Longrightarrow> sig m \<tau> = Some \<tau>' \<Longrightarrow> fits (snd (objs h)) m \<Longrightarrow>
    (strict \<Longrightarrow> unread m \<tau>) \<Longrightarrow>
    (\<And>v. length v = (if reads m then snd (objs h) else 0) \<Longrightarrow> typed strict objs (\<Gamma>(h \<mapsto> \<tau>')) (k v)) \<Longrightarrow>
    typed strict objs \<Gamma> (Call h m k)"

section \<open>What the type checker accepts can be run again\<close>

text \<open>What the type of a handle says of its object: \<open>A\<close> are the bytes of the object.\<close>

primrec holds :: "hty \<Rightarrow> usize set \<Rightarrow> usize set \<Rightarrow> usize set \<Rightarrow> usize set \<Rightarrow> bool" where
  "holds (PStatic b) A E F L \<longleftrightarrow> b \<or> A \<inter> E \<subseteq> L"
| "holds PMutexGuard A E F L \<longleftrightarrow> True"
| "holds PBox A E F L \<longleftrightarrow> True"
| "holds Ptr A E F L \<longleftrightarrow> A \<inter> E \<subseteq> L"
| "holds PtrRO A E F L \<longleftrightarrow> True"
| "holds PtrWLog A E F L \<longleftrightarrow> True"
| "holds PtrRW A E F L \<longleftrightarrow> A \<subseteq> F \<union> L"
| "holds (PRef w) A E F L \<longleftrightarrow> A \<inter> E \<subseteq> L"
| "holds (PRefWLog w) A E F L \<longleftrightarrow> True"
| "holds (PRefRW w) A E F L \<longleftrightarrow> A \<subseteq> F \<union> L"

lemma holds_other:
  "holds \<tau> B E F L \<Longrightarrow> E' \<subseteq> E \<union> A \<Longrightarrow> B \<inter> A = {} \<Longrightarrow> F \<subseteq> F' \<Longrightarrow> L \<subseteq> L' \<Longrightarrow> holds \<tau> B E' F' L'"
  by (cases \<tau>; simp; blast)

lemmas method_defs = use_ref_def use_mut_def PBox_as_mut_def PBox_as_ref_def PBox_as_pref_wlog_def
  PBox_as_mut_no_logging_def Ptr_write_def Ptr_read_def Ptr_into_ptr_ro_def Ptr_into_pbox_def Ptr_as_pref_def
  PtrRO_as_ref_def PtrWLog_write_def PtrWLog_as_mut_def PtrWLog_as_ref_def PtrWLog_into_pbox_def
  PtrRW_down_cast_def PtrRW_into_pbox_def PtrRW_into_ptr_def PtrRW_deref_def PtrRW_deref_mut_def
  PRef_read_def PRef_into_readable_def PRef_write_def PRef_partial_write_def PRef_read_wr_def
  PRefWLog_read_def PRefWLog_as_ref_def PRefWLog_as_mut_def PRefWLog_write_def PRefWLog_into_pref_rw_def
  PRefWLog_read_wr_def PRefRW_as_ref_def PRefRW_as_mut_def
  PStatic_as_mut_def PStatic_as_ref_def PStatic_as_pref_def PMutexGuard_as_mut_def PMutexGuard_as_ref_def

lemma field_area:
  assumes "i + k \<le> n" "n < 2 ^ 31"
  shows "area (a + of_nat i) k \<subseteq> area a n"
proof
  fix x
  assume "x \<in> area (a + of_nat i) k"
  then have k: "unat (x - (a + of_nat i)) < k" by (simp add: area_def)
  have e: "of_nat i + (x - (a + of_nat i)) = x - a" by simp
  have "unat (x - a) = i + unat (x - (a + of_nat i))"
    using k assms unat_of_nat_small [of i] unat_word_ariths(1) [of "of_nat i" "x - (a + of_nat i)", unfolded e] by simp
  then show "x \<in> area a n" using k assms(1) by (simp add: area_def)
qed

lemma length_bytes_of [simp]: "length (bytes_of m a n) = n"
  by (simp add: bytes_of_def)

text \<open>A call keeps the protocol and leaves the handle in the state its new type says.\<close>

lemma RW_free: "A \<subseteq> F \<union> L \<Longrightarrow> F \<inter> E = {} \<Longrightarrow> A \<inter> E \<subseteq> L"
  by blast

lemma call_rerunnable:
  assumes "sig m \<tau> = Some \<tau>'" "fits n m" "n < 2 ^ 31" "unread m \<tau>"
    and "holds \<tau> (area a n) E F L" "F \<inter> E = {}"
    and "\<And>v E' F' L' mem'. length v = (if reads m then n else 0) \<Longrightarrow> holds \<tau>' (area a n) E' F' L' \<Longrightarrow> F' \<inter> E' = {} \<Longrightarrow>
      E \<subseteq> E' \<Longrightarrow> E' \<subseteq> E \<union> area a n \<Longrightarrow> F \<subseteq> F' \<Longrightarrow> L \<subseteq> L' \<Longrightarrow> rerunnable (k v) E' F' L' mem'"
  shows "rerunnable (tx_bind (meth_tx m a n) k) E F L mem"
proof (cases m)
  case RwIntoPtr
  then show ?thesis using assms RW_free [of "area a n" F L E]
    by (auto simp: unread_def method_defs split: if_splits intro!: assms(7))
next
  case EndBorrow
  then show ?thesis using assms RW_free [of "area a n" F L E]
    by (auto simp: unread_def method_defs split: if_splits intro!: assms(7))
next
  case (RefPartialWrite i x)
  then show ?thesis using assms field_area [of i "length x" n a]
    by (auto simp: unread_def method_defs Let_def split: hty.splits if_splits intro!: assms(7))
qed (use assms in \<open>auto simp: unread_def method_defs sized_def split: hty.splits if_splits intro!: assms(7)\<close>)

definition handles_apart :: "(nat \<Rightarrow> usize \<times> nat) \<Rightarrow> (nat \<rightharpoonup> hty) \<Rightarrow> bool" where
  "handles_apart objs \<Gamma> \<longleftrightarrow> (\<forall>h\<in>dom \<Gamma>. snd (objs h) < 2 ^ 31 \<and>
     (\<forall>g\<in>dom \<Gamma>. g \<noteq> h \<longrightarrow> area (fst (objs g)) (snd (objs g)) \<inter> area (fst (objs h)) (snd (objs h)) = {}))"

lemma handles_apartD:
  assumes "handles_apart objs \<Gamma>" "\<Gamma> h = Some \<tau>" "objs h = (a, n)"
  shows "n < 2 ^ 31" "\<Gamma> g = Some \<sigma> \<Longrightarrow> g \<noteq> h \<Longrightarrow> area (fst (objs g)) (snd (objs g)) \<inter> area a n = {}"
  using assms(1) [unfolded handles_apart_def, rule_format, OF domI [of \<Gamma> h \<tau>, OF assms(2)]] assms(3) domI [of \<Gamma> g \<sigma>] by simp_all

lemma typed_rerunnable:
  assumes "typed True objs \<Gamma> c" "handles_apart objs \<Gamma>" "F \<inter> E = {}"
    and "\<And>h \<tau>. \<Gamma> h = Some \<tau> \<Longrightarrow> holds \<tau> (area (fst (objs h)) (snd (objs h))) E F L"
  shows "rerunnable (client_tx objs c) E F L mem"
  using assms
proof (induction arbitrary: E F L mem rule: typed.induct)
  case (typed_Done \<Gamma> r)
  then show ?case by simp
next
  case (typed_Call \<Gamma> h \<tau> m \<tau>' k)
  obtain a n where o: "objs h = (a, n)" by fastforce
  note n = handles_apartD(1) [OF typed_Call.prems(1) typed_Call.hyps(1) o]
  have hs: "handles_apart objs (\<Gamma>(h \<mapsto> \<tau>'))"
    using typed_Call.prems(1) typed_Call.hyps(1) by (simp add: handles_apart_def insert_absorb domI)
  have "rerunnable (tx_bind (meth_tx m a n) (\<lambda>v. client_tx objs (k v))) E F L mem0" for mem0
  proof (rule call_rerunnable [OF typed_Call.hyps(2) _ n])
    show "fits n m" using typed_Call.hyps(3) o by simp
    show "unread m \<tau>" using typed_Call.hyps(4) by simp
    show "holds \<tau> (area a n) E F L" using typed_Call.prems(3) [OF typed_Call.hyps(1)] o by simp
    show "F \<inter> E = {}" by (rule typed_Call.prems(2))
    fix v :: "byte list" and E' F' L' mem'
    assume v: "length v = (if reads m then n else 0)" and new: "holds \<tau>' (area a n) E' F' L'" and fe: "F' \<inter> E' = {}"
      and sub: "E' \<subseteq> E \<union> area a n" "F \<subseteq> F'" "L \<subseteq> L'"
    show "rerunnable (client_tx objs (k v)) E' F' L' mem'"
    proof (rule typed_Call.IH [OF _ hs fe])
      show "length v = (if reads m then snd (objs h) else 0)" using v o by simp
      fix g \<sigma>
      assume g: "(\<Gamma>(h \<mapsto> \<tau>')) g = Some \<sigma>"
      show "holds \<sigma> (area (fst (objs g)) (snd (objs g))) E' F' L'"
      proof (cases "g = h")
        case True
        then show ?thesis using g new o by simp
      next
        case False
        then have "\<Gamma> g = Some \<sigma>" using g by simp
        moreover from this False have "area (fst (objs g)) (snd (objs g)) \<inter> area a n = {}"
          by (rule handles_apartD(2) [OF typed_Call.prems(1) typed_Call.hyps(1) o])
        ultimately show ?thesis using holds_other [OF typed_Call.prems(3) sub(1) _ sub(2,3)] by blast
      qed
    qed
  qed
  then show ?case using o by simp
qed

text \<open>The marker traits (\<open>src/marker.rs\<close>, \<open>src/user/pbox.rs\<close>), inferred for each handle from its fields unless there is an
  explicit instance. Statics and guards are captured by shared reference. A handle that contains \<open>&mut T\<close> is neither
  \<open>TxInSafe\<close> nor \<open>TxOutSafe\<close>, apart from the explicit instance for \<open>PRef\<close>; one that contains an \<open>UnsafeCell\<close> is not
  \<open>TxOutSafe\<close>; \<open>PtrRW\<close> and \<open>PtrWLog\<close> have explicit negative instances.\<close>

primrec tx_in_safe :: "hty \<Rightarrow> bool" where
  "tx_in_safe (PStatic b) \<longleftrightarrow> True"
| "tx_in_safe PMutexGuard \<longleftrightarrow> True"
| "tx_in_safe PBox \<longleftrightarrow> True"
| "tx_in_safe Ptr \<longleftrightarrow> True"
| "tx_in_safe PtrRO \<longleftrightarrow> True"
| "tx_in_safe PtrWLog \<longleftrightarrow> True"
| "tx_in_safe PtrRW \<longleftrightarrow> True"
| "tx_in_safe (PRef w) \<longleftrightarrow> True"
| "tx_in_safe (PRefWLog w) \<longleftrightarrow> False"
| "tx_in_safe (PRefRW w) \<longleftrightarrow> False"

primrec tx_out_safe :: "hty \<Rightarrow> bool" where
  "tx_out_safe (PStatic b) \<longleftrightarrow> False"
| "tx_out_safe PMutexGuard \<longleftrightarrow> False"
| "tx_out_safe PBox \<longleftrightarrow> True"
| "tx_out_safe Ptr \<longleftrightarrow> True"
| "tx_out_safe PtrRO \<longleftrightarrow> True"
| "tx_out_safe PtrWLog \<longleftrightarrow> False"
| "tx_out_safe PtrRW \<longleftrightarrow> False"
| "tx_out_safe (PRef w) \<longleftrightarrow> False"
| "tx_out_safe (PRefWLog w) \<longleftrightarrow> False"
| "tx_out_safe (PRefRW w) \<longleftrightarrow> False"

text \<open>\<open>PtrRO\<close>, \<open>PtrWLog\<close> and \<open>PtrRW\<close> are made from a \<open>Ptr\<close> inside a transaction, so outside of one there are only those it has
  returned. \<open>at_start\<close>: the handles a transaction can start with.\<close>

definition at_start :: "hty \<Rightarrow> bool" where
  "at_start \<tau> \<longleftrightarrow> tx_in_safe \<tau> \<and> (\<tau> \<in> {PtrRO, PtrWLog, PtrRW} \<longrightarrow> tx_out_safe \<tau>)"


text \<open>An example: a counter is read and incremented with a log record, its copy is written without one.\<close>

definition demo_client :: "unit client" where
  "demo_client = Call 0 PtrRead (\<lambda>v. Call 0 (WLogWrite (map (\<lambda>b. b + 1))) (\<lambda>_. Call 1 (RefWrite v) (\<lambda>_. Done ())))"

definition demo_objs :: "nat \<Rightarrow> usize \<times> nat" where
  "demo_objs h = (if h = 0 then (100, 1) else (200, 1))"

lemma demo_typed: "typed True demo_objs [0 \<mapsto> Ptr, 1 \<mapsto> PRef Nobody] demo_client"
  unfolding demo_client_def by (rule typed_Call, simp, simp, simp add: sized_def demo_objs_def, simp add: unread_def)+ (rule typed_Done)


section \<open>Borrowing a reference that is read through\<close>

text \<open>A counter of one byte that is read through a reference borrowed with \<open>Ptr::as_pref\<close>; after the borrow the pointer
  is still a \<open>Ptr\<close>, and \<open>Ptr::write\<close> does not log. A static hands out as many references as asked for.\<close>

definition as_pref_counter :: "unit client" where
  "as_pref_counter = Call 0 PtrAsPref (\<lambda>_. Call 0 RefRead (\<lambda>v. Call 0 EndBorrow (\<lambda>_.
     Call 0 (PtrWrite (map (\<lambda>b. b + 1) v)) (\<lambda>_. Done ()))))"

definition static_pref_counter :: "unit client" where
  "static_pref_counter = Call 0 StaticAsPref (\<lambda>_. Call 0 RefRead (\<lambda>v. Call 0 EndBorrow (\<lambda>_. Call 0 StaticAsPref (\<lambda>_.
     Call 0 (RefWrite (map (\<lambda>b. b + 1) v)) (\<lambda>_. Done ())))))"

lemma recover_nothing: "is_empty s \<Longrightarrow> exec recover s = Inr ((), s)"
  using recover_undoes [of s "[]"] by (simp add: is_empty_def)

lemma as_pref_counter_prog: "tx_prog (client_tx (\<lambda>_. (a, 1)) as_pref_counter) =
    Read (\<lambda>s. Write (\<lambda>t. t\<lparr>pm_mem := (pm_mem t)(a := pm_mem s a + 1)\<rparr>) (Return ()))"
  by (simp add: as_pref_counter_def method_defs store_object_def seq_simps read_bytes_def del: fun_upd_apply)

text \<open>Claim C34. The borrow is a hole in the protocol: a body that the type checker accepts reads a counter through
  \<open>Ptr::as_pref\<close> and writes it back incremented with \<open>Ptr::write\<close>, or does the same with two references
  from \<open>PStatic::as_pref\<close>. Uninterrupted it adds one; cut off after its store
  and run again after the recovery, as every interrupted transaction is, it adds two.\<close>

theorem as_pref_not_rerunnable:
  assumes "is_empty s"
  shows "typed False (\<lambda>_. (a, 1)) [0 \<mapsto> Ptr] as_pref_counter \<and>
    typed False (\<lambda>_. (a, 1)) [0 \<mapsto> PStatic False] static_pref_counter \<and>
    client_tx (\<lambda>_. (a, 1)) static_pref_counter = client_tx (\<lambda>_. (a, 1)) as_pref_counter \<and>
    (\<exists>u. exec (tx_prog (client_tx (\<lambda>_. (a, 1)) as_pref_counter)) s = Inr ((), u) \<and> pm_mem u a = pm_mem s a + 1) \<and>
    (\<exists>u. exec (tx_prog (client_tx (\<lambda>_. (a, 1)) as_pref_counter))
        (attempts (client_tx (\<lambda>_. (a, 1)) as_pref_counter) [(1, [])] s) = Inr ((), u) \<and> pm_mem u a = pm_mem s a + 2)"
proof (intro conjI)
  show "typed False (\<lambda>_. (a, 1)) [0 \<mapsto> Ptr] as_pref_counter"
    unfolding as_pref_counter_def by (rule typed_Call, simp, simp, simp, simp)+ (rule typed_Done)
  show "typed False (\<lambda>_. (a, 1)) [0 \<mapsto> PStatic False] static_pref_counter"
    unfolding static_pref_counter_def by (rule typed_Call, simp, simp, simp, simp)+ (rule typed_Done)
  show "client_tx (\<lambda>_. (a, 1)) static_pref_counter = client_tx (\<lambda>_. (a, 1)) as_pref_counter"
    by (simp add: as_pref_counter_def static_pref_counter_def method_defs)
  let ?s = "s\<lparr>pm_mem := (pm_mem s)(a := pm_mem s a + 1)\<rparr>"
  have "exec recover ?s = Inr ((), ?s)" by (rule recover_nothing) (use assms in \<open>simp add: is_empty_def\<close>)
  then have "attempts (client_tx (\<lambda>_. (a, 1)) as_pref_counter) [(1, [])] s = ?s"
    using exec_final [of recover ?s "()" ?s]
    by (simp add: attempts_def attempt_def as_pref_counter_prog [unfolded One_nat_def] del: fun_upd_apply)
  then show "\<exists>u. exec (tx_prog (client_tx (\<lambda>_. (a, 1)) as_pref_counter))
        (attempts (client_tx (\<lambda>_. (a, 1)) as_pref_counter) [(1, [])] s) = Inr ((), u) \<and> pm_mem u a = pm_mem s a + 2"
    by (simp add: as_pref_counter_prog [unfolded One_nat_def])
qed (simp add: as_pref_counter_prog [unfolded One_nat_def])

theorem as_pref_not_rerunnable_witness:
  "typed False (\<lambda>_. (100, 1)) [0 \<mapsto> Ptr] as_pref_counter \<and>
    typed False (\<lambda>_. (100, 1)) [0 \<mapsto> PStatic False] static_pref_counter \<and>
    client_tx (\<lambda>_. (100, 1)) static_pref_counter = client_tx (\<lambda>_. (100, 1)) as_pref_counter \<and>
    (\<exists>u. exec (tx_prog (client_tx (\<lambda>_. (100, 1)) as_pref_counter)) demo_pm = Inr ((), u) \<and> pm_mem u 100 = pm_mem demo_pm 100 + 1) \<and>
    (\<exists>u. exec (tx_prog (client_tx (\<lambda>_. (100, 1)) as_pref_counter))
        (attempts (client_tx (\<lambda>_. (100, 1)) as_pref_counter) [(1, [])] demo_pm) = Inr ((), u) \<and> pm_mem u 100 = pm_mem demo_pm 100 + 2)"
  by (rule as_pref_not_rerunnable) (simp add: is_empty_def demo_pm_def)

end
