(* ===== verification/PAlloc.thy ===== *)
theory PAlloc
  imports PQueue PRef
begin

text \<open>
  How the persistent objects of applications come into being: boxes (\<open>src/user/pbox.rs\<close>), vectors and arrays
  (\<open>src/user/pvec.rs\<close>), queues (\<open>src/user/pqueue.rs\<close>) and shared pointers (\<open>src/user/parc.rs\<close>). They are allocated by
  system calls (\<open>sys_palloc\<close>, \<open>sys_palloc_array\<close>) whose transactions run the allocator; \<open>heap\<close> is the allocator of
  the calling task.
\<close>

section \<open>The constructors\<close>

definition PBox_new :: "usize \<Rightarrow> usize \<Rightarrow> byte list \<Rightarrow> (pm, usize) prog" where
  "PBox_new heap align x = bind (pm_new_relaxed heap align x) (\<lambda>ptr. case ptr of
     None \<Rightarrow> Fail Panic
   | Some p \<Rightarrow> Return p)"

definition PBox_try_new :: "usize \<Rightarrow> usize \<Rightarrow> byte list \<Rightarrow> (pm, unit + usize) prog" where
  "PBox_try_new heap align x = bind (pm_new_relaxed heap align x) (\<lambda>ptr. case ptr of
     None \<Rightarrow> Return (Inl ())
   | Some p \<Rightarrow> Return (Inr p))"

definition PBox_into_inner :: "usize \<Rightarrow> Layout \<Rightarrow> usize \<Rightarrow> (pm, byte list) prog" where
  "PBox_into_inner heap layout ptr = Read (\<lambda>s. let dst = read_bytes ptr (unat (l_size layout)) s in
     seq (pfree heap ptr layout) (Return dst))"

definition rawpv_try_new_empty :: "usize \<Rightarrow> nat \<Rightarrow> usize \<Rightarrow> (pm, unit + RawPVec) prog" where
  "rawpv_try_new_empty heap n cap = (if cap = 0 then Fail Panic
     else bind (palloc_array heap (of_nat n) cap) (\<lambda>ptr. case ptr of
       None \<Rightarrow> Return (Inl ())
     | Some p \<Rightarrow> Return (Inr \<lparr>v_ptr = p, v_cap = cap, v_len = 0\<rparr>)))"

definition rawpv_try_new :: "usize \<Rightarrow> usize \<Rightarrow> byte list list \<Rightarrow> (pm, unit + RawPVec) prog" where
  "rawpv_try_new heap align x = bind (pm_new_relaxed heap align (concat x)) (\<lambda>ptr. case ptr of
     None \<Rightarrow> Return (Inl ())
   | Some p \<Rightarrow> Return (Inr \<lparr>v_ptr = p, v_cap = of_nat (length x), v_len = of_nat (length x)\<rparr>))"

definition rawpv_bytes :: "RawPVec \<Rightarrow> byte list" where
  "rawpv_bytes v = le_bytes (v_ptr v) @ le_bytes (v_cap v) @ le_bytes (v_len v)"

text \<open>\<open>PVec::try_new_empty\<close> and \<open>try_new\<close> box the header and free the buffer when that fails.\<close>

definition pvec_box :: "usize \<Rightarrow> nat \<Rightarrow> unit + RawPVec \<Rightarrow> (pm, unit + usize) prog" where
  "pvec_box heap n r = (case r of
     Inl e \<Rightarrow> Return (Inl e)
   | Inr buf \<Rightarrow> bind (PBox_try_new heap 4 (rawpv_bytes buf)) (\<lambda>res. case res of
       Inl _ \<Rightarrow> seq (pfree_array heap (of_nat n) (v_ptr buf) (v_cap buf)) (Return (Inl ()))
     | Inr boxed \<Rightarrow> Return (Inr boxed)))"

definition pvec_try_new_empty :: "usize \<Rightarrow> nat \<Rightarrow> usize \<Rightarrow> (pm, unit + usize) prog" where
  "pvec_try_new_empty heap n cap = bind (rawpv_try_new_empty heap n cap) (pvec_box heap n)"

definition pvec_try_new :: "usize \<Rightarrow> nat \<Rightarrow> usize \<Rightarrow> byte list list \<Rightarrow> (pm, unit + usize) prog" where
  "pvec_try_new heap n align x = bind (rawpv_try_new heap align x) (pvec_box heap n)"

definition pvec_new_with :: "usize \<Rightarrow> usize \<Rightarrow> byte list list \<Rightarrow> (pm, usize) prog" where
  "pvec_new_with heap align x = bind (rawpv_try_new heap align x) (\<lambda>r. case r of
     Inl _ \<Rightarrow> Fail Panic
   | Inr buf \<Rightarrow> PBox_new heap 4 (rawpv_bytes buf))"

definition pvec_new :: "usize \<Rightarrow> nat \<Rightarrow> usize \<Rightarrow> (pm, usize) prog" where
  "pvec_new heap n cap = bind (rawpv_try_new_empty heap n cap) (\<lambda>r. case r of
     Inl _ \<Rightarrow> Fail Panic
   | Inr buf \<Rightarrow> PBox_new heap 4 (rawpv_bytes buf))"

definition rawpq_try_new :: "usize \<Rightarrow> nat \<Rightarrow> usize \<Rightarrow> (pm, unit + RawPQueue) prog" where
  "rawpq_try_new heap n cap = (if cap = 0 then Fail Panic
     else bind (palloc_array heap (of_nat n) cap) (\<lambda>ptr. case ptr of
       None \<Rightarrow> Return (Inl ())
     | Some p \<Rightarrow> Return (Inr \<lparr>q_ptr = p, q_cap = cap, q_head = 0, q_tail = 0, q_len = 0\<rparr>)))"

definition pq_new :: "usize \<Rightarrow> nat \<Rightarrow> usize \<Rightarrow> (pm, usize) prog" where
  "pq_new heap n cap = bind (rawpq_try_new heap n cap) (\<lambda>r. case r of
     Inl _ \<Rightarrow> Fail Panic
   | Inr buf \<Rightarrow> PBox_new heap 4 (rawq_bytes buf))"

text \<open>An array is filled with the default value of its element type.\<close>

record PArr =
  arr_ptr :: usize
  arr_size :: usize

primrec fill :: "nat \<Rightarrow> usize \<Rightarrow> byte list \<Rightarrow> nat list \<Rightarrow> (pm, unit) prog" where
  "fill n p d [] = Halt"
| "fill n p d (i # is) = seq (store_object (p + of_nat (i * n)) d) (fill n p d is)"

definition parray_new :: "usize \<Rightarrow> nat \<Rightarrow> byte list \<Rightarrow> usize \<Rightarrow> (pm, PArr option) prog" where
  "parray_new heap n d sz = bind (palloc_array heap (of_nat n) sz) (\<lambda>ptr. case ptr of
     Some p \<Rightarrow> seq (fill n p d [0..<unat sz]) (Return (Some \<lparr>arr_ptr = p, arr_size = sz\<rparr>))
   | None \<Rightarrow> Return None)"

text \<open>The address the reference points to: the index is not compared with the size.\<close>

definition parray_index :: "PArr \<Rightarrow> nat \<Rightarrow> usize \<Rightarrow> usize" where
  "parray_index arr n idx = arr_ptr arr + idx * of_nat n"

text \<open>A shared pointer: the count is written once and never changed, and nothing is freed.\<close>

definition PArc_new :: "usize \<Rightarrow> usize \<Rightarrow> byte list \<Rightarrow> (pm, usize) prog" where
  "PArc_new heap align data = PBox_new heap align (le_bytes 1 @ data)"

definition PArc_clone :: "usize \<Rightarrow> usize" where
  "PArc_clone ptr = ptr"

definition PArc_deref :: "nat \<Rightarrow> usize \<Rightarrow> usize" where
  "PArc_deref off ptr = ptr + of_nat off"

section \<open>Allocations\<close>

text \<open>The allocator itself is not in the area it hands out.\<close>

definition heap_apart :: "usize \<Rightarrow> pm \<Rightarrow> bool" where
  "heap_apart heap s \<longleftrightarrow> (\<forall>x. in_object x heap 12 \<longrightarrow> x \<notin> free_area (bump_at heap s))"

definition untouched :: "usize \<Rightarrow> pm \<Rightarrow> pm \<Rightarrow> bool" where
  "untouched heap s t \<longleftrightarrow> (\<forall>x. x \<notin> free_area (bump_at heap s) \<longrightarrow> \<not> in_object x heap 12 \<longrightarrow> pm_mem t x = pm_mem s x)"

lemma allocated_free:
  assumes "allocated heap p l s t"
  shows "free_area (bump_at heap t) \<subseteq> free_area (bump_at heap s)"
    "x \<in> free_area (bump_at heap t) \<Longrightarrow> \<not> unat (x - p) < unat (l_size l)"
proof -
  have a: "unat (bump_next (bump_at heap t)) = unat p + unat (l_size l)" "bump_next (bump_at heap s) \<le> p"
    "heap_end (bump_at heap t) = heap_end (bump_at heap s)"
    using assms by (simp_all add: allocated_def within_def)
  then show "free_area (bump_at heap t) \<subseteq> free_area (bump_at heap s)"
    by (auto simp: free_area_def word_le_nat_alt)
  assume "x \<in> free_area (bump_at heap t)"
  then have "unat p + unat (l_size l) \<le> unat x" using a(1) by (simp add: free_area_def word_le_nat_alt)
  then show "\<not> unat (x - p) < unat (l_size l)" by (simp add: unat_sub_if')
qed

lemma pm_new_spec:
  assumes "heap_ok (bump_at heap s)" "heap_apart heap s" "layout_ok \<lparr>l_size = of_nat (length obj), l_align = align\<rparr>"
    and "length obj < 2 ^ 31" "j_tail s + 20 \<le> JOURNAL_SIZE"
  shows "\<exists>r t. exec (pm_new_relaxed heap align obj) s = Inr (r, t) \<and> j_tail t = j_tail s + 20 \<and> untouched heap s t \<and>
    (\<forall>p. r = Some p \<longrightarrow> allocated heap p \<lparr>l_size = of_nat (length obj), l_align = align\<rparr> s t \<and> heap_apart heap t \<and>
       read_bytes p (length obj) t = obj) \<and>
    (room (unat align + length obj) (bump_at heap s) \<longrightarrow> (\<exists>p. r = Some p \<and> unat p < unat (bump_next (bump_at heap s)) + unat align))"
proof -
  let ?l = "\<lparr>l_size = of_nat (length obj), l_align = align\<rparr>"
  obtain p t where t: "exec (pm_alloc heap ?l) s = Inr (p, t)" "j_tail t = j_tail s + 20"
      "\<And>x. \<not> in_object x heap 12 \<Longrightarrow> pm_mem t x = pm_mem s x" "p \<noteq> 0 \<Longrightarrow> allocated heap p ?l s t" "p = 0 \<Longrightarrow> pm_mem t = pm_mem s"
      "room (unat (l_align ?l) + unat (l_size ?l)) (bump_at heap s) \<Longrightarrow> p \<noteq> 0 \<and> unat p < unat (bump_next (bump_at heap s)) + unat (l_align ?l)"
    using pm_alloc_spec [OF assms(1,3,5)] by blast
  have len: "unat (of_nat (length obj) :: usize) = length obj" using assms(4) unat_of_nat_small [of "length obj"] by simp
  show ?thesis
  proof (cases "p = 0")
    case True
    then show ?thesis using t len by (auto simp: pm_new_relaxed_def palloc_def exec_bind exec_seq untouched_def)
  next
    case False
    let ?t = "t\<lparr>pm_mem := write_bytes (pm_mem t) p obj\<rparr>"
    have run: "exec (pm_new_relaxed heap align obj) s = Inr (Some p, ?t)"
      using t(1) False by (simp add: pm_new_relaxed_def palloc_def exec_bind exec_seq exec_store_object)
    note al = t(4) [OF False]
    have in_free: "x \<in> free_area (bump_at heap s)" if "unat (x - p) < length obj" for x
      using block_in_free_area [of "bump_at heap s" p ?l x] al that len by (simp add: allocated_def)
    have fr: "pm_mem ?t x = pm_mem t x" if "x \<notin> free_area (bump_at heap s)" for x
      using in_free [of x] that assms(4) by (auto simp: write_bytes_apply)
    have "bump_at heap ?t = bump_at heap t"
    proof (rule bump_at_cong)
      fix i :: nat
      assume "i < 12"
      then have "heap + of_nat i \<notin> free_area (bump_at heap s)" using assms(2) in_header [of i heap] by (simp add: heap_apart_def)
      then show "pm_mem ?t (heap + of_nat i) = pm_mem t (heap + of_nat i)" by (rule fr)
    qed
    then have "allocated heap p ?l s ?t" "heap_apart heap ?t"
      using al allocated_free(1) [OF al] assms(2) by (auto simp: allocated_def heap_apart_def)
    moreover have "untouched heap s ?t" using fr t(3) by (auto simp: untouched_def)
    moreover have "read_bytes p (length obj) ?t = obj" using block_bytes [of obj "pm_mem t" p] assms(4) by (simp add: read_bytes_def)
    ultimately show ?thesis using run t(2) t(6) len by auto
  qed
qed

lemma palloc_array_spec:
  assumes "heap_ok (bump_at heap s)" "heap_apart heap s" "n * unat cap < 2 ^ 31" "j_tail s + 20 \<le> JOURNAL_SIZE"
  shows "\<exists>r t. exec (palloc_array heap (of_nat n) cap) s = Inr (r, t) \<and> j_tail t = j_tail s + 20 \<and> untouched heap s t \<and>
    (\<forall>p. r = Some p \<longrightarrow> allocated heap p \<lparr>l_size = of_nat n * cap, l_align = 1\<rparr> s t \<and> heap_apart heap t) \<and>
    (room (1 + n * unat cap) (bump_at heap s) \<longrightarrow> (\<exists>p. r = Some p \<and> unat p < unat (bump_next (bump_at heap s)) + 1))"
proof -
  let ?l = "\<lparr>l_size = of_nat n * cap, l_align = 1 :: usize\<rparr>"
  have "of_nat n * cap = of_nat (n * unat cap)" by simp
  then have sz: "unat (of_nat n * cap) = n * unat cap" using assms(3) unat_of_nat_small [of "n * unat cap"] by simp
  have "layout_ok ?l" by (auto simp: layout_ok_def intro: exI [of _ 0])
  from pm_alloc_spec [OF assms(1) this assms(4)] obtain p t where t: "exec (pm_alloc heap ?l) s = Inr (p, t)" "j_tail t = j_tail s + 20"
      "\<And>x. \<not> in_object x heap 12 \<Longrightarrow> pm_mem t x = pm_mem s x" "p \<noteq> 0 \<Longrightarrow> allocated heap p ?l s t"
      "room (1 + n * unat cap) (bump_at heap s) \<Longrightarrow> p \<noteq> 0 \<and> unat p < unat (bump_next (bump_at heap s)) + 1"
    by (auto simp: sz)
  have run: "exec (palloc_array heap (of_nat n) cap) s = Inr (if p = 0 then None else Some p, t)"
    using t(1) sz assms(3) by (simp add: palloc_array_def Let_def exec_bind)
  have ap: "heap_apart heap t" if "p \<noteq> 0"
    using allocated_free(1) [OF t(4) [OF that]] assms(2) by (auto simp: heap_apart_def)
  show ?thesis unfolding run using t ap by (auto simp: untouched_def)
qed

text \<open>The boxed header: its bytes are those of the object, apart from every block that was handed out before.\<close>

lemma PBox_new_spec:
  assumes "heap_ok (bump_at heap s)" "heap_apart heap s" "length obj < 2 ^ 31" "j_tail s + 20 \<le> JOURNAL_SIZE"
    and "room (4 + length obj) (bump_at heap s)"
  shows "\<exists>a t. exec (PBox_new heap 4 obj) s = Inr (a, t) \<and> untouched heap s t \<and> heap_apart heap t \<and>
    allocated heap a \<lparr>l_size = of_nat (length obj), l_align = 4\<rparr> s t \<and> read_bytes a (length obj) t = obj"
proof -
  have "layout_ok \<lparr>l_size = of_nat (length obj), l_align = 4\<rparr>" by (auto simp: layout_ok_def intro: exI [of _ 2])
  from pm_new_spec [OF assms(1,2) this assms(3,4)] assms(5) show ?thesis
    by (fastforce simp: PBox_new_def exec_bind)
qed

text \<open>A block and then a box.\<close>

lemma block_then_box:
  assumes "allocated heap p l s t" "heap_apart heap s" "untouched heap s t" "untouched heap t u"
    and "allocated heap a \<lparr>l_size = k, l_align = al\<rparr> t u"
  shows "unat (x - p) < unat (l_size l) \<Longrightarrow> pm_mem u x = pm_mem t x"
    "in_object x a k \<Longrightarrow> \<not> unat (x - p) < unat (l_size l)" "untouched heap s u"
proof -
  note fr = allocated_free [OF assms(1)]
  show "pm_mem u x = pm_mem t x" if x: "unat (x - p) < unat (l_size l)"
  proof -
    have "x \<in> free_area (bump_at heap s)" using block_in_free_area [OF _ x] assms(1) by (simp add: allocated_def)
    then have "\<not> in_object x heap 12" using assms(2) by (auto simp: heap_apart_def)
    moreover have "x \<notin> free_area (bump_at heap t)" using fr(2) x by blast
    ultimately show ?thesis using assms(4) by (simp add: untouched_def)
  qed
  show "\<not> unat (x - p) < unat (l_size l)" if x: "in_object x a k"
  proof (rule fr(2))
    show "x \<in> free_area (bump_at heap t)"
      using block_in_free_area [of "bump_at heap t" a "\<lparr>l_size = k, l_align = al\<rparr>" x] assms(5) x
      by (simp add: allocated_def in_object_def)
  qed
  show "untouched heap s u" using assms(3,4) fr(1) unfolding untouched_def by (metis subsetD)
qed

lemma room_after:
  assumes "allocated heap p l s t" "unat p < unat (bump_next (bump_at heap s)) + k" "room (k + unat (l_size l) + j) (bump_at heap s)"
  shows "room j (bump_at heap t)"
  using assms by (simp add: allocated_def room_def)

section \<open>A new vector holds its elements\<close>

lemma raw_at_bytes: "read_bytes a 12 t = rawpv_bytes v \<Longrightarrow> raw_at a t = v"
proof -
  assume "read_bytes a 12 t = rawpv_bytes v"
  then have "put_raw a v t = t" using write_own_bytes [of "pm_mem t" a 12] by (simp add: put_raw_def read_bytes_def rawpv_bytes_def)
  then show ?thesis using raw_at_put [of a v t] by simp
qed

lemma rawq_at_bytes: "read_bytes a 20 t = rawq_bytes q \<Longrightarrow> rawq_at a t = q"
proof -
  assume "read_bytes a 20 t = rawq_bytes q"
  then have "put_rawq a q t = t" using write_own_bytes [of "pm_mem t" a 20] by (simp add: put_rawq_def read_bytes_def)
  then show ?thesis using rawq_obj.get_put [of a q t] by simp
qed

lemma concat_slot: "\<forall>x\<in>set xs. length x = n \<Longrightarrow> i < length xs \<Longrightarrow> take n (drop (i * n) (concat xs)) = xs ! i"
proof (induction xs arbitrary: i)
  case (Cons y ys)
  then show ?case by (cases i) simp_all
qed simp

lemma length_concat_same: "\<forall>x\<in>set xs. length x = n \<Longrightarrow> length (concat xs) = length xs * n"
  by (induction xs) simp_all

lemma read_part: "i + n \<le> k \<Longrightarrow> read_bytes (p + of_nat i) n t = take n (drop i (read_bytes p k t))"
  by (rule nth_equalityI) (simp_all add: read_bytes_def add.assoc)

text \<open>A vector made from an array holds its elements: with room in the allocator for both blocks, buffer and
  header are allocated, the vector represents the elements, and no byte outside the area that was
  free changes, apart from the allocator itself.\<close>

theorem pvec_new_with_holds:
  assumes "heap_ok (bump_at heap s)" "heap_apart heap s" "layout_ok \<lparr>l_size = of_nat (length xs * n), l_align = align\<rparr>"
    and "0 < n" "\<forall>x\<in>set xs. length x = n" "length xs * n < 2 ^ 31" "j_tail s + 40 \<le> JOURNAL_SIZE"
    and "room (unat align + length xs * n + 16) (bump_at heap s)"
  shows "\<exists>a t. exec (pvec_new_with heap align xs) s = Inr (a, t) \<and> pvec_rep a n t xs \<and>
    heap_ok (bump_at heap t) \<and> untouched heap s t"
proof -
  note len = length_concat_same [OF assms(5)]
  let ?l = "\<lparr>l_size = of_nat (length xs * n), l_align = align\<rparr>"
  have sz: "unat (l_size ?l) = length xs * n" using assms(6) unat_of_nat_small [of "length xs * n"] by simp
  have "room (unat align + length (concat xs)) (bump_at heap s)" using assms(8) by (simp add: room_def len)
  from pm_new_spec [of heap s "concat xs" align] this assms(1-3,6,7) len obtain p t where
    t: "exec (pm_new_relaxed heap align (concat xs)) s = Inr (Some p, t)" "j_tail t = j_tail s + 20" "untouched heap s t"
      "allocated heap p ?l s t" "heap_apart heap t" "read_bytes p (length xs * n) t = concat xs"
      "unat p < unat (bump_next (bump_at heap s)) + unat align" by (auto simp: len)
  let ?v = "\<lparr>v_ptr = p, v_cap = of_nat (length xs), v_len = of_nat (length xs)\<rparr>"
  have b: "length (rawpv_bytes ?v) = 12" by (simp add: rawpv_bytes_def)
  have hp: "heap_ok (bump_at heap t)" using t(4) by (simp add: allocated_def)
  have rm: "room (4 + length (rawpv_bytes ?v)) (bump_at heap t)"
    by (rule room_after [OF t(4,7)]) (use assms(8) sz in \<open>simp add: b add.assoc del: of_nat_mult\<close>)
  obtain a u where u: "exec (PBox_new heap 4 (rawpv_bytes ?v)) t = Inr (a, u)" "untouched heap t u"
      "allocated heap a \<lparr>l_size = 12, l_align = 4\<rparr> t u" "read_bytes a 12 u = rawpv_bytes ?v"
    using PBox_new_spec [OF hp t(5) _ _ rm] t(2) assms(7) b by auto
  note two = block_then_box [OF t(4) assms(2) t(3) u(2,3), unfolded sz]
  have run: "exec (pvec_new_with heap align xs) s = Inr (a, u)"
    using t(1) u(1) by (simp add: pvec_new_with_def rawpv_try_new_def exec_bind)
  note v = raw_at_bytes [OF u(4)]
  have "length xs \<le> length xs * n" using assms(4) by simp
  then have "length xs < 2 ^ 31" using assms(6) by (rule le_less_trans)
  then have "length xs < 2 ^ 32" by simp
  then have cap: "unat (of_nat (length xs) :: usize) = length xs" by (rule unat_of_nat_small)
  have slot: "read_bytes (slot_at ?v n i) n u = xs ! i" if i: "i < length xs" for i
  proof -
    have le: "i * n + n \<le> length xs * n" using mult_le_mono1 [of "Suc i" "length xs" n] i by simp
    have "pm_mem u (p + of_nat k) = pm_mem t (p + of_nat k)" if "k < length xs * n" for k
      by (rule two(1)) (use that assms(6) unat_of_nat_small [of k] in simp)
    then have "read_bytes p (length xs * n) u = read_bytes p (length xs * n) t" unfolding read_bytes_def by (intro map_cong) auto
    then have "read_bytes p (length xs * n) u = concat xs" using t(6) by simp
    then show ?thesis using read_part [OF le, of p u] concat_slot [OF assms(5) i] by simp
  qed
  have "pvec_rep a n u xs" unfolding pvec_rep_def v Let_def
    using assms(4,6) cap slot two(2) by (auto simp: in_buffer_def intro: nth_equalityI)
  moreover have "heap_ok (bump_at heap u)" using u(3) by (simp add: allocated_def)
  ultimately show ?thesis using run two(3) by blast
qed

text \<open>A new queue is empty.\<close>

theorem pq_new_empty:
  assumes "heap_ok (bump_at heap s)" "heap_apart heap s" "0 < n" "0 < cap" "n * unat cap < 2 ^ 31"
    and "j_tail s + 40 \<le> JOURNAL_SIZE" "room (1 + n * unat cap + 24) (bump_at heap s)"
  shows "\<exists>a t. exec (pq_new heap n cap) s = Inr (a, t) \<and> pq_rep a n t [] \<and> q_cap (rawq_at a t) = cap \<and>
    heap_ok (bump_at heap t) \<and> untouched heap s t"
proof -
  let ?l = "\<lparr>l_size = of_nat n * cap, l_align = 1\<rparr>"
  have "of_nat n * cap = of_nat (n * unat cap)" by simp
  then have sz: "unat (l_size ?l) = n * unat cap" using assms(5) unat_of_nat_small [of "n * unat cap"] by simp
  have "room (1 + n * unat cap) (bump_at heap s)" using assms(7) by (simp add: room_def)
  from palloc_array_spec [OF assms(1,2,5)] this assms(6) obtain p t where
    t: "exec (palloc_array heap (of_nat n) cap) s = Inr (Some p, t)" "j_tail t = j_tail s + 20" "untouched heap s t"
      "allocated heap p ?l s t" "heap_apart heap t" "unat p < unat (bump_next (bump_at heap s)) + 1" by auto
  let ?q = "\<lparr>q_ptr = p, q_cap = cap, q_head = 0, q_tail = 0, q_len = 0\<rparr>"
  have hp: "heap_ok (bump_at heap t)" using t(4) by (simp add: allocated_def)
  have rm: "room (4 + length (rawq_bytes ?q)) (bump_at heap t)"
    by (rule room_after [OF t(4,6)]) (use assms(7) sz in \<open>simp add: add.assoc\<close>)
  obtain a u where u: "exec (PBox_new heap 4 (rawq_bytes ?q)) t = Inr (a, u)" "untouched heap t u"
      "allocated heap a \<lparr>l_size = 20, l_align = 4\<rparr> t u" "read_bytes a 20 u = rawq_bytes ?q"
    using PBox_new_spec [OF hp t(5) _ _ rm] t(2) assms(6) by auto
  note two = block_then_box [OF t(4) assms(2) t(3) u(2,3), unfolded sz]
  have run: "exec (pq_new heap n cap) s = Inr (a, u)"
    using t(1) u(1) assms(4) by (simp add: pq_new_def rawpq_try_new_def exec_bind)
  note q = rawq_at_bytes [OF u(4)]
  have "pq_rep a n u []" unfolding pq_rep_def q Let_def
    using assms(3-5) two(2) by (auto simp: pq_header_def ring_index_def in_buffer_def buffer_of_def mult.commute)
  moreover have "heap_ok (bump_at heap u)" using u(3) by (simp add: allocated_def)
  ultimately show ?thesis using run two(3) q by auto
qed

section \<open>Indexing an array\<close>

text \<open>An index is not checked: one that is too large gives a reference to memory behind the array, which safe code
  can write to.\<close>

lemma parray_index_unchecked:
  assumes "arr_size arr \<le> idx" "unat idx * n < 2 ^ 31"
  shows "\<not> unat (parray_index arr n idx - arr_ptr arr) < unat (arr_size arr) * n"
proof -
  have "idx * of_nat n = of_nat (unat idx * n)" by simp
  then have "unat (parray_index arr n idx - arr_ptr arr) = unat idx * n"
    using assms(2) unat_of_nat_small [of "unat idx * n"] by (simp add: parray_index_def)
  then show ?thesis using assms(1) by (simp add: word_le_nat_alt)
qed

theorem pvec_new_with_holds_witness:
  "\<exists>a t. exec (pvec_new_with 100 1 [[7], [8]]) demo_heap = Inr (a, t) \<and> pvec_rep a 1 t [[7], [8]] \<and>
    heap_ok (bump_at 100 t) \<and> untouched 100 demo_heap t"
proof (rule pvec_new_with_holds)
  show "heap_ok (bump_at 100 demo_heap)" by (simp add: demo_heap_at heap_ok_def)
  have "unat x < 112" if "in_object x 100 12" for x
  proof -
    have "unat x = unat (x - 100 + 100)" by simp
    also have "\<dots> = unat (x - 100) + 100" using that by (subst unat_word_ariths(1)) (simp add: in_object_def)
    finally show ?thesis using that by (simp add: in_object_def)
  qed
  then show "heap_apart 100 demo_heap" by (fastforce simp: heap_apart_def demo_heap_at free_area_def word_le_nat_alt)
  show "layout_ok \<lparr>l_size = of_nat (length [[7], [8 :: byte]] * 1), l_align = 1\<rparr>"
    by (auto simp: layout_ok_def intro: exI [of _ 0])
  show "j_tail demo_heap + 40 \<le> JOURNAL_SIZE" using demo_heap_empty by (simp add: is_empty_def JOURNAL_SIZE_def)
  show "room (unat 1 + length [[7], [8 :: byte]] * 1 + 16) (bump_at 100 demo_heap)" by (simp add: demo_heap_at room_def)
qed simp_all

end
