(* ===== verification/NvLoop.thy ===== *)
theory NvLoop
  imports UserTx Heap
begin

text \<open>
  Persistent loops of applications (the macros \<open>nv_loop\<close> and \<open>nv_for_loop\<close> of \<open>src/user/transaction.rs\<close> and the loop counters
  of \<open>src/user/pstatics.rs\<close>), as they are expanded in the default configuration. The body of a loop is an argument. The
  counter is a persistent variable; the position of the task in its transactions is taken back at the end
  of every iteration.
\<close>

section \<open>Loop counters and loops\<close>

abbreviation user_mem :: "user_tx_info \<Rightarrow> usize \<Rightarrow> byte" where
  "user_mem s \<equiv> pm_mem (t_pm (user_tx s))"

definition counter_get :: "usize \<Rightarrow> user_tx_info \<Rightarrow> usize" where
  "counter_get i s = word_at (user_mem s) i"

definition counter_set :: "usize \<Rightarrow> usize \<Rightarrow> (pm, unit) prog" where
  "counter_set i v = writes [\<lambda>m. m\<lparr>pm_mem := write_bytes (pm_mem m) i (le_bytes v)\<rparr>]"

definition counter_inc :: "usize \<Rightarrow> usize \<Rightarrow> (pm, unit) prog" where
  "counter_inc i n = seq (append_log_of i 4) (Read (\<lambda>m. counter_set i (word_at (pm_mem m) i + n)))"

text \<open>One round of the loop: the part of the macro after the test.\<close>

definition nv_round :: "usize \<Rightarrow> usize \<Rightarrow> usize \<Rightarrow> (user_tx_info, unit) prog \<Rightarrow> (user_tx_info, unit) prog" where
  "nv_round i cnt stp bdy = seq enter_idempotent_loop (seq bdy (seq (log_loop_cnt i cnt stp) exit_idempotent_loop))"

primrec nv_rounds :: "nat \<Rightarrow> usize \<Rightarrow> usize \<Rightarrow> usize \<Rightarrow> (user_tx_info, unit) prog \<Rightarrow> (user_tx_info, unit) prog" where
  "nv_rounds 0 i e stp bdy = Fail Diverges"
| "nv_rounds (Suc fuel) i e stp bdy = Read (\<lambda>s. let cnt = counter_get i s in
     if cnt \<ge> e then Halt else seq (nv_round i cnt stp bdy) (nv_rounds fuel i e stp bdy))"

definition nv_for_loop :: "nat \<Rightarrow> usize \<Rightarrow> usize \<Rightarrow> usize \<Rightarrow> usize \<Rightarrow> (user_tx_info, unit) prog \<Rightarrow> (user_tx_info, unit) prog" where
  "nv_for_loop fuel i b e stp bdy = seq (on_user_tx (fast_run_relaxed 0 (seq (counter_set i b) (Return []))))
     (nv_rounds fuel i e stp bdy)"

text \<open>The loop without an end, cut after \<open>n\<close> rounds.\<close>

primrec nv_loop :: "nat \<Rightarrow> (user_tx_info, unit) prog \<Rightarrow> (user_tx_info, unit) prog" where
  "nv_loop 0 bdy = Halt"
| "nv_loop (Suc n) bdy = seq enter_idempotent_loop (seq bdy (seq exit_infinite_idempotent_loop (nv_loop n bdy)))"

text \<open>Idempotent regions: entering one always says that it has to be run.\<close>

definition enter_idempotent :: "user_tx_info \<Rightarrow> bool" where
  "enter_idempotent s = True"

definition exit_idempotent :: "(user_tx_info, unit) prog" where
  "exit_idempotent = Halt"

definition idempotent_run :: "(user_tx_info, unit) prog \<Rightarrow> (user_tx_info, unit) prog" where
  "idempotent_run f = Read (\<lambda>s. if \<not> enter_idempotent s then Halt else seq f exit_idempotent)"

section \<open>A round\<close>

text \<open>The contract of a body: with room for the loops it contains it comes to its end, and leaves the stack and the counter.\<close>

definition keeps_loop :: "usize \<Rightarrow> user_tx_info \<Rightarrow> user_tx_info \<Rightarrow> bool" where
  "keeps_loop i s t \<longleftrightarrow> stack_top t = stack_top s \<and> tail_stack t = tail_stack s \<and> counter_get i t = counter_get i s"

definition loop_body :: "usize \<Rightarrow> nat \<Rightarrow> (user_tx_info, unit) prog \<Rightarrow> bool" where
  "loop_body i depth bdy \<longleftrightarrow> (\<forall>s. unat (stack_top s) + depth \<le> DEFAULT_STACK_DEPTH \<longrightarrow> length (tail_stack s) = DEFAULT_STACK_DEPTH \<longrightarrow>
     (\<exists>t. exec bdy s = Inr ((), t) \<and> keeps_loop i s t))"

lemma counter_put: "user_tx s = put_usize i w u \<Longrightarrow> counter_get i s = w"
  using word_at_le_bytes [of 0 "le_bytes w" w "pm_mem (t_pm u)" i]
  by (simp add: counter_get_def put_usize_def le_bytes_def)

lemma round_spec:
  assumes "loop_body i d bdy" "unat (stack_top s) + Suc d \<le> DEFAULT_STACK_DEPTH" "length (tail_stack s) = DEFAULT_STACK_DEPTH"
  shows "\<exists>t. exec (nv_round i cnt stp bdy) s = Inr ((), t) \<and> stack_top t = stack_top s \<and>
    length (tail_stack t) = DEFAULT_STACK_DEPTH \<and> counter_get i t = cnt + stp"
proof -
  let ?top = "unat (stack_top s)" and ?w = "ucast (c_ptr (t_cache (user_tx s)) OR TX_COMMITTED) :: 16 word"
  let ?s1 = "s\<lparr>tail_stack := (tail_stack s)[?top := ?w], stack_top := stack_top s + 1\<rparr>"
  have top: "?top < length (tail_stack s)" using assms(2,3) by simp
  have e: "exec enter_idempotent_loop s = Inr ((), ?s1)" using top by (simp add: enter_idempotent_loop_def Let_def)
  have t1: "unat (stack_top s + 1) = Suc ?top"
    using assms(2) by (simp add: DEFAULT_STACK_DEPTH_def unat_word_ariths)
  from assms(1) [unfolded loop_body_def, rule_format, of ?s1] assms(2,3) t1
  obtain s2 where s2: "exec bdy ?s1 = Inr ((), s2)" "stack_top s2 = stack_top s + 1" "tail_stack s2 = (tail_stack s)[?top := ?w]"
    by (auto simp: keeps_loop_def)
  let ?s3 = "s2\<lparr>loop_cnt_ptr := Some i, loop_cnt_log := cnt, loop_step := stp\<rparr>"
  have l: "exec (log_loop_cnt i cnt stp) s2 = Inr ((), ?s3)" by (simp add: log_loop_cnt_def)
  have "old_tx_tail ?s3 = Some (ucast ?w)" using t1 top s2(2,3) by (simp add: old_tx_tail_def Let_def)
  from exec_exit [OF this, of i] obtain u where
    x: "exec exit_idempotent_loop ?s3 = Inr ((), ?s3\<lparr>user_tx := put_usize i (cnt + stp) u, stack_top := stack_top ?s3 - 1\<rparr>)" by auto
  have run: "exec (nv_round i cnt stp bdy) s = Inr ((), ?s3\<lparr>user_tx := put_usize i (cnt + stp) u, stack_top := stack_top ?s3 - 1\<rparr>)"
    using e s2(1) l x by (simp add: nv_round_def exec_seq)
  have "counter_get i (?s3\<lparr>user_tx := put_usize i (cnt + stp) u, stack_top := stack_top ?s3 - 1\<rparr>) = cnt + stp"
    by (rule counter_put [where u = u]) simp
  then show ?thesis using run s2(2,3) assms(3) by auto
qed

section \<open>The loop ends\<close>

text \<open>The number of rounds from counter \<open>c\<close> to \<open>e\<close> in steps of \<open>k\<close>.\<close>

definition rounds_left :: "nat \<Rightarrow> nat \<Rightarrow> nat \<Rightarrow> nat" where
  "rounds_left c e k = (e - c + k - 1) div k"

lemma rounds_left_step:
  assumes "0 < k" "c < e"
  shows "rounds_left c e k = Suc (rounds_left (c + k) e k)"
proof (cases "c + k \<le> e")
  case True
  then have "e - c + k - 1 = (e - (c + k) + k - 1) + k" using assms by simp
  then show ?thesis unfolding rounds_left_def by (subst \<open>e - c + k - 1 = _\<close>, subst div_add_self2) (use assms(1) in simp_all)
next
  case False
  have "(e - c + k - 1) div k = 1" using False assms by (intro div_nat_eqI) auto
  moreover have "(e - (c + k) + k - 1) div k = 0" using False assms by simp
  ultimately show ?thesis by (simp add: rounds_left_def)
qed

lemma rounds_left_0: "0 < k \<Longrightarrow> e \<le> c \<Longrightarrow> rounds_left c e k = 0"
  by (simp add: rounds_left_def)

lemma rounds_end:
  assumes "loop_body i d bdy" "unat (stack_top s) + Suc d \<le> DEFAULT_STACK_DEPTH" "length (tail_stack s) = DEFAULT_STACK_DEPTH"
    and "0 < unat stp" "unat e + unat stp \<le> 2 ^ 32" "n = rounds_left (unat (counter_get i s)) (unat e) (unat stp)"
  shows "(\<exists>t. exec (nv_rounds (Suc n) i e stp bdy) s = Inr ((), t) \<and> e \<le> counter_get i t \<and> stack_top t = stack_top s \<and>
      unat (counter_get i t) = unat (counter_get i s) + n * unat stp) \<and>
    exec (nv_rounds n i e stp bdy) s = Inl Diverges"
  using assms(2,3,6)
proof (induction n arbitrary: s)
  case 0
  then have "\<not> unat (counter_get i s) < unat e" using rounds_left_step [OF assms(4), of "unat (counter_get i s)" "unat e"] by auto
  then show ?case by (simp add: word_le_nat_alt Let_def)
next
  case (Suc n)
  let ?c = "counter_get i s"
  have lt: "unat ?c < unat e" using rounds_left_0 [OF assms(4), of "unat e" "unat ?c"] Suc.prems(3) by (metis nat.distinct(1) not_le_imp_less)
  then have n: "n = rounds_left (unat ?c + unat stp) (unat e) (unat stp)" using rounds_left_step [OF assms(4) lt] Suc.prems(3) by simp
  have add: "unat (?c + stp) = unat ?c + unat stp" using lt assms(5) by (simp add: unat_word_ariths)
  obtain t where t: "exec (nv_round i ?c stp bdy) s = Inr ((), t)" "stack_top t = stack_top s"
      "length (tail_stack t) = DEFAULT_STACK_DEPTH" "counter_get i t = ?c + stp"
    using round_spec [OF assms(1) Suc.prems(1,2)] by blast
  have ne: "\<not> e \<le> ?c" using lt by (simp add: word_le_nat_alt)
  have step: "exec (nv_rounds (Suc f) i e stp bdy) s = exec (nv_rounds f i e stp bdy) t" for f
    using t(1) ne by (simp add: exec_seq Let_def)
  from Suc.IH [of t] t(2-4) add n Suc.prems(1) show ?case unfolding step by (auto simp del: nv_rounds.simps)
qed

text \<open>The initial assignment is a transaction of its own: when the task has committed it before a power failure, it is skipped.\<close>

definition replaying :: "user_tx_info \<Rightarrow> bool" where
  "replaying s \<longleftrightarrow> tx_id (c_ptr (t_cache (user_tx s))) < tx_id (c_tail (t_cache (user_tx s)))"

lemma nv_init:
  "\<exists>t. exec (on_user_tx (fast_run_relaxed 0 (seq (counter_set i b) (Return [])))) s = Inr ([], t) \<and>
    stack_top t = stack_top s \<and> tail_stack t = tail_stack s \<and>
    counter_get i t = (if replaying s then counter_get i s else b)"
proof (cases "replaying s")
  case True
  then show ?thesis
    by (simp add: fast_run_relaxed_def run_or_replay_def replaying_def try_retrieve_result_def exec_bind user_lift counter_get_def)
next
  case False
  have "word_at (write_bytes m i (le_bytes b)) i = b" for m
    using word_at_le_bytes [of 0 "le_bytes b" b m i] by simp
  then show ?thesis using False
    by (simp add: fast_run_relaxed_def run_or_replay_def replaying_def try_retrieve_result_def exec_bind exec_seq user_lift
        counter_get_def fast_run_def begin_tx_def counter_set_def cache_result_def commit_no_ret_value_def)
qed


text \<open>With a step of 0 the loop does not end, whatever the fuel.\<close>

theorem nv_for_loop_step_0:
  assumes "loop_body i d bdy" "unat (stack_top s) + Suc d \<le> DEFAULT_STACK_DEPTH" "length (tail_stack s) = DEFAULT_STACK_DEPTH"
    and "counter_get i s < e"
  shows "exec (nv_rounds fuel i e 0 bdy) s = Inl Diverges"
  using assms(2-4)
proof (induction fuel arbitrary: s)
  case (Suc f)
  obtain t where t: "exec (nv_round i (counter_get i s) 0 bdy) s = Inr ((), t)" "stack_top t = stack_top s"
      "length (tail_stack t) = DEFAULT_STACK_DEPTH" "counter_get i t = counter_get i s"
    using round_spec [OF assms(1) Suc.prems(1,2), of "counter_get i s" 0] by auto
  then show ?case using Suc.IH [of t] Suc.prems by (simp add: exec_seq Let_def not_le)
qed simp

text \<open>A body whose transaction number is taken back can be repeated for ever.\<close>

lemma nv_loop_runs:
  assumes "loop_body i d bdy" "unat (stack_top s) + Suc d \<le> DEFAULT_STACK_DEPTH" "length (tail_stack s) = DEFAULT_STACK_DEPTH"
  shows "\<exists>t. exec (nv_loop n bdy) s = Inr ((), t) \<and> stack_top t = stack_top s"
  using assms(2,3)
proof (induction n arbitrary: s)
  case (Suc n)
  let ?top = "unat (stack_top s)" and ?w = "ucast (c_ptr (t_cache (user_tx s)) OR TX_COMMITTED) :: 16 word"
  let ?s1 = "s\<lparr>tail_stack := (tail_stack s)[?top := ?w], stack_top := stack_top s + 1\<rparr>"
  have top: "?top < length (tail_stack s)" using Suc.prems by simp
  have e: "exec enter_idempotent_loop s = Inr ((), ?s1)" using top by (simp add: enter_idempotent_loop_def Let_def)
  have t1: "unat (stack_top s + 1) = Suc ?top"
    using Suc.prems(1) by (simp add: DEFAULT_STACK_DEPTH_def unat_word_ariths)
  from assms(1) [unfolded loop_body_def, rule_format, of ?s1] Suc.prems t1
  obtain s2 where s2: "exec bdy ?s1 = Inr ((), s2)" "stack_top s2 = stack_top s + 1" "tail_stack s2 = (tail_stack s)[?top := ?w]"
    by (auto simp: keeps_loop_def)
  have "old_tx_tail s2 = Some (ucast ?w)" using t1 top s2(2,3) by (simp add: old_tx_tail_def Let_def)
  from exec_exit_infinite [OF this] obtain s3 where "exec exit_infinite_idempotent_loop s2 = Inr ((), s3)"
      "stack_top s3 = stack_top s" "length (tail_stack s3) = DEFAULT_STACK_DEPTH"
    using s2(2,3) Suc.prems(2) by auto
  then show ?case using Suc.IH [of s3] Suc.prems(1) e s2(1) by (auto simp: exec_seq)
qed simp

text \<open>A body that stores its round number elsewhere.\<close>

definition demo_body :: "(user_tx_info, unit) prog" where
  "demo_body = Read (\<lambda>s. on_user_tx (writes [put_usize 400 (counter_get 300 s)]))"

lemma demo_body_ok: "loop_body 300 0 demo_body"
proof -
  have "word_at (write_bytes m 400 (le_bytes w)) 300 = word_at m 300" for m w
  proof (rule word_at_frame)
    fix k :: nat
    assume "k < 4"
    then have "k = 0 \<or> k = 1 \<or> k = 2 \<or> k = 3" by linarith
    then show "\<not> unat (300 + of_nat k - 400 :: usize) < length (le_bytes w)" by auto
  qed simp
  then show ?thesis
    by (simp add: loop_body_def demo_body_def keeps_loop_def counter_get_def user_lift put_usize_def le_bytes_def)
qed


end
