(* ===== verification/Timer.thy ===== *)
theory Timer
  imports ListTxCrash Syscall
begin

text \<open>
  Software timers (\<open>src/time.rs\<close>, and their part of \<open>src/list.rs\<close> and \<open>src/recover.rs\<close>): the active
  list, sorted by expiry time, with a log of its own; the list transactions on it with their
  recoveries; and the daemon task that runs expired timers and carries out commands. The callbacks of
  the timers are programs on the daemon's journalled memory.
\<close>

section \<open>Timers and the active list\<close>

datatype TimerListItem = TimerListItem (item_timer: "addr option") (expiry_time: time)

definition timer_gt :: "TimerListItem \<Rightarrow> TimerListItem \<Rightarrow> bool" where
  "timer_gt a b \<longleftrightarrow> expiry_time a > expiry_time b"

record Timer =
  period_ticks :: time
  callback :: "(pm, unit) prog"
  call_back_is_closure :: bool
  active :: bool
  auto_reload :: bool

datatype TimerCmd = InvalidCmd | Start | Stop | Reset | Delete | SetPeriod

record TimerMessage =
  msg_cmd :: TimerCmd
  msg_timer :: "addr option"
  msg_opaque :: time

datatype TimerErr = NoTimerDaemon | CmdQueueBusy

text \<open>The active list and the log of its transactions. Its address is 0; a timer's node has the timer's
  address.\<close>

record alist =
  al_mem :: "TimerListItem lmem"
  al_op :: ListTxOpCode
  al_node :: "addr option"

definition ACTIVE_LIST :: addr where
  "ACTIVE_LIST = 0"

definition on_al :: "(TimerListItem lmem, 'a) prog \<Rightarrow> (alist, 'a) prog" where
  "on_al p = lift al_mem (\<lambda>m s. s\<lparr>al_mem := m\<rparr>) p"

definition al_insert :: "addr \<Rightarrow> (TimerListItem lmem, unit) prog" where
  "al_insert n = sorted_insert InsertSortedDelayList timer_gt ACTIVE_LIST n"

definition commit_activelist :: "(alist, unit) prog" where
  "commit_activelist = writes [\<lambda>s. s\<lparr>al_op := ActiveListTxCommitted\<rparr>, \<lambda>s. s\<lparr>al_mem := (al_mem s)\<lparr>lmicro := 0\<rparr>\<rparr>]"

definition invalidate_activelist :: "(alist, unit) prog" where
  "invalidate_activelist = writes [\<lambda>s. s\<lparr>al_op := InvalidTx\<rparr>]"

definition invalidate_timer_log :: "(alist, unit) prog" where
  "invalidate_timer_log = writes [\<lambda>s. s\<lparr>al_mem := (al_mem s)\<lparr>lmicro := 0\<rparr>\<rparr>, \<lambda>s. s\<lparr>al_op := InvalidTx\<rparr>]"

definition al_log_entry :: "(ListOpCode \<Rightarrow> usize \<Rightarrow> (alist, 'a) prog) \<Rightarrow> (alist, 'a) prog" where
  "al_log_entry f = Read (\<lambda>s. case get_micro_op (lmicro (al_mem s)) of
     None \<Rightarrow> Fail Undefined | Some c \<Rightarrow> f c (get_old_len (lmicro (al_mem s))))"

section \<open>The list transactions\<close>

definition atomic_roll_forward_remove_reinsert_into_activelist :: "addr \<Rightarrow> (alist, unit) prog" where
  "atomic_roll_forward_remove_reinsert_into_activelist n =
     Write (\<lambda>s. s\<lparr>al_node := Some n\<rparr>) (Write (\<lambda>s. s\<lparr>al_op := ActiveListRemoveReInsert\<rparr>)
       (seq (on_al (optimized_remove ACTIVE_LIST n)) (seq (on_al (al_insert n)) commit_activelist)))"

definition recover_and_roll_forward_of_activelist_remove_reinsert :: "(alist, bool) prog" where
  "recover_and_roll_forward_of_activelist_remove_reinsert = al_log_entry (\<lambda>opc old_len.
     Read (\<lambda>s. unwrap_unchecked (al_node s) (\<lambda>n. case opc of
         RemoveOp \<Rightarrow> seq (if lowner (al_mem s) n \<noteq> None then on_al (recover_from_failed_remove ACTIVE_LIST n old_len) else Halt)
           (seq (on_al (al_insert n)) (seq commit_activelist (Return True)))
       | InsertSortedDelayList \<Rightarrow> seq (on_al (recover_from_failed_insert_sorted timer_gt ACTIVE_LIST n old_len))
           (seq commit_activelist (Return True))
       | InvalidOp \<Rightarrow> Return False
       | _ \<Rightarrow> Fail Panic)))"

definition atomic_roll_forward_pop_reinsert_into_activelist :: "(alist, unit) prog" where
  "atomic_roll_forward_pop_reinsert_into_activelist =
     Write (\<lambda>s. s\<lparr>al_node := lhead (al_mem s) ACTIVE_LIST\<rparr>) (Write (\<lambda>s. s\<lparr>al_op := ActiveListPopReInsert\<rparr>)
       (bind (on_al (optimized_pop_front ACTIVE_LIST)) (\<lambda>popped.
         seq (case popped of Some n \<Rightarrow> on_al (al_insert n) | None \<Rightarrow> Halt) commit_activelist)))"

definition recover_and_roll_forward_of_activelist_pop_reinsert :: "(alist, bool) prog" where
  "recover_and_roll_forward_of_activelist_pop_reinsert = al_log_entry (\<lambda>opc old_len.
     Read (\<lambda>s. unwrap_unchecked (al_node s) (\<lambda>n. case opc of
         PopFront \<Rightarrow> seq (case lowner (al_mem s) n of None \<Rightarrow> Halt
             | Some l \<Rightarrow> on_al (recover_from_failed_pop_front l n old_len))
           (seq (on_al (al_insert n)) (seq commit_activelist (Return True)))
       | InsertSortedDelayList \<Rightarrow> seq (on_al (recover_from_failed_insert_sorted timer_gt ACTIVE_LIST n old_len))
           (seq commit_activelist (Return True))
       | InvalidOp \<Rightarrow> Return False
       | _ \<Rightarrow> Fail Panic)))"

definition atomic_roll_forward_remove_from_activelist :: "addr \<Rightarrow> (alist, unit) prog" where
  "atomic_roll_forward_remove_from_activelist n =
     Write (\<lambda>s. s\<lparr>al_node := Some n\<rparr>) (Write (\<lambda>s. s\<lparr>al_op := ActiveListRemove\<rparr>)
       (seq (on_al (optimized_remove ACTIVE_LIST n)) commit_activelist))"

definition recover_and_roll_forward_of_activelist_remove :: "(alist, bool) prog" where
  "recover_and_roll_forward_of_activelist_remove = al_log_entry (\<lambda>opc old_len.
     Read (\<lambda>s. unwrap_unchecked (al_node s) (\<lambda>n. case opc of
         RemoveOp \<Rightarrow> seq (on_al (recover_from_failed_remove ACTIVE_LIST n old_len)) (seq commit_activelist (Return True))
       | InvalidOp \<Rightarrow> Return False
       | _ \<Rightarrow> Fail Panic)))"

text \<open>The part of the reboot that finishes the open transaction; the result says whether there was one to
  finish or to confirm.\<close>

definition recover_activelist :: "(alist, bool) prog" where
  "recover_activelist = Read (\<lambda>s. case al_op s of
       InvalidTx \<Rightarrow> Return False
     | ActiveListTxCommitted \<Rightarrow> Return True
     | ActiveListRemove \<Rightarrow> recover_and_roll_forward_of_activelist_remove
     | ActiveListPopReInsert \<Rightarrow> recover_and_roll_forward_of_activelist_pop_reinsert
     | ActiveListRemoveReInsert \<Rightarrow> recover_and_roll_forward_of_activelist_remove_reinsert
     | _ \<Rightarrow> Fail Panic)"

section \<open>The daemon\<close>

record daemon =
  d_al :: alist
  d_timers :: "addr \<Rightarrow> Timer"
  d_task :: ptask
  d_ticks :: time
  next_expiry_time :: time
  timer_daemon_created :: bool

definition on_dal :: "(alist, 'a) prog \<Rightarrow> (daemon, 'a) prog" where
  "on_dal p = lift d_al (\<lambda>x s. s\<lparr>d_al := x\<rparr>) p"

definition on_dtask :: "(ptask, 'a) prog \<Rightarrow> (daemon, 'a) prog" where
  "on_dtask p = lift d_task (\<lambda>x s. s\<lparr>d_task := x\<rparr>) p"

definition recover_timer_daemon_list_transaction :: "(daemon, unit) prog" where
  "recover_timer_daemon_list_transaction = Read (\<lambda>s. if \<not> timer_daemon_created s then Halt
     else bind (on_dtask (on_utx (on_user_tx check_committed))) (\<lambda>committed.
       bind (if \<not> committed then
           bind (on_dal recover_activelist) (\<lambda>ok. if \<not> ok then Return False
             else seq (on_dtask (on_utx (on_user_tx commit_no_replay_roll_forward))) (Return True))
         else Return True)
       (\<lambda>go. if go then seq (on_dtask user_tx_end) (on_dal invalidate_activelist) else Halt)))"

definition set_timer :: "addr \<Rightarrow> (Timer \<Rightarrow> Timer) \<Rightarrow> daemon \<Rightarrow> daemon" where
  "set_timer t f s = s\<lparr>d_timers := (d_timers s)(t := f (d_timers s t))\<rparr>"

definition set_expiry_time :: "addr \<Rightarrow> time \<Rightarrow> daemon \<Rightarrow> daemon" where
  "set_expiry_time n x s = s\<lparr>d_al := (d_al s)\<lparr>al_mem := (al_mem (d_al s))\<lparr>lvalue :=
     (lvalue (al_mem (d_al s)))(n := TimerListItem (item_timer (lvalue (al_mem (d_al s)) n)) x)\<rparr>\<rparr>\<rparr>"

definition activate_timer :: "addr \<Rightarrow> time \<Rightarrow> (daemon, unit) prog" where
  "activate_timer t x = writes [set_timer t (\<lambda>r. r\<lparr>active := True\<rparr>), set_expiry_time t x]"

definition time_checked_add :: "time \<Rightarrow> time \<Rightarrow> (time \<Rightarrow> (daemon, 'a) prog) \<Rightarrow> (daemon, 'a) prog" where
  "time_checked_add a b f = (if unat a + unat b < 2 ^ 32 then f (a + b) else Fail Panic)"

definition deactivate_and_remove :: "addr \<Rightarrow> (daemon, unit) prog" where
  "deactivate_and_remove t = Write (set_timer t (\<lambda>r. r\<lparr>active := False\<rparr>)) (on_dal (atomic_roll_forward_remove_from_activelist t))"

text \<open>Carrying out one command, inside the transaction that took it from the queue.\<close>

definition run_timer_cmd :: "TimerMessage \<Rightarrow> (daemon, unit) prog" where
  "run_timer_cmd msg = (case msg_timer msg of None \<Rightarrow> Halt | Some t \<Rightarrow> (case msg_cmd msg of
       Start \<Rightarrow> Read (\<lambda>s. time_checked_add (msg_opaque msg) (period_ticks (d_timers s t)) (\<lambda>x.
         seq (activate_timer t x) (on_dal (atomic_roll_forward_remove_reinsert_into_activelist t))))
     | Reset \<Rightarrow> Read (\<lambda>s. time_checked_add (msg_opaque msg) (period_ticks (d_timers s t)) (\<lambda>x.
         seq (activate_timer t x) (on_dal (atomic_roll_forward_remove_reinsert_into_activelist t))))
     | Stop \<Rightarrow> deactivate_and_remove t
     | Delete \<Rightarrow> deactivate_and_remove t
     | SetPeriod \<Rightarrow> if msg_opaque msg = 0 then Halt
         else Write (set_timer t (\<lambda>r. r\<lparr>period_ticks := msg_opaque msg\<rparr>))
           (Read (\<lambda>s. time_checked_add (d_ticks s) (msg_opaque msg) (\<lambda>x.
             seq (activate_timer t x) (on_dal (atomic_roll_forward_remove_reinsert_into_activelist t)))))
     | InvalidCmd \<Rightarrow> Halt))"

text \<open>The daemon's transaction around a body (\<open>user_tx::run_once\<close>).\<close>

definition daemon_tx :: "(daemon, 'a) prog \<Rightarrow> (daemon, 'a) prog" where
  "daemon_tx f = seq (on_dtask (on_utx (on_user_tx begin_tx))) (bind f (\<lambda>r.
     seq (on_dtask (on_utx (on_user_tx commit_no_replay_tx))) (Return r)))"

text \<open>Running the timer at the front of the active list when its time has come. Otherwise the daemon
  blocks on its command queue until then, or for good when no timer is active.\<close>

datatype daemon_step = Ran | BlockFor time | BlockForever | GoOn

definition expire_body :: "addr option \<Rightarrow> (daemon, unit) prog" where
  "expire_body timer = (case timer of None \<Rightarrow> Fail Panic | Some t \<Rightarrow> Read (\<lambda>s. let r = d_timers s t in
     seq (if call_back_is_closure r then Halt else on_dtask (on_utx (on_user_tx (on_pm (callback r)))))
       (if auto_reload r then Read (\<lambda>s. time_checked_add (d_ticks s) (period_ticks r) (\<lambda>x.
          seq (activate_timer t x) (on_dal atomic_roll_forward_pop_reinsert_into_activelist)))
        else deactivate_and_remove t)))"

definition process_expired_timer :: "(daemon, daemon_step) prog" where
  "process_expired_timer = seq (on_dal invalidate_timer_log) (Read (\<lambda>s.
     case peek_front ACTIVE_LIST (al_mem (d_al s)) of
       None \<Rightarrow> Return BlockForever
     | Some i \<Rightarrow> Write (\<lambda>s. s\<lparr>next_expiry_time := expiry_time i\<rparr>)
         (if d_ticks s \<ge> expiry_time i then
            seq (daemon_tx (expire_body (item_timer i))) (Return Ran)
          else Return (if expiry_time i > d_ticks s then BlockFor (expiry_time i - d_ticks s) else GoOn))))"

interpretation al_lens: lens al_mem "\<lambda>m s. s\<lparr>al_mem := m\<rparr>"
  by unfold_locales simp_all

interpretation dal_lens: lens d_al "\<lambda>x s. s\<lparr>d_al := x\<rparr>"
  by unfold_locales simp_all

interpretation dtask_lens: lens d_task "\<lambda>x s. s\<lparr>d_task := x\<rparr>"
  by unfold_locales simp_all

lemmas daemon_lift = on_al_def on_dal_def on_dtask_def al_lens.exec_lift al_lens.states_lift dal_lens.exec_lift
  dal_lens.states_lift dtask_lens.exec_lift dtask_lens.states_lift

section \<open>Reloading a timer survives power failures\<close>

lemma pop_states_owner:
  assumes "lhead m l = Some x" "lnext m x = q" "q \<noteq> Some x" "lowner m x = Some l"
  shows "\<forall>t\<in>set (pop_states l m). lowner t x = Some l \<or> (lowner t x = None \<and> t = final (optimized_pop_front l) m)"
  using assms
  by (cases q; cases "lcursor m l = Some x") (simp_all add: op_states)

lemma llen_small: "linear m l xs \<Longrightarrow> llen m l < 4096"
  by (simp add: linear_def word_less_nat_alt unat_of_nat take_bit_nat_eq_self)

text \<open>The list is \<open>x # xs\<close> and \<open>x\<close> is the timer to reload: the memory after taking it out, and after putting
  it back.\<close>

abbreviation popped :: "TimerListItem lmem \<Rightarrow> TimerListItem lmem" where
  "popped m \<equiv> final (optimized_pop_front 0) m"

abbreviation reinserted :: "addr \<Rightarrow> TimerListItem lmem \<Rightarrow> TimerListItem lmem" where
  "reinserted x m \<equiv> final (al_insert x) (popped m)"

abbreviation insert_states :: "addr \<Rightarrow> TimerListItem lmem \<Rightarrow> TimerListItem lmem list" where
  "insert_states x m \<equiv> sorted_states InsertSortedDelayList timer_gt 0 x (popped m)"

lemma reload_facts:
  assumes "linear m 0 (x # xs)"
  shows "exec (optimized_pop_front 0) m = Inr (Some x, popped m)" "linear (popped m) 0 xs" "lowner (popped m) x = None"
    "exec (al_insert x) (popped m) = Inr ((), reinserted x m)"
    "linear (reinserted x m) 0 (insert_at (\<lambda>a. timer_gt (lvalue m x) (lvalue m a)) x xs)"
    "only_list 0 m (reinserted x m)"
proof -
  obtain m1 where m1: "exec (optimized_pop_front 0) m = Inr (Some x, m1)" "linear m1 0 xs" "lowner m1 x = None" "only_list 0 m m1"
    using optimized_pop_front_linear [OF assms] by blast
  have p: "popped m = m1" using m1(1) by (rule exec_final)
  then show "exec (optimized_pop_front 0) m = Inr (Some x, popped m)" "linear (popped m) 0 xs" "lowner (popped m) x = None"
    using m1 by simp_all
  let ?m0 = "start_op_log InsertSortedDelayList 0 m1"
  have "linear ?m0 0 xs" "lowner ?m0 x = None" using m1 by (simp_all add: linear_def start_op_log_def)
  moreover have "length xs < 4095" using assms by (simp add: linear_def)
  ultimately obtain m2 where m2: "exec (optimized_insert_sorted timer_gt 0 x) ?m0 = Inr ((), m2)"
      "linear m2 0 (insert_at (\<lambda>a. timer_gt (lvalue ?m0 x) (lvalue ?m0 a)) x xs)" "only_list 0 ?m0 m2"
    using optimized_insert_sorted_linear [of ?m0 0 xs x timer_gt] by blast
  have e: "exec (al_insert x) m1 = Inr ((), m2)" using m2(1) by (simp add: al_insert_def sorted_insert_def ACTIVE_LIST_def)
  then have r: "reinserted x m = m2" unfolding p by (rule exec_final)
  show "exec (al_insert x) (popped m) = Inr ((), reinserted x m)" using e p r by simp
  have v: "lvalue ?m0 = lvalue m" using m1(4) by (simp add: only_list_def start_op_log_def)
  show "linear (reinserted x m) 0 (insert_at (\<lambda>a. timer_gt (lvalue m x) (lvalue m a)) x xs)" using m2(2) r v by simp
  show "only_list 0 m (reinserted x m)" using m2(3) m1(4) r by (auto simp: only_list_def start_op_log_def)
qed

text \<open>The memory contents the transaction and its recovery go through.\<close>

definition reload_states :: "addr \<Rightarrow> TimerListItem lmem \<Rightarrow> alist list" where
  "reload_states x m = map (\<lambda>y. \<lparr>al_mem = y, al_op = ActiveListPopReInsert, al_node = Some x\<rparr>) (pop_states 0 m @ insert_states x m) @
     [\<lparr>al_mem = reinserted x m, al_op = ActiveListTxCommitted, al_node = Some x\<rparr>,
      \<lparr>al_mem = (reinserted x m)\<lparr>lmicro := 0\<rparr>, al_op = ActiveListTxCommitted, al_node = Some x\<rparr>]"

abbreviation reload_open :: "addr \<Rightarrow> TimerListItem lmem \<Rightarrow> alist" where
  "reload_open x y \<equiv> \<lparr>al_mem = y, al_op = ActiveListPopReInsert, al_node = Some x\<rparr>"

lemma reload_in_states:
  "y \<in> set (pop_states 0 m) \<Longrightarrow> reload_open x y \<in> set (reload_states x m)"
  "y \<in> set (insert_states x m) \<Longrightarrow> reload_open x y \<in> set (reload_states x m)"
  by (simp_all add: reload_states_def del: One_nat_def)

lemma recovers_on_al:
  assumes "recovers p m' ms y" "\<And>z. z \<in> set ms \<Longrightarrow> s\<lparr>al_mem := z\<rparr> \<in> set ss"
  shows "recovers (on_al p) (s\<lparr>al_mem := m'\<rparr>) ss (s\<lparr>al_mem := y\<rparr>)"
  using assms by (auto simp: recovers_def daemon_lift)

lemma al_log_entry_recovers:
  assumes "lmicro (al_mem s) = micro_op_old_len c old" "old < 4096" "recovers (f c old) s' ss s"
  shows "recovers (al_log_entry f) s' ss s"
  using assms micro_log_roundtrip [OF assms(2), of c] by (simp add: al_log_entry_def recovers_Read)

abbreviation reload_done :: "addr \<Rightarrow> TimerListItem lmem \<Rightarrow> alist" where
  "reload_done x m \<equiv> \<lparr>al_mem = (reinserted x m)\<lparr>lmicro := 0\<rparr>, al_op = ActiveListTxCommitted, al_node = Some x\<rparr>"

lemma final_in: "lhead m 0 \<noteq> None \<Longrightarrow> popped m \<in> set (pop_states 0 m)"
  by (rule last_in_drop_states) (auto simp: optimized_pop_front_def prog_simps)

lemma reinserted_in: "reinserted x m \<in> set (insert_states x m)"
  unfolding al_insert_def ACTIVE_LIST_def
  by (rule last_in_drop_states) (simp add: sorted_insert_def prog_simps)

lemma reload_commit:
  "recovers (seq commit_activelist (Return b)) (reload_done x m) (reload_states x m) (reload_open x (reinserted x m))"
  using reload_in_states(2) [OF reinserted_in]
  by (simp add: recovers_def commit_activelist_def seq_simps) (simp add: reload_states_def)

lemma reload_insert:
  assumes "linear m 0 (x # xs)"
  shows "recovers (seq (on_al (al_insert x)) (seq commit_activelist (Return b))) (reload_done x m) (reload_states x m)
    (reload_open x (popped m))"
proof (rule recovers_seq [OF _ reload_commit])
  have "set (states (al_insert x) (popped m)) = insert (popped m) (set (insert_states x m))"
    by (simp add: al_insert_def sorted_insert_def ACTIVE_LIST_def prog_simps)
  moreover have "lhead m 0 \<noteq> None" using assms by (simp add: linear_def)
  ultimately have ins: "recovers (al_insert x) (reinserted x m) (pop_states 0 m @ insert_states x m) (popped m)"
    using reload_facts(4) [OF assms] final_in [of m] by (auto simp: recovers_def simp del: One_nat_def)
  have "z \<in> set (pop_states 0 m @ insert_states x m) \<Longrightarrow>
      (reload_open x (popped m))\<lparr>al_mem := z\<rparr> \<in> set (reload_states x m)" for z
    using reload_in_states by (auto simp del: One_nat_def)
  from recovers_on_al [OF ins this]
  show "recovers (on_al (al_insert x)) (reload_open x (reinserted x m)) (reload_states x m) (reload_open x (popped m))"
    by simp
qed

lemma reload_recovers_pop:
  assumes "linear m 0 (x # xs)" "y \<in> set (pop_states 0 m)"
  shows "recovers recover_activelist (reload_done x m) (reload_states x m) (reload_open x y)"
proof -
  have h: "lhead m 0 = Some x" "lnext m x = fst_of xs None" "fst_of xs None \<noteq> Some x" "lowner m x = Some 0"
    using assms(1) by (auto simp: linear_def fst_of_def split: list.splits)
  have log: "lmicro y = micro_op_old_len PopFront (llen m 0)" using pop_states_log [of 0 m] assms(2) h(1) by auto
  let ?r = "case lowner y x of None \<Rightarrow> Halt | Some l \<Rightarrow> on_al (recover_from_failed_pop_front l x (llen m 0))"
  have "recovers ?r (reload_open x (popped m)) (reload_states x m) (reload_open x y)"
  proof (cases "lowner y x")
    case None
    then have "y = popped m" using pop_states_owner [OF h] assms(2) by auto
    then show ?thesis using None reload_in_states(1) [OF assms(2), of x] by (simp add: recovers_Return)
  next
    case (Some l)
    then have "l = 0" using pop_states_owner [OF h] assms(2) by auto
    moreover have "recovers (recover_from_failed_pop_front 0 x (llen m 0)) (popped m) (pop_states 0 m) y"
      using pop_front_states [OF h(1-3)] assms(2) by blast
    ultimately show ?thesis
      using Some recovers_on_al [of _ "popped m" "pop_states 0 m" y "reload_open x y" "reload_states x m"] reload_in_states(1)
      by (auto simp del: One_nat_def)
  qed
  from recovers_seq [OF this reload_insert [OF assms(1)]]
  have "recovers recover_and_roll_forward_of_activelist_pop_reinsert (reload_done x m) (reload_states x m) (reload_open x y)"
    unfolding recover_and_roll_forward_of_activelist_pop_reinsert_def
    by (intro al_log_entry_recovers [of _ PopFront "llen m 0"] recovers_Read)
      (simp_all add: log llen_small [OF assms(1)] unwrap_unchecked_def)
  then show ?thesis unfolding recover_activelist_def by (intro recovers_Read) simp
qed

lemma reload_recovers_insert:
  assumes "linear m 0 (x # xs)" "y \<in> set (insert_states x m)"
  shows "recovers recover_activelist (reload_done x m) (reload_states x m) (reload_open x y)"
proof -
  note f = reload_facts [OF assms(1)]
  have log: "lmicro y = micro_op_old_len InsertSortedDelayList (llen (popped m) 0)"
    using sorted_states_log assms(2) by blast
  have "recovers (recover_from_failed_insert_sorted timer_gt 0 x (llen (popped m) 0)) (reinserted x m) (insert_states x m) y"
    using sorted_states_linear [OF f(2,3)] assms(2) unfolding al_insert_def ACTIVE_LIST_def by blast
  from recovers_on_al [OF this, of "reload_open x y" "reload_states x m"] reload_in_states(2)
  have "recovers (on_al (recover_from_failed_insert_sorted timer_gt 0 x (llen (popped m) 0)))
      (reload_open x (reinserted x m)) (reload_states x m) (reload_open x y)" by (simp del: One_nat_def)
  from recovers_seq [OF this reload_commit]
  have "recovers recover_and_roll_forward_of_activelist_pop_reinsert (reload_done x m) (reload_states x m) (reload_open x y)"
    unfolding recover_and_roll_forward_of_activelist_pop_reinsert_def
    by (intro al_log_entry_recovers [of _ InsertSortedDelayList "llen (popped m) 0"] recovers_Read)
      (simp_all add: log llen_small [OF f(2)] unwrap_unchecked_def ACTIVE_LIST_def)
  then show ?thesis unfolding recover_activelist_def by (intro recovers_Read) simp
qed

text \<open>A reload job: the timer at the front, the others, and the memory.\<close>

fun reload_pre :: "addr \<times> addr list \<times> TimerListItem lmem \<Rightarrow> alist \<Rightarrow> bool" where
  "reload_pre (x, xs, m) t \<longleftrightarrow> linear m 0 (x # xs) \<and> t \<in> set (reload_states x m)"

fun reloaded :: "addr \<times> addr list \<times> TimerListItem lmem \<Rightarrow> alist \<Rightarrow> bool" where
  "reloaded (x, xs, m) t \<longleftrightarrow> al_op t = ActiveListTxCommitted \<and>
     linear (al_mem t) 0 (insert_at (\<lambda>a. timer_gt (lvalue m x) (lvalue m a)) x xs) \<and> only_list 0 m (al_mem t)"

lemma reload_recovers:
  assumes "reload_pre (x, xs, m) t"
  shows "\<exists>t'. recovers recover_activelist t' (reload_states x m) t \<and> reloaded (x, xs, m) t'"
proof -
  have lin: "linear m 0 (x # xs)" using assms by simp
  note f = reload_facts [OF lin]
  have d: "reloaded (x, xs, m) (reload_done x m)"
    "reloaded (x, xs, m) \<lparr>al_mem = reinserted x m, al_op = ActiveListTxCommitted, al_node = Some x\<rparr>"
    using f(5,6) by (simp_all add: linear_def only_list_def)
  from assms consider y where "t = reload_open x y" "y \<in> set (pop_states 0 m)"
    | y where "t = reload_open x y" "y \<in> set (insert_states x m)"
    | "t = \<lparr>al_mem = reinserted x m, al_op = ActiveListTxCommitted, al_node = Some x\<rparr>" | "t = reload_done x m"
    by (auto simp: reload_states_def simp del: One_nat_def)
  then show ?thesis
  proof cases
    case 1
    then show ?thesis using reload_recovers_pop [OF lin] d by blast
  next
    case 2
    then show ?thesis using reload_recovers_insert [OF lin] d by blast
  qed (use assms d in \<open>auto simp: recover_activelist_def recovers_def\<close>)
qed

interpretation reload: roll_back reload_pre "\<lambda>_. recover_activelist" reloaded
proof (unfold_locales, goal_cases)
  case (1 j s t)
  then show ?case using reload_recovers by (cases j) (fastforce simp: recovers_def)
next
  case (2 j s)
  then show ?case using reload_recovers by (cases j) (fastforce simp: recovers_def)
qed

lemma states_bind_drop:
  "set (drop 1 (states (bind p f) s)) \<subseteq> set (drop 1 (states p s)) \<union>
     (case exec p s of Inl e \<Rightarrow> {} | Inr (a, t) \<Rightarrow> set (states (f a) t))"
proof (induction p arbitrary: s)
  case (Return a)
  show ?case using set_drop_subset [of 1 "states (f a) s"] by simp
next
  case (Write w p)
  show ?case using states_bind [of p f "w s"] by simp
qed auto

lemma reload_tx_states:
  assumes "linear m 0 (x # xs)" "al_mem s = m"
  shows "set (drop 3 (states atomic_roll_forward_pop_reinsert_into_activelist s)) \<subseteq> set (reload_states x m)"
proof -
  have h: "lhead m 0 = Some x" using assms(1) by (simp add: linear_def)
  let ?s = "reload_open x m" and ?q = "\<lambda>popped. seq (case popped of Some n \<Rightarrow> on_al (al_insert n) | None \<Rightarrow> Halt) commit_activelist"
  have o: "s\<lparr>al_node := Some x, al_op := ActiveListPopReInsert\<rparr> = ?s" using assms(2) by (cases s) simp
  have "states atomic_roll_forward_pop_reinsert_into_activelist s =
      s # s\<lparr>al_node := Some x\<rparr> # states (bind (on_al (optimized_pop_front 0)) ?q) ?s"
    unfolding o [symmetric] using assms(2) h
    by (simp add: atomic_roll_forward_pop_reinsert_into_activelist_def ACTIVE_LIST_def)
  then have 3: "drop 3 (states atomic_roll_forward_pop_reinsert_into_activelist s) =
      drop 1 (states (bind (on_al (optimized_pop_front 0)) ?q) ?s)" by (simp add: numeral_3_eq_3)
  have c: "seq (on_al (al_insert x)) commit_activelist = seq (on_al (al_insert x)) (seq commit_activelist (Return ()))"
    by (simp add: commit_activelist_def seq_simps)
  have tail: "set (states (?q (Some x)) (reload_open x (popped m))) \<subseteq> set (reload_states x m)"
    using reload_insert [OF assms(1), of "()"] c by (simp add: recovers_def)
  have "exec (on_al (optimized_pop_front 0)) ?s = Inr (Some x, reload_open x (popped m))"
    using reload_facts(1) [OF assms(1)] by (simp add: daemon_lift)
  moreover have "set (drop 1 (states (on_al (optimized_pop_front 0)) ?s)) \<subseteq> set (reload_states x m)"
    using reload_in_states(1) by (auto simp: daemon_lift drop_map simp del: One_nat_def)
  ultimately show ?thesis
    using states_bind_drop [of "on_al (optimized_pop_front 0)" ?q ?s] tail unfolding 3 by (auto simp del: One_nat_def)
qed

lemma recover_activelist_True:
  assumes "exec recover_activelist s = Inr (b, t)" "al_op t = ActiveListTxCommitted"
  shows b
  using assms
  by (auto simp: recover_activelist_def al_log_entry_def unwrap_unchecked_def exec_seq daemon_lift
    recover_and_roll_forward_of_activelist_remove_def recover_and_roll_forward_of_activelist_pop_reinsert_def
    recover_and_roll_forward_of_activelist_remove_reinsert_def
    split: ListTxOpCode.splits ListOpCode.splits option.splits sum.splits prod.splits if_splits)

text \<open>Three timers; the first has just been given the expiry time 40 and belongs between the others.\<close>

definition demo_timers :: alist where
  "demo_timers = \<lparr>al_mem = \<lparr>lnext = (\<lambda>_. None)(11 := Some 12, 12 := Some 13),
       lprev = (\<lambda>_. None)(12 := Some 11, 13 := Some 12), lowner = (\<lambda>_. None)(11 := Some 0, 12 := Some 0, 13 := Some 0),
       lvalue = (\<lambda>a. TimerListItem (Some a) 0)(11 := TimerListItem (Some 11) 40, 12 := TimerListItem (Some 12) 30,
         13 := TimerListItem (Some 13) 50),
       llen = (\<lambda>_. 0)(0 := 3), lcursor = (\<lambda>_. None)(0 := Some 11), lhead = (\<lambda>_. None)(0 := Some 11), lmicro = 0\<rparr>,
     al_op = InvalidTx, al_node = None\<rparr>"



section \<open>What the daemon does with the first timer\<close>

lemma exec_reload:
  assumes "linear (al_mem a) 0 (x # xs)"
  shows "exec atomic_roll_forward_pop_reinsert_into_activelist a = Inr ((), reload_done x (al_mem a))"
proof -
  have "lhead (al_mem a) 0 = Some x" using assms by (simp add: linear_def)
  then show ?thesis using reload_facts(1,4) [OF assms]
    by (simp add: atomic_roll_forward_pop_reinsert_into_activelist_def ACTIVE_LIST_def exec_bind exec_seq daemon_lift
      commit_activelist_def)
qed

text \<open>The memory of the daemon's transaction.\<close>

abbreviation daemon_pm :: "daemon \<Rightarrow> pm" where
  "daemon_pm s \<equiv> t_pm (user_tx (utx (d_task s)))"

lemma exec_expire_reload:
  assumes "linear (al_mem (d_al s)) 0 (x # xs)" "r = d_timers s x" "auto_reload r" "\<not> call_back_is_closure r"
    and "unat (d_ticks s) + unat (period_ticks r) < 2 ^ 32" "exec (callback r) (daemon_pm s) = Inr ((), p)"
  shows "\<exists>s'. exec (expire_body (Some x)) s = Inr ((), s') \<and> daemon_pm s' = p \<and>
    d_al s' = reload_done x (al_mem (d_al (set_expiry_time x (d_ticks s + period_ticks r) s))) \<and>
    d_timers s' = (d_timers s)(x := r\<lparr>active := True\<rparr>) \<and> d_ticks s' = d_ticks s"
proof -
  let ?m = "al_mem (d_al (set_expiry_time x (d_ticks s + period_ticks r) s))"
  have "linear ?m 0 (x # xs)" using assms(1) by (simp add: set_expiry_time_def linear_def)
  then have e: "al_mem a = ?m \<Longrightarrow> exec atomic_roll_forward_pop_reinsert_into_activelist a = Inr ((), reload_done x ?m)" for a
    using exec_reload [of a x xs] by simp
  show ?thesis using assms(2-6)
    by (simp add: expire_body_def Let_def exec_seq daemon_lift task_lift user_lift tx_lift time_checked_add_def activate_timer_def
      set_timer_def set_expiry_time_def) (simp add: e set_expiry_time_def)
qed


text \<open>Three timers, the first of which expires at tick 40 and has a period of 5; its callback stores a byte.\<close>

definition demo_daemon :: daemon where
  "demo_daemon = \<lparr>d_al = demo_timers, d_timers = (\<lambda>_. \<lparr>period_ticks = 5, callback = writes [\<lambda>m. m\<lparr>pm_mem := (pm_mem m)(100 := 1)\<rparr>],
       call_back_is_closure = False, active = True, auto_reload = True\<rparr>),
     d_task = demo_task 0, d_ticks = 41, next_expiry_time = 0, timer_daemon_created = True\<rparr>"


end
