(* ===== verification/Recover.thy ===== *)
theory Recover
  imports Timer Sched
begin

text \<open>
  The recovery of the whole system at boot (\<open>recover\<close> of \<open>src/recover.rs\<close>) and the critical sections it depends on
  (\<open>src/critical.rs\<close>). The system is the kernel's lists, the timer daemon, the transactional part of the current
  task, the boot transaction, and the persistent counters of nested critical sections and of context-switch
  transactions. All transactions work on one memory: it is kept with the current task, and the boot transaction
  and the daemon see it. The current task is taken not to be the daemon.
\<close>

section \<open>Critical sections\<close>

record system =
  sy_kernel :: kernel
  sy_daemon :: daemon
  sy_task :: ptask
  boot_logs :: "nat \<Rightarrow> byte"
  boot_jtail :: nat
  boot_cache :: txc
  FIRST_BOOT_DONE :: bool
  IN_CONTEXT_SWITCH_TX :: usize
  NESTING_CNT :: usize
  interrupts_on :: bool

definition nesting_inc :: "system \<Rightarrow> system" where
  "nesting_inc s = s\<lparr>NESTING_CNT := NESTING_CNT s + 1\<rparr>"

definition nesting_dec :: "(system, usize) prog" where
  "nesting_dec = Write (\<lambda>s. s\<lparr>NESTING_CNT := NESTING_CNT s - 1\<rparr>) (Read (\<lambda>s. Return (NESTING_CNT s)))"

definition with_no_interrupt :: "(system, 'a) prog \<Rightarrow> (system, 'a) prog" where
  "with_no_interrupt f = seq (writes [\<lambda>s. s\<lparr>interrupts_on := False\<rparr>, nesting_inc]) (bind f (\<lambda>v.
     bind nesting_dec (\<lambda>c. seq (if c = 0 then writes [\<lambda>s. s\<lparr>interrupts_on := True\<rparr>] else Halt) (Return v))))"

definition is_in_critical :: "system \<Rightarrow> bool" where
  "is_in_critical s \<longleftrightarrow> NESTING_CNT s > 0"

definition exit_all_critical :: "(system, unit) prog" where
  "exit_all_critical = writes [\<lambda>s. s\<lparr>NESTING_CNT := 0\<rparr>]"

section \<open>The recovery\<close>

definition start_ctx_switch_tx :: "system \<Rightarrow> system" where
  "start_ctx_switch_tx s = s\<lparr>IN_CONTEXT_SWITCH_TX := IN_CONTEXT_SWITCH_TX s + 1\<rparr>"

definition finish_ctx_switch_tx :: "system \<Rightarrow> system" where
  "finish_ctx_switch_tx s = s\<lparr>IN_CONTEXT_SWITCH_TX := IN_CONTEXT_SWITCH_TX s - 1\<rparr>"

definition exit_all_ctx_switch_tx :: "(system, unit) prog" where
  "exit_all_ctx_switch_tx = writes [\<lambda>s. s\<lparr>IN_CONTEXT_SWITCH_TX := 0\<rparr>]"

definition in_ctx_switch_tx :: "system \<Rightarrow> bool" where
  "in_ctx_switch_tx s \<longleftrightarrow> IN_CONTEXT_SWITCH_TX s > 0"

definition set_task_mem :: "(usize \<Rightarrow> byte) \<Rightarrow> ptask \<Rightarrow> ptask" where
  "set_task_mem m s = s\<lparr>utx := (utx s)\<lparr>user_tx := (user_tx (utx s))\<lparr>t_pm := (t_pm (user_tx (utx s)))\<lparr>pm_mem := m\<rparr>\<rparr>\<rparr>\<rparr>"

text \<open>The boot transaction and the daemon on the common memory.\<close>

definition boot_view :: "system \<Rightarrow> txs" where
  "boot_view s = \<lparr>t_pm = \<lparr>pm_mem = task_mem (sy_task s), j_logs = boot_logs s, j_tail = boot_jtail s\<rparr>, t_cache = boot_cache s\<rparr>"

definition boot_put :: "txs \<Rightarrow> system \<Rightarrow> system" where
  "boot_put t s = s\<lparr>sy_task := set_task_mem (pm_mem (t_pm t)) (sy_task s), boot_logs := j_logs (t_pm t),
     boot_jtail := j_tail (t_pm t), boot_cache := t_cache t\<rparr>"

definition daemon_view :: "system \<Rightarrow> daemon" where
  "daemon_view s = (sy_daemon s)\<lparr>d_task := set_task_mem (task_mem (sy_task s)) (d_task (sy_daemon s))\<rparr>"

definition daemon_put :: "daemon \<Rightarrow> system \<Rightarrow> system" where
  "daemon_put d s = s\<lparr>sy_daemon := d\<lparr>d_task := set_task_mem (task_mem (d_task (sy_daemon s))) (d_task d)\<rparr>,
     sy_task := set_task_mem (task_mem (d_task d)) (sy_task s)\<rparr>"

definition on_boot :: "(txs, 'a) prog \<Rightarrow> (system, 'a) prog" where
  "on_boot p = lift boot_view boot_put p"

definition on_daemon :: "(daemon, 'a) prog \<Rightarrow> (system, 'a) prog" where
  "on_daemon p = lift daemon_view daemon_put p"

definition on_kernel :: "(kernel, 'a) prog \<Rightarrow> (system, 'a) prog" where
  "on_kernel p = lift sy_kernel (\<lambda>k s. s\<lparr>sy_kernel := k\<rparr>) p"

definition on_current :: "(ptask, 'a) prog \<Rightarrow> (system, 'a) prog" where
  "on_current p = lift sy_task (\<lambda>k s. s\<lparr>sy_task := k\<rparr>) p"

text \<open>\<open>run_no_ctx\<close>: a transaction of the kernel itself, on the boot transaction's journal.\<close>

definition run_no_ctx :: "(pm, 'a) prog \<Rightarrow> (system, 'a) prog" where
  "run_no_ctx f = seq (writes [start_ctx_switch_tx]) (bind (on_boot (run_no_replay f)) (\<lambda>r.
     seq (writes [finish_ctx_switch_tx]) (Return r)))"

text \<open>The open transaction: of the kernel itself, or of the current task when it was in a critical section.\<close>

definition recover_open_tx :: "(system, unit) prog" where
  "recover_open_tx = Read (\<lambda>s. if in_ctx_switch_tx s then seq (on_boot roll_back_if_uncommitted) exit_all_ctx_switch_tx
     else if is_in_critical s then seq (on_current (on_sys roll_back_if_uncommitted)) exit_all_critical else Halt)"

text \<open>The part of the recovery after a finished first boot that repairs the kernel.\<close>

definition kernel_recovery :: "(system, unit) prog" where
  "kernel_recovery = seq (on_kernel recover_list_transaction) (seq (on_daemon recover_timer_daemon_list_transaction) recover_open_tx)"

text \<open>\<open>jit\<close> is the recovery of the task that is switched to.\<close>

definition recover_system :: "(tid \<Rightarrow> (kernel, unit) prog) \<Rightarrow> (system, unit) prog" where
  "recover_system jit = Read (\<lambda>s. if \<not> FIRST_BOOT_DONE s
     then seq (on_boot roll_back_if_uncommitted) (on_kernel recover_list_transaction)
     else seq kernel_recovery (Read (\<lambda>s. if \<not> is_schedulable (sy_kernel s) (current_task (sy_kernel s))
        then with_no_interrupt (on_kernel (task_switch jit)) else on_current jit_recovery)))"

interpretation boot_lens: lens boot_view boot_put
  by unfold_locales (simp_all add: boot_view_def boot_put_def set_task_mem_def)

interpretation daemon_lens: lens daemon_view daemon_put
  by unfold_locales (simp_all add: daemon_view_def daemon_put_def set_task_mem_def)

interpretation kernel_lens: lens sy_kernel "\<lambda>k s. s\<lparr>sy_kernel := k\<rparr>"
  by unfold_locales simp_all

interpretation current_lens: lens sy_task "\<lambda>k s. s\<lparr>sy_task := k\<rparr>"
  by unfold_locales simp_all

lemmas system_lift = on_boot_def on_daemon_def on_kernel_def on_current_def boot_lens.exec_lift boot_lens.states_lift
  daemon_lens.exec_lift daemon_lens.states_lift kernel_lens.exec_lift kernel_lens.states_lift
  current_lens.exec_lift current_lens.states_lift

section \<open>Recovery after a power failure in a system call\<close>

text \<open>The daemon has no list transaction open.\<close>

definition daemon_idle :: "daemon \<Rightarrow> bool" where
  "daemon_idle d \<longleftrightarrow> \<not> timer_daemon_created d \<or>
     al_op (d_al d) = InvalidTx \<and> \<not> is_committed (t_cache (user_tx (utx (d_task d))))"

lemma daemon_idle_view: "daemon_idle (daemon_view s) = daemon_idle (sy_daemon s)"
  by (simp add: daemon_idle_def daemon_view_def set_task_mem_def)

lemma idle_recovery:
  assumes "daemon_idle d"
  shows "exec recover_timer_daemon_list_transaction d = Inr ((), d)" "states recover_timer_daemon_list_transaction d = [d]"
  using assms
  by (auto simp: daemon_idle_def recover_timer_daemon_list_transaction_def check_committed_def recover_activelist_def
      on_dtask_def on_utx_def on_user_tx_def on_dal_def)

text \<open>The lists are in one of the states \<open>ss\<close> from which their recovery ends in \<open>k'\<close>; the kernel transaction
  of the current task is around the change \<open>x\<close>, or it is finished and no critical section is open any more.\<close>

type_synonym outage = "kernel list \<times> kernel \<times> tx_change"

fun outage_inv :: "outage \<Rightarrow> system \<Rightarrow> bool" where
  "outage_inv (ss, k', x) s \<longleftrightarrow> (\<forall>k\<in>set ss. recovers recover_list_transaction k' ss k) \<and> sy_kernel s \<in> set ss \<and>
     daemon_idle (sy_daemon s) \<and> IN_CONTEXT_SWITCH_TX s = 0 \<and>
     (0 < NESTING_CNT s \<and> tx_inv x (sys_view (sy_task s)) \<or> NESTING_CNT s = 0 \<and> tx_done x (sys_view (sy_task s)))"

fun outage_over :: "outage \<Rightarrow> system \<Rightarrow> bool" where
  "outage_over (ss, k', x) s \<longleftrightarrow> sy_kernel s = k' \<and> NESTING_CNT s = 0 \<and> tx_done x (sys_view (sy_task s))"

lemma tail_recovery:
  assumes "outage_inv (ss, k', x) s"
  shows "\<exists>t. exec recover_open_tx s = Inr ((), t) \<and> sy_kernel t = sy_kernel s \<and> NESTING_CNT t = 0 \<and> tx_done x (sys_view (sy_task t))"
    and "u \<in> set (states recover_open_tx s) \<Longrightarrow>
      outage_inv (ss, k', x) u"
proof -
  have c: "\<not> in_ctx_switch_tx s" using assms by (simp add: in_ctx_switch_tx_def)
  have "(\<exists>t. exec (if is_in_critical s then seq (on_current (on_sys roll_back_if_uncommitted)) exit_all_critical else Halt) s =
      Inr ((), t) \<and> sy_kernel t = sy_kernel s \<and> NESTING_CNT t = 0 \<and> tx_done x (sys_view (sy_task t))) \<and>
    (u \<in> set (states (if is_in_critical s then seq (on_current (on_sys roll_back_if_uncommitted)) exit_all_critical else Halt) s) \<longrightarrow>
      outage_inv (ss, k', x) u)"
  proof (cases "is_in_critical s")
    case True
    then have inv: "tx_inv x (sys_view (sy_task s))" using assms by (auto simp: is_in_critical_def)
    obtain v where v: "exec roll_back_if_uncommitted (sys_view (sy_task s)) = Inr ((), v)" "tx_done x v"
      using txn.recovery_ends [OF inv] by auto
    let ?t = "s\<lparr>sy_task := sys_put v (sy_task s)\<rparr>"
    have e: "exec (on_current (on_sys roll_back_if_uncommitted)) s = Inr ((), ?t)"
      using v(1) by (simp add: system_lift task_lift)
    have t: "exec (seq (on_current (on_sys roll_back_if_uncommitted)) exit_all_critical) s = Inr ((), ?t\<lparr>NESTING_CNT := 0\<rparr>)"
      using e by (simp add: exec_seq exit_all_critical_def)
    have st: "outage_inv (ss, k', x) u" if u: "u \<in> set (states (seq (on_current (on_sys roll_back_if_uncommitted)) exit_all_critical) s)"
      using u unfolding seq_def
    proof (cases rule: states_bind_cases)
      case 1
      then obtain w where "w \<in> set (states roll_back_if_uncommitted (sys_view (sy_task s)))" "u = s\<lparr>sy_task := sys_put w (sy_task s)\<rparr>"
        by (auto simp: system_lift on_sys_def sys_lens.states_lift)
      then show ?thesis using assms True txn.recovery_states [OF inv]
        by (auto simp: sys_lens.get_put is_in_critical_def simp del: tx_inv.simps tx_done.simps)
    next
      case (2 a w)
      then have w: "w = ?t" using e by simp
      have "v \<in> set (states roll_back_if_uncommitted (sys_view (sy_task s)))"
        using exec_final [OF v(1)] last_state [of roll_back_if_uncommitted "sys_view (sy_task s)"] last_in_set [OF states_not_Nil] by metis
      then have "tx_inv x v" by (rule txn.recovery_states [OF inv])
      then show ?thesis using 2(2) w v(2) assms True
        by (auto simp: exit_all_critical_def sys_lens.get_put is_in_critical_def simp del: tx_inv.simps tx_done.simps)
    qed
    show ?thesis using True t st v(2) by (simp add: sys_lens.get_put del: tx_done.simps)
  next
    case False
    then show ?thesis using assms by (auto simp: is_in_critical_def simp del: tx_inv.simps tx_done.simps)
  qed
  then show "\<exists>t. exec recover_open_tx s = Inr ((), t) \<and> sy_kernel t = sy_kernel s \<and> NESTING_CNT t = 0 \<and> tx_done x (sys_view (sy_task t))"
    and "u \<in> set (states recover_open_tx s) \<Longrightarrow>
      outage_inv (ss, k', x) u"
    using c by (simp_all add: recover_open_tx_def)
qed

lemma kernel_recovery_ends:
  assumes "outage_inv (ss, k', x) s"
  shows "\<exists>t. exec kernel_recovery s = Inr ((), t) \<and> outage_over (ss, k', x) t"
    and "u \<in> set (states kernel_recovery s) \<Longrightarrow> outage_inv (ss, k', x) u"
proof -
  have r: "recovers recover_list_transaction k' ss (sy_kernel s)" using assms by simp
  then obtain b where b: "exec recover_list_transaction (sy_kernel s) = Inr (b, k')" by (auto simp: recovers_def)
  let ?s = "s\<lparr>sy_kernel := k'\<rparr>"
  have l: "exec (on_kernel recover_list_transaction) s = Inr ((), ?s)" using b by (simp add: system_lift)
  have k': "k' \<in> set ss" using r exec_final [OF b] last_state [of recover_list_transaction "sy_kernel s"]
      last_in_set [OF states_not_Nil, of recover_list_transaction "sy_kernel s"] by (auto simp: recovers_def)
  then have inv: "outage_inv (ss, k', x) ?s" using assms by (simp del: tx_inv.simps tx_done.simps)
  have idle: "daemon_idle (daemon_view ?s)" using assms by (simp add: daemon_idle_view)
  have d: "exec (on_daemon recover_timer_daemon_list_transaction) ?s = Inr ((), ?s)"
      "states (on_daemon recover_timer_daemon_list_transaction) ?s = [?s]"
    by (simp_all add: system_lift idle_recovery [OF idle] daemon_lens.put_get)
  show "\<exists>t. exec kernel_recovery s = Inr ((), t) \<and> outage_over (ss, k', x) t"
    using tail_recovery(1) [OF inv] l d by (auto simp: kernel_recovery_def exec_seq simp del: tx_done.simps)
  assume u: "u \<in> set (states kernel_recovery s)"
  then show "outage_inv (ss, k', x) u" unfolding kernel_recovery_def seq_def
  proof (cases rule: states_bind_cases)
    case 1
    then obtain k where "k \<in> set ss" "u = s\<lparr>sy_kernel := k\<rparr>" using r by (auto simp: system_lift recovers_def)
    then show ?thesis using assms by (simp del: tx_inv.simps tx_done.simps)
  next
    case (2 a w)
    then have w: "w = ?s" using l by simp
    from 2(2) show ?thesis unfolding w
      by (cases rule: states_bind_cases) (use d inv tail_recovery(2) [OF inv] in auto)
  qed
qed

interpretation outage: roll_back outage_inv "\<lambda>_. kernel_recovery" outage_over
  by unfold_locales (metis prod_cases3 kernel_recovery_ends)+


section \<open>A first boot that fails in a critical section\<close>

text \<open>A critical section that starts in a state with nothing nested turns the interrupts on again at its end; otherwise it does not.\<close>

lemma with_no_interrupt_spec:
  assumes "exec f ((nesting_inc s)\<lparr>interrupts_on := False\<rparr>) = Inr (v, u)" "NESTING_CNT u = NESTING_CNT s + 1"
  shows "exec (with_no_interrupt f) s = Inr (v, u\<lparr>NESTING_CNT := NESTING_CNT s,
    interrupts_on := (if NESTING_CNT s = 0 then True else interrupts_on u)\<rparr>)"
proof -
  have "nesting_inc (s\<lparr>interrupts_on := False\<rparr>) = (nesting_inc s)\<lparr>interrupts_on := False\<rparr>" by (simp add: nesting_inc_def)
  then show ?thesis using assms by (simp add: with_no_interrupt_def nesting_dec_def exec_seq exec_bind)
qed

text \<open>Claim C35. The counter of nested critical sections is persistent, and the recovery of a failed first boot does not
  reset it: when the power fails inside a critical section of the boot, every later critical
  section ends with the interrupts still off, also one that started with them on.\<close>

theorem failed_boot_leaves_interrupts_off:
  assumes "\<not> FIRST_BOOT_DONE s" "0 < NESTING_CNT s" "is_empty (t_pm (boot_view s))"
    and "exec recover_list_transaction (sy_kernel s) = Inr ((), k')"
  shows "\<exists>t. exec (recover_system jit) (s\<lparr>interrupts_on := True\<rparr>) = Inr ((), t) \<and> interrupts_on t \<and>
    NESTING_CNT t = NESTING_CNT s \<and> (\<exists>u. exec (with_no_interrupt Halt) t = Inr ((), u) \<and> \<not> interrupts_on u)"
proof -
  let ?s = "s\<lparr>interrupts_on := True\<rparr>"
  have "boot_view ?s = boot_view s" by (simp add: boot_view_def)
  then have "exec roll_back_if_uncommitted (boot_view ?s) = Inr ((), boot_view ?s)"
    using roll_back_clean [of "boot_view s"] assms(3) by (simp add: is_empty_def)
  then have "exec (on_boot roll_back_if_uncommitted) ?s = Inr ((), ?s)" by (simp add: system_lift boot_lens.put_get)
  then have r: "exec (recover_system jit) ?s = Inr ((), ?s\<lparr>sy_kernel := k'\<rparr>)"
    using assms(1,4) by (simp add: recover_system_def exec_seq system_lift)
  let ?t = "?s\<lparr>sy_kernel := k'\<rparr>"
  have "exec (with_no_interrupt Halt) ?t = Inr ((), (nesting_inc ?t)\<lparr>interrupts_on := False, NESTING_CNT := NESTING_CNT ?t,
      interrupts_on := (if NESTING_CNT ?t = 0 then True else False)\<rparr>)"
    using with_no_interrupt_spec [of Halt ?t] by (simp add: nesting_inc_def)
  then show ?thesis using r assms(2) by auto
qed

definition demo_system :: "bool \<Rightarrow> system" where
  "demo_system b = \<lparr>sy_kernel = demo_kernel, sy_daemon = demo_daemon, sy_task = demo_task 4,
     boot_logs = (\<lambda>_. 0), boot_jtail = 0, boot_cache = \<lparr>c_bytes = (\<lambda>_. 0), c_ptr = 0, c_tail = 0\<rparr>, FIRST_BOOT_DONE = b,
     IN_CONTEXT_SWITCH_TX = 0, NESTING_CNT = 1, interrupts_on = False\<rparr>"


theorem failed_boot_leaves_interrupts_off_witness:
  "\<exists>t. exec (recover_system (\<lambda>_. Halt)) ((demo_system False)\<lparr>interrupts_on := True\<rparr>) = Inr ((), t) \<and> interrupts_on t \<and>
    NESTING_CNT t = NESTING_CNT (demo_system False) \<and> (\<exists>u. exec (with_no_interrupt Halt) t = Inr ((), u) \<and> \<not> interrupts_on u)"
proof (rule failed_boot_leaves_interrupts_off)
  have r: "get_micro_op 0 = Some InvalidOp" by (simp add: get_micro_op_def)
  show "exec recover_list_transaction (sy_kernel (demo_system False)) = Inr ((), final recover_list_transaction demo_kernel)"
    by (simp add: demo_system_def recover_list_transaction_def recover_and_roll_forward_context_switch_def demo_kernel_def
        with_log_entry_def tx_simps r)
qed (simp_all add: demo_system_def boot_view_def is_empty_def)

end
