(* ===== verification/TimerCmds.thy ===== *)
theory TimerCmds
  imports Timer Queue
begin

text \<open>
  The commands to the timer daemon (\<open>src/time.rs\<close>): the calls by which tasks start, stop, reset, delete and change timers
  put a message into the daemon's queue; the daemon takes the messages out and carries them out. This theory
  connects the ring buffer of \<open>Queue\<close> with the active list of \<open>Timer\<close>.
\<close>

section \<open>Sending commands\<close>

record tsys =
  ts_q :: qsys
  ts_d :: daemon
  timer_cmd_queue :: bool

definition on_tq :: "(qsys, 'a) prog \<Rightarrow> (tsys, 'a) prog" where
  "on_tq p = lift ts_q (\<lambda>q s. s\<lparr>ts_q := q\<rparr>) p"

definition on_td :: "(daemon, 'a) prog \<Rightarrow> (tsys, 'a) prog" where
  "on_td p = lift ts_d (\<lambda>d s. s\<lparr>ts_d := d\<rparr>) p"

interpretation tq_part: lens ts_q "\<lambda>q s. s\<lparr>ts_q := q\<rparr>"
  by unfold_locales simp_all

interpretation td_part: lens ts_d "\<lambda>d s. s\<lparr>ts_d := d\<rparr>"
  by unfold_locales simp_all

lemmas tsys_lift = on_tq_def on_td_def tq_part.exec_lift td_part.exec_lift

text \<open>A message as it lies in the queue: the command, the address of the timer (0 for none) and the value.\<close>

primrec cmd_number :: "TimerCmd \<Rightarrow> usize" where
  "cmd_number InvalidCmd = 0"
| "cmd_number Start = 1"
| "cmd_number Stop = 2"
| "cmd_number Reset = 3"
| "cmd_number Delete = 4"
| "cmd_number SetPeriod = 5"

definition word_bytes :: "usize \<Rightarrow> byte list" where
  "word_bytes w = [byte_of w 0, byte_of w 1, byte_of w 2, byte_of w 3]"

definition msg_bytes :: "TimerMessage \<Rightarrow> byte list" where
  "msg_bytes m = word_bytes (cmd_number (msg_cmd m)) @
     word_bytes (case msg_timer m of None \<Rightarrow> 0 | Some t \<Rightarrow> of_nat t) @ word_bytes (msg_opaque m)"

definition msg_of :: "byte list \<Rightarrow> TimerMessage" where
  "msg_of bs = (let w = get_word ((!) bs) in
     \<lparr>msg_cmd = (if w 0 = 1 then Start else if w 0 = 2 then Stop else if w 0 = 3 then Reset else if w 0 = 4 then Delete
        else if w 0 = 5 then SetPeriod else InvalidCmd),
      msg_timer = (if w 4 = 0 then None else Some (unat (w 4))), msg_opaque = w 8\<rparr>)"

definition queue_send_back :: "(qsys \<Rightarrow> qsys) list \<Rightarrow> byte list \<Rightarrow> tid \<Rightarrow> time \<Rightarrow> (qsys, (QueueErr + unit) outcome) prog" where
  "queue_send_back es item t wait_ticks = queue_send_impl es True item t wait_ticks None"

definition queue_send_front :: "(qsys \<Rightarrow> qsys) list \<Rightarrow> byte list \<Rightarrow> tid \<Rightarrow> time \<Rightarrow> (qsys, (QueueErr + unit) outcome) prog" where
  "queue_send_front es item t wait_ticks = queue_send_impl es False item t wait_ticks None"

text \<open>\<open>es\<close> is what happens while the caller sleeps on a full queue, \<open>t\<close> the caller.\<close>

definition timer_control :: "(qsys \<Rightarrow> qsys) list \<Rightarrow> tid \<Rightarrow> TimerCmd \<Rightarrow> time \<Rightarrow> addr \<Rightarrow> time \<Rightarrow> (tsys, (TimerErr + unit) outcome) prog" where
  "timer_control es t cmd opq timer wait_ticks = Read (\<lambda>s. if \<not> timer_cmd_queue s then Return (Finished (Inl NoTimerDaemon))
     else let msg = \<lparr>msg_cmd = cmd, msg_timer = Some timer, msg_opaque = opq\<rparr> in
       bind (on_tq (queue_send_back es (msg_bytes msg) t wait_ticks)) (\<lambda>r. case r of
         Finished (Inl _) \<Rightarrow> Return (Finished (Inl CmdQueueBusy))
       | Finished (Inr _) \<Rightarrow> Return (Finished (Inr ()))
       | Yielded w \<Rightarrow> Return (Yielded w)))"

definition start_timer :: "(qsys \<Rightarrow> qsys) list \<Rightarrow> tid \<Rightarrow> addr \<Rightarrow> time \<Rightarrow> (tsys, (TimerErr + unit) outcome) prog" where
  "start_timer es t timer wait_ticks = Read (\<lambda>s. let now = d_ticks (ts_d s) in timer_control es t Start now timer wait_ticks)"

definition reset_timer :: "(qsys \<Rightarrow> qsys) list \<Rightarrow> tid \<Rightarrow> addr \<Rightarrow> time \<Rightarrow> (tsys, (TimerErr + unit) outcome) prog" where
  "reset_timer es t timer wait_ticks = Read (\<lambda>s. let now = d_ticks (ts_d s) in timer_control es t Reset now timer wait_ticks)"

definition delete_timer :: "(qsys \<Rightarrow> qsys) list \<Rightarrow> tid \<Rightarrow> addr \<Rightarrow> time \<Rightarrow> (tsys, (TimerErr + unit) outcome) prog" where
  "delete_timer es t timer wait_ticks = timer_control es t Delete 0 timer wait_ticks"

definition change_timer_period :: "(qsys \<Rightarrow> qsys) list \<Rightarrow> tid \<Rightarrow> addr \<Rightarrow> time \<Rightarrow> time \<Rightarrow> (tsys, (TimerErr + unit) outcome) prog" where
  "change_timer_period es t timer new_period wait_ticks = timer_control es t SetPeriod new_period timer wait_ticks"

definition stop_timer :: "(qsys \<Rightarrow> qsys) list \<Rightarrow> tid \<Rightarrow> addr \<Rightarrow> time \<Rightarrow> (tsys, (TimerErr + unit) outcome) prog" where
  "stop_timer es t timer wait_ticks = timer_control es t Stop 0 timer wait_ticks"

definition get_time :: "tsys \<Rightarrow> time" where
  "get_time s = d_ticks (ts_d s)"

section \<open>Carrying out commands\<close>

text \<open>\<open>sys_queue_receive\<close> with no time to wait, by task \<open>t\<close>; the end of the system call resets the mark of the list transaction.\<close>

definition receive_message :: "tid \<Rightarrow> (qsys, QueueErr + byte list) prog" where
  "receive_message t = bind (queue_receive [] 12 t 0 None) (\<lambda>r. seq (on_kernel (Read (\<lambda>k. writes [reset_list_transaction (current_task k)])))
     (case r of Finished v \<Rightarrow> Return v | Yielded w \<Rightarrow> Fail Undefined))"

text \<open>One turn of the loop: \<open>user_tx::run_sys_once\<close> around the receipt and the command. \<open>Inl\<close> ends the loop.\<close>

definition receive_timer_cmd :: "tid \<Rightarrow> (tsys, unit + unit) prog" where
  "receive_timer_cmd t = seq (on_td (on_dal invalidate_timer_log)) (seq (on_td (on_dtask user_tx_start))
     (seq (on_td (on_dtask (on_utx (on_user_tx begin_tx))))
       (bind (bind (on_tq (receive_message t)) (\<lambda>r. case r of
           Inl _ \<Rightarrow> Return (Inl ())
         | Inr v \<Rightarrow> seq (on_td (run_timer_cmd (msg_of v))) (Return (Inr ()))))
       (\<lambda>res. seq (on_td (on_dtask (on_utx (on_user_tx commit_no_replay_tx))))
         (seq (on_td (on_dtask user_tx_end)) (Return res))))))"

primrec process_receive_timer_cmd :: "nat \<Rightarrow> tid \<Rightarrow> (tsys, unit) prog" where
  "process_receive_timer_cmd 0 t = Fail Diverges"
| "process_receive_timer_cmd (Suc fuel) t = bind (receive_timer_cmd t) (\<lambda>res. case res of
     Inl _ \<Rightarrow> Halt | Inr _ \<Rightarrow> process_receive_timer_cmd fuel t)"

text \<open>The daemon's loop: each element of \<open>es\<close> is what happens while the daemon sleeps in one round.\<close>

definition daemon_block :: "tid \<Rightarrow> daemon_step \<Rightarrow> (tsys, bool) prog" where
  "daemon_block t r = (case r of Ran \<Rightarrow> Return False | GoOn \<Rightarrow> Return False
     | BlockFor w \<Rightarrow> on_tq (queue_block_until_not_empty t w False)
     | BlockForever \<Rightarrow> on_tq (queue_block_until_not_empty t 0 True))"

primrec daemon_timer_task :: "nat \<Rightarrow> tid \<Rightarrow> (tsys \<Rightarrow> tsys) list \<Rightarrow> (tsys, unit) prog" where
  "daemon_timer_task fuel t [] = Halt"
| "daemon_timer_task fuel t (e # es) = bind (on_td process_expired_timer) (\<lambda>r. bind (daemon_block t r) (\<lambda>yld.
     seq (if yld then writes [e] else Halt) (seq (process_receive_timer_cmd fuel t) (daemon_timer_task fuel t es))))"

section \<open>What the commands mean\<close>

text \<open>Timers as their users see them: the active ones in the order in which they expire, with expiry times, periods and
  the active flags.\<close>

record timers =
  tm_list :: "addr list"
  tm_expiry :: "addr \<Rightarrow> time"
  tm_period :: "addr \<Rightarrow> time"
  tm_active :: "addr \<Rightarrow> bool"

definition arm :: "addr \<Rightarrow> time \<Rightarrow> timers \<Rightarrow> timers" where
  "arm t w A = A\<lparr>tm_list := insert_at (\<lambda>a. w > tm_expiry A a) t (remove1 t (tm_list A)), tm_expiry := (tm_expiry A)(t := w),
     tm_active := (tm_active A)(t := True)\<rparr>"

definition disarm :: "addr \<Rightarrow> timers \<Rightarrow> timers" where
  "disarm t A = A\<lparr>tm_list := remove1 t (tm_list A), tm_active := (tm_active A)(t := False)\<rparr>"

definition cmd_spec :: "time \<Rightarrow> TimerMessage \<Rightarrow> timers \<Rightarrow> timers" where
  "cmd_spec now m A = (case msg_timer m of None \<Rightarrow> A | Some t \<Rightarrow> (case msg_cmd m of
       Start \<Rightarrow> arm t (msg_opaque m + tm_period A t) A
     | Reset \<Rightarrow> arm t (msg_opaque m + tm_period A t) A
     | Stop \<Rightarrow> disarm t A
     | Delete \<Rightarrow> disarm t A
     | SetPeriod \<Rightarrow> if msg_opaque m = 0 then A
         else arm t (now + msg_opaque m) (A\<lparr>tm_period := (tm_period A)(t := msg_opaque m)\<rparr>)
     | InvalidCmd \<Rightarrow> A))"

text \<open>The times do not overflow, and there is room for one more timer.\<close>

definition cmd_ok :: "time \<Rightarrow> TimerMessage \<Rightarrow> timers \<Rightarrow> bool" where
  "cmd_ok now m A \<longleftrightarrow> length (tm_list A) < 4095 \<and> (\<forall>t. msg_timer m = Some t \<longrightarrow> 0 < t \<and> t < 2 ^ 32 \<and>
     (msg_cmd m \<in> {Start, Reset} \<longrightarrow> unat (msg_opaque m) + unat (tm_period A t) < 2 ^ 32) \<and>
     (msg_cmd m = SetPeriod \<longrightarrow> unat now + unat (msg_opaque m) < 2 ^ 32))"

definition timers_rel :: "daemon \<Rightarrow> timers \<Rightarrow> bool" where
  "timers_rel d A \<longleftrightarrow> linear (al_mem (d_al d)) 0 (tm_list A) \<and> (\<forall>a. lowner (al_mem (d_al d)) a \<in> {None, Some 0}) \<and>
     (\<forall>a. expiry_time (lvalue (al_mem (d_al d)) a) = tm_expiry A a \<and> period_ticks (d_timers d a) = tm_period A a \<and>
       active (d_timers d a) = tm_active A a)"

lemma owned_zero:
  assumes "only_list 0 m m'" "\<forall>a. lowner m a \<in> {None, Some 0}"
  shows "lowner m' a \<in> {None, Some 0}"
proof (cases "lowner m' a")
  case (Some l)
  then have "l \<noteq> 0 \<Longrightarrow> lowner m a = Some l" using assms(1) by (simp add: only_list_def)
  then show ?thesis using Some assms(2) [rule_format, of a] by (cases "l = 0") auto
qed simp

lemma remove_timer:
  assumes "linear m 0 xs" "\<forall>a. lowner m a \<in> {None, Some 0}"
  shows "\<exists>m'. exec (optimized_remove 0 t) m = Inr ((), m') \<and> linear m' 0 (remove1 t xs) \<and> lowner m' t = None \<and>
    (\<forall>a. lowner m' a \<in> {None, Some 0}) \<and> lvalue m' = lvalue m"
proof (cases "t \<in> set xs")
  case True
  have d: "distinct xs" using assms(1) by (simp add: linear_def)
  then obtain as bs where s: "xs = as @ t # bs" "remove1 t xs = as @ bs" using map_split_at [OF True] by blast
  obtain m' where m': "exec (optimized_remove 0 t) m = Inr ((), m')" "linear m' 0 (as @ bs)" "lowner m' t = None" "only_list 0 m m'"
    using optimized_remove_linear [of m 0 as t bs] assms(1) s(1) by blast
  then show ?thesis using m' s(2) owned_zero [OF m'(4) assms(2)] by (auto simp: only_list_def)
next
  case False
  then have "lowner m t = None" using assms linear_owner [OF assms(1), of t] by auto
  then show ?thesis using assms False by (auto simp: optimized_remove_def optimized_remove_impl_def start_op_log_def remove1_idem linear_def)
qed

lemma arm_list:
  assumes "linear m 0 xs" "\<forall>a. lowner m a \<in> {None, Some 0}" "length xs < 4095"
  shows "\<exists>m'. exec (atomic_roll_forward_remove_reinsert_into_activelist t) \<lparr>al_mem = m, al_op = c, al_node = n\<rparr> =
      Inr ((), \<lparr>al_mem = m', al_op = ActiveListTxCommitted, al_node = Some t\<rparr>) \<and>
    linear m' 0 (insert_at (\<lambda>a. timer_gt (lvalue m t) (lvalue m a)) t (remove1 t xs)) \<and> (\<forall>a. lowner m' a \<in> {None, Some 0}) \<and> lvalue m' = lvalue m"
proof -
  obtain m1 where m1: "exec (optimized_remove 0 t) m = Inr ((), m1)" "linear m1 0 (remove1 t xs)" "lowner m1 t = None"
      "\<forall>a. lowner m1 a \<in> {None, Some 0}" "lvalue m1 = lvalue m"
    using remove_timer [OF assms(1,2), of t] by blast
  let ?m1 = "start_op_log InsertSortedDelayList 0 m1"
  have h: "linear ?m1 0 (remove1 t xs)" "lowner ?m1 t = None" "length (remove1 t xs) < 4095" "lvalue ?m1 = lvalue m"
    using m1 assms(3) by (simp_all add: linear_def start_op_log_def length_remove1 less_imp_diff_less)
  obtain m2 where m2: "exec (optimized_insert_sorted timer_gt 0 t) ?m1 = Inr ((), m2)"
      "linear m2 0 (insert_at (\<lambda>a. timer_gt (lvalue m t) (lvalue m a)) t (remove1 t xs))" "only_list 0 ?m1 m2"
    using optimized_insert_sorted_linear [OF h(1-3), of timer_gt] h(4) by auto
  have "lowner m2 a \<in> {None, Some 0}" for a using owned_zero [OF m2(3)] m1(4) by (simp add: start_op_log_def)
  moreover have "lvalue m2 = lvalue m" using m2(3) h(4) by (simp add: only_list_def)
  ultimately show ?thesis using m1(1) m2(1,2)
    by (intro exI [of _ "m2\<lparr>lmicro := 0\<rparr>"])
      (simp add: atomic_roll_forward_remove_reinsert_into_activelist_def ACTIVE_LIST_def al_insert_def sorted_insert_def exec_seq
        daemon_lift commit_activelist_def linear_def)
qed

lemma disarm_list:
  assumes "linear m 0 xs" "\<forall>a. lowner m a \<in> {None, Some 0}"
  shows "\<exists>m'. exec (atomic_roll_forward_remove_from_activelist t) \<lparr>al_mem = m, al_op = c, al_node = n\<rparr> =
      Inr ((), \<lparr>al_mem = m', al_op = ActiveListTxCommitted, al_node = Some t\<rparr>) \<and>
    linear m' 0 (remove1 t xs) \<and> (\<forall>a. lowner m' a \<in> {None, Some 0}) \<and> lvalue m' = lvalue m"
proof -
  obtain m1 where m1: "exec (optimized_remove 0 t) m = Inr ((), m1)" "linear m1 0 (remove1 t xs)"
      "\<forall>a. lowner m1 a \<in> {None, Some 0}" "lvalue m1 = lvalue m"
    using remove_timer [OF assms, of t] by blast
  then show ?thesis
    by (intro exI [of _ "m1\<lparr>lmicro := 0\<rparr>"])
      (simp add: atomic_roll_forward_remove_from_activelist_def ACTIVE_LIST_def exec_seq daemon_lift commit_activelist_def linear_def)
qed

text \<open>Arming a timer in the daemon's state.\<close>

lemma exec_arm:
  assumes "timers_rel d A" "length (tm_list A) < 4095"
  shows "\<exists>d'. exec (seq (activate_timer t w) (on_dal (atomic_roll_forward_remove_reinsert_into_activelist t))) d = Inr ((), d') \<and>
    timers_rel d' (arm t w A) \<and> d_ticks d' = d_ticks d \<and> d_task d' = d_task d"
proof -
  let ?d = "set_expiry_time t w (set_timer t (\<lambda>r. r\<lparr>active := True\<rparr>) d)"
  let ?m = "al_mem (d_al ?d)"
  have h: "linear ?m 0 (tm_list A)" "\<forall>a. lowner ?m a \<in> {None, Some 0}"
    using assms(1) by (simp_all add: timers_rel_def set_expiry_time_def set_timer_def linear_def)
  have e: "expiry_time (lvalue ?m a) = (if a = t then w else tm_expiry A a)" for a
    using assms(1) by (simp add: timers_rel_def set_expiry_time_def set_timer_def)
  have x: "d_al ?d = \<lparr>al_mem = ?m, al_op = al_op (d_al d), al_node = al_node (d_al d)\<rparr>"
    by (simp add: set_expiry_time_def set_timer_def)
  obtain m' where m': "exec (atomic_roll_forward_remove_reinsert_into_activelist t) (d_al ?d) =
        Inr ((), \<lparr>al_mem = m', al_op = ActiveListTxCommitted, al_node = Some t\<rparr>)"
      "linear m' 0 (insert_at (\<lambda>a. timer_gt (lvalue ?m t) (lvalue ?m a)) t (remove1 t (tm_list A)))"
      "\<forall>a. lowner m' a \<in> {None, Some 0}" "lvalue m' = lvalue ?m"
    using arm_list [OF h assms(2), of t] x by metis
  have "distinct (tm_list A)" using h(1) by (simp add: linear_def)
  then have "insert_at (\<lambda>a. timer_gt (lvalue ?m t) (lvalue ?m a)) t (remove1 t (tm_list A)) =
      insert_at (\<lambda>a. w > tm_expiry A a) t (remove1 t (tm_list A))"
    by (auto simp: insert_at_def timer_gt_def e intro!: arg_cong2 [where f = "(@)"] takeWhile_cong dropWhile_cong)
  then have r: "timers_rel (?d\<lparr>d_al := \<lparr>al_mem = m', al_op = ActiveListTxCommitted, al_node = Some t\<rparr>\<rparr>) (arm t w A)"
    using m'(2-4) e assms(1) by (simp add: timers_rel_def arm_def) (simp add: set_expiry_time_def set_timer_def)
  have "exec (seq (activate_timer t w) (on_dal (atomic_roll_forward_remove_reinsert_into_activelist t))) d =
      Inr ((), ?d\<lparr>d_al := \<lparr>al_mem = m', al_op = ActiveListTxCommitted, al_node = Some t\<rparr>\<rparr>)"
    using m'(1) by (simp add: exec_seq activate_timer_def daemon_lift)
  then show ?thesis using r by (simp add: set_expiry_time_def set_timer_def)
qed

lemma exec_disarm:
  assumes "timers_rel d A"
  shows "\<exists>d'. exec (deactivate_and_remove t) d = Inr ((), d') \<and> timers_rel d' (disarm t A) \<and> d_ticks d' = d_ticks d \<and> d_task d' = d_task d"
proof -
  have h: "linear (al_mem (d_al d)) 0 (tm_list A)" "\<forall>a. lowner (al_mem (d_al d)) a \<in> {None, Some 0}"
    using assms(1) by (simp_all add: timers_rel_def)
  obtain m' where m': "exec (atomic_roll_forward_remove_from_activelist t) (d_al d) =
        Inr ((), \<lparr>al_mem = m', al_op = ActiveListTxCommitted, al_node = Some t\<rparr>)"
      "linear m' 0 (remove1 t (tm_list A))" "\<forall>a. lowner m' a \<in> {None, Some 0}" "lvalue m' = lvalue (al_mem (d_al d))"
    using disarm_list [OF h, of t] by (metis alist.surjective unit.exhaust)
  then show ?thesis using assms
    by (simp add: deactivate_and_remove_def daemon_lift set_timer_def timers_rel_def disarm_def)
qed

lemma run_timer_cmd_refines:
  assumes "timers_rel d A" "cmd_ok (d_ticks d) m A"
  shows "\<exists>d'. exec (run_timer_cmd m) d = Inr ((), d') \<and> timers_rel d' (cmd_spec (d_ticks d) m A) \<and> d_ticks d' = d_ticks d \<and> d_task d' = d_task d"
proof (cases "msg_timer m")
  case None
  then show ?thesis using assms(1) by (simp add: run_timer_cmd_def cmd_spec_def)
next
  case (Some t)
  have p: "period_ticks (d_timers d t) = tm_period A t" and l: "length (tm_list A) < 4095"
    using assms by (simp_all add: timers_rel_def cmd_ok_def)
  let ?B = "A\<lparr>tm_period := (tm_period A)(t := msg_opaque m)\<rparr>"
  have "timers_rel (set_timer t (\<lambda>r. r\<lparr>period_ticks := msg_opaque m\<rparr>) d) ?B"
    using assms(1) by (simp add: timers_rel_def set_timer_def)
  moreover have "d_ticks (set_timer t f d) = d_ticks d" "d_task (set_timer t f d) = d_task d" for f by (simp_all add: set_timer_def)
  ultimately show ?thesis
    using Some assms(2) p exec_arm [OF assms(1) l, of t] exec_disarm [OF assms(1), of t]
      exec_arm [of "set_timer t (\<lambda>r. r\<lparr>period_ticks := msg_opaque m\<rparr>) d" ?B t] l assms(1)
    by (cases "msg_cmd m") (auto simp: run_timer_cmd_def cmd_spec_def time_checked_add_def cmd_ok_def)
qed

section \<open>The queue between tasks and daemon\<close>

lemma msg_round_trip: "(case msg_timer m of None \<Rightarrow> True | Some t \<Rightarrow> 0 < t \<and> t < 2 ^ 32) \<Longrightarrow> msg_of (msg_bytes m) = m"
proof -
  assume t: "case msg_timer m of None \<Rightarrow> True | Some t \<Rightarrow> 0 < t \<and> t < 2 ^ 32"
  have w: "get_word ((!) (word_bytes a @ word_bytes b @ word_bytes c)) 0 = a" "get_word ((!) (word_bytes a @ word_bytes b @ word_bytes c)) 4 = b"
      "get_word ((!) (word_bytes a @ word_bytes b @ word_bytes c)) 8 = c" for a b c
    using join_bytes [of a] join_bytes [of b] join_bytes [of c] by (simp_all add: get_word_def word_bytes_def)
  have "of_nat t \<noteq> (0 :: usize)" if "0 < t" "t < 2 ^ 32" for t
    using unat_of_nat_small [of t] that by (metis less_irrefl unat_0)
  then show ?thesis using t unat_of_nat_small
    by (cases m; cases "msg_cmd m"; cases "msg_timer m") (auto simp: msg_of_def msg_bytes_def Let_def w)
qed

lemma length_msg_bytes [simp]: "length (msg_bytes m) = 12"
  by (simp add: msg_bytes_def word_bytes_def)

text \<open>Waking from an empty wait list.\<close>

lemma nobody_to_wake:
  assumes "sched_rel k A" "\<not> list_tx_done (tasks k (current_task k))" "8 < w" "waiting A w = []"
  shows "\<exists>k'. exec (roll_forward_pop_remove_from_waitlist w) k = Inr ((), k') \<and> sched_rel k' A \<and> current_task k' = current_task k"
proof -
  have "lhead (k_lists k) w = None" using assms(1,3,4) by (auto simp: lists_rel_def linear_def)
  then show ?thesis using assms(1,2)
    by (simp add: roll_forward_pop_remove_from_waitlist_def optimized_pop_front_def on_lists_def lists.exec_lift tx_simps)
qed

text \<open>No task waits to send, and the list transaction of the current one is not marked.\<close>

definition unblocked :: "sched \<Rightarrow> qsys \<Rightarrow> bool" where
  "unblocked A s \<longleftrightarrow> sched_rel (qs_k s) A \<and> \<not> list_tx_done (tasks (qs_k s) (current_task (qs_k s))) \<and>
     8 < blocked_writers (qs_q s) \<and> waiting A (blocked_writers (qs_q s)) = [] \<and> q_item_size (qs_q s) = 12"

lemma receive_message_first:
  assumes "represents (qs_q s) (x # xs)" "unblocked A s"
  shows "\<exists>s'. exec (receive_message t) s = Inr (Inr x, s') \<and> represents (qs_q s') xs \<and> unblocked A s'"
proof -
  obtain r where r: "q_holds (qs_q s) r (x # xs)" using assms(1) by (auto simp: represents_def)
  let ?q = "(qs_q s)\<lparr>read_pos := slot (qs_q s) (Suc r), items_enqueued := length xs\<rparr>"
  have q: "exec (dequeue 12) (qs_q s) = Inr (Inr x, ?q)" "represents ?q xs"
    using dequeue_spec [OF r] assms(2) by (auto simp: represents_def unblocked_def)
  obtain k where k: "exec (roll_forward_pop_remove_from_waitlist (blocked_writers (qs_q s))) (qs_k s) = Inr ((), k)"
      "sched_rel k A" "current_task k = current_task (qs_k s)"
    using nobody_to_wake [of "qs_k s" A "blocked_writers (qs_q s)"] assms(2) by (auto simp: unblocked_def)
  have "exec (receive_message t) s = Inr (Inr x, s\<lparr>qs_q := ?q, qs_k := reset_list_transaction (current_task k) k\<rparr>)"
    using q(1) k(1) by (simp add: receive_message_def queue_receive_pass_def exec_bind exec_seq wake_one_def qsys_lift)
  moreover have "unblocked A (s\<lparr>qs_q := ?q, qs_k := reset_list_transaction (current_task k) k\<rparr>)"
    using k assms(2) by (simp add: unblocked_def reset_list_transaction_def)
  ultimately show ?thesis using q(2) by auto
qed

lemma receive_message_none:
  assumes "represents (qs_q s) []" "unblocked A s"
  shows "\<exists>s'. exec (receive_message t) s = Inr (Inl QueueEmpty, s') \<and> represents (qs_q s') [] \<and> unblocked A s'"
proof -
  have "exec (dequeue 12) (qs_q s) = Inr (Inl QueueEmpty, qs_q s)"
    using assms(1) by (auto simp: represents_def q_holds_def dequeue_def queue_is_empty_def)
  then show ?thesis using assms
    by (simp add: receive_message_def queue_receive_pass_def exec_bind exec_seq qsys_lift unblocked_def reset_list_transaction_def)
qed

text \<open>The parts of a turn that only concern the daemon's log and transaction.\<close>

lemma invalidate_step: "timers_rel d A \<Longrightarrow> \<exists>d'. exec (on_dal invalidate_timer_log) d = Inr ((), d') \<and> timers_rel d' A \<and> d_ticks d' = d_ticks d"
  by (auto simp: daemon_lift invalidate_timer_log_def timers_rel_def linear_def)

lemma dtask_step:
  assumes "timers_rel d A" "\<And>t. \<exists>t'. exec p t = Inr ((), t')"
  shows "\<exists>d'. exec (on_dtask p) d = Inr ((), d') \<and> timers_rel d' A \<and> d_ticks d' = d_ticks d"
  using assms(1) assms(2) [of "d_task d"] by (auto simp: daemon_lift timers_rel_def)

lemma task_steps:
  "\<exists>t'. exec user_tx_start t = Inr ((), t')" "\<exists>t'. exec user_tx_end t = Inr ((), t')"
  "\<exists>t'. exec (on_utx (on_user_tx begin_tx)) t = Inr ((), t')" "\<exists>t'. exec (on_utx (on_user_tx commit_no_replay_tx)) t = Inr ((), t')"
  by (simp_all add: user_tx_start_def user_tx_end_def begin_tx_def commit_no_replay_tx_def exec_seq task_lift user_lift tx_lift)

text \<open>A turn of the loop: what the daemon does with message \<open>r\<close> is \<open>f\<close>.\<close>

lemma turn:
  assumes "timers_rel (ts_d s) A" "exec (receive_message t) (ts_q s) = Inr (r, q)"
    and "\<And>d. timers_rel d A \<Longrightarrow> d_ticks d = d_ticks (ts_d s) \<Longrightarrow> \<exists>d'. (case r of Inl _ \<Rightarrow> d' = d | Inr v \<Rightarrow> exec (run_timer_cmd (msg_of v)) d = Inr ((), d')) \<and>
      timers_rel d' A' \<and> d_ticks d' = d_ticks d"
  shows "\<exists>d. exec (receive_timer_cmd t) s = Inr (map_sum (\<lambda>_. ()) (\<lambda>_. ()) r, s\<lparr>ts_q := q, ts_d := d\<rparr>) \<and> timers_rel d A' \<and>
    d_ticks d = d_ticks (ts_d s)"
proof -
  obtain d1 where d1: "exec (on_dal invalidate_timer_log) (ts_d s) = Inr ((), d1)" "timers_rel d1 A" "d_ticks d1 = d_ticks (ts_d s)"
    using invalidate_step [OF assms(1)] by blast
  obtain d2 where d2: "exec (on_dtask user_tx_start) d1 = Inr ((), d2)" "timers_rel d2 A" "d_ticks d2 = d_ticks (ts_d s)"
    using dtask_step [OF d1(2) task_steps(1)] d1(3) by auto
  obtain d3 where d3: "exec (on_dtask (on_utx (on_user_tx begin_tx))) d2 = Inr ((), d3)" "timers_rel d3 A" "d_ticks d3 = d_ticks (ts_d s)"
    using dtask_step [OF d2(2) task_steps(3)] d2(3) by auto
  obtain d4 where d4: "case r of Inl _ \<Rightarrow> d4 = d3 | Inr v \<Rightarrow> exec (run_timer_cmd (msg_of v)) d3 = Inr ((), d4)" "timers_rel d4 A'"
      "d_ticks d4 = d_ticks (ts_d s)" using assms(3) [OF d3(2,3)] d3(3) by auto
  obtain d5 where d5: "exec (on_dtask (on_utx (on_user_tx commit_no_replay_tx))) d4 = Inr ((), d5)" "timers_rel d5 A'" "d_ticks d5 = d_ticks (ts_d s)"
    using dtask_step [OF d4(2) task_steps(4)] d4(3) by auto
  obtain d6 where d6: "exec (on_dtask user_tx_end) d5 = Inr ((), d6)" "timers_rel d6 A'" "d_ticks d6 = d_ticks (ts_d s)"
    using dtask_step [OF d5(2) task_steps(2)] d5(3) by auto
  have "exec (receive_timer_cmd t) s = Inr (map_sum (\<lambda>_. ()) (\<lambda>_. ()) r, s\<lparr>ts_q := q, ts_d := d6\<rparr>)"
    using assms(2) d1(1) d2(1) d3(1) d4(1) d5(1) d6(1)
    by (cases r) (simp_all add: receive_timer_cmd_def exec_seq exec_bind tsys_lift)
  then show ?thesis using d6 by auto
qed

primrec cmds_ok :: "time \<Rightarrow> TimerMessage list \<Rightarrow> timers \<Rightarrow> bool" where
  "cmds_ok now [] A \<longleftrightarrow> True"
| "cmds_ok now (m # ms) A \<longleftrightarrow> cmd_ok now m A \<and> cmds_ok now ms (cmd_spec now m A)"

text \<open>Claim C22. The daemon carries out the commands in its queue in the order in which they were sent and then ends its loop: a
  started or reset timer is armed for the time of the command plus its period, a timer with a new period for the
  current time plus that period, a stopped or deleted one leaves the active list; the list stays in the order in
  which the timers expire, and a loop with one turn more than there are messages is enough.\<close>

theorem timer_commands_refine:
  assumes "represents (qs_q (ts_q s)) (map msg_bytes ms)" "unblocked B (ts_q s)" "timers_rel (ts_d s) A"
    and "cmds_ok (d_ticks (ts_d s)) ms A"
  shows "\<exists>s'. exec (process_receive_timer_cmd (Suc (length ms)) t) s = Inr ((), s') \<and> represents (qs_q (ts_q s')) [] \<and>
    timers_rel (ts_d s') (fold (cmd_spec (d_ticks (ts_d s))) ms A) \<and> unblocked B (ts_q s')"
  using assms
proof (induction ms arbitrary: s A)
  case Nil
  obtain q where q: "exec (receive_message t) (ts_q s) = Inr (Inl QueueEmpty, q)" "represents (qs_q q) []" "unblocked B q"
    using receive_message_none [of "ts_q s" B t] Nil.prems(1,2) by auto
  obtain d where "exec (receive_timer_cmd t) s = Inr (Inl (), s\<lparr>ts_q := q, ts_d := d\<rparr>)" "timers_rel d A"
    using turn [OF Nil.prems(3) q(1), of A] by auto
  then show ?case using q(2,3) by (simp add: exec_bind)
next
  case (Cons m ms)
  let ?now = "d_ticks (ts_d s)"
  have m: "cmd_ok ?now m A" "cmds_ok ?now ms (cmd_spec ?now m A)" using Cons.prems(4) by simp_all
  then have mm: "msg_of (msg_bytes m) = m" by (intro msg_round_trip) (simp add: cmd_ok_def split: option.splits)
  obtain q where q: "exec (receive_message t) (ts_q s) = Inr (Inr (msg_bytes m), q)" "represents (qs_q q) (map msg_bytes ms)" "unblocked B q"
    using receive_message_first [of "ts_q s" _ _ B t] Cons.prems(1,2) by auto
  have step: "\<exists>d'. exec (run_timer_cmd m) d = Inr ((), d') \<and> timers_rel d' (cmd_spec ?now m A) \<and> d_ticks d' = d_ticks d"
    if "timers_rel d A" "d_ticks d = ?now" for d
    using run_timer_cmd_refines [OF that(1), of m] m(1) that(2) by auto
  obtain d where d: "exec (receive_timer_cmd t) s = Inr (Inr (), s\<lparr>ts_q := q, ts_d := d\<rparr>)" "timers_rel d (cmd_spec ?now m A)" "d_ticks d = ?now"
    using turn [OF Cons.prems(3) q(1), of "cmd_spec ?now m A"] step mm by auto
  from Cons.IH [of "s\<lparr>ts_q := q, ts_d := d\<rparr>"] q(2,3) d(2,3) m(2) show ?case by (simp add: exec_bind d(1))
qed

text \<open>Three timers in the active list and two messages: start timer 13, stop timer 12.\<close>

definition demo_msgs :: "TimerMessage list" where
  "demo_msgs = [\<lparr>msg_cmd = Start, msg_timer = Some 13, msg_opaque = 36\<rparr>, \<lparr>msg_cmd = Stop, msg_timer = Some 12, msg_opaque = 0\<rparr>]"

definition demo_cmds :: queue where
  "demo_cmds = \<lparr>q_length = 32, q_item_size = 12, q_buffer = (\<lambda>i. concat (map msg_bytes demo_msgs) ! i), read_pos = 0, write_pos = 24,
     q_tail = 384, items_enqueued = 2, blocked_readers = 20, blocked_writers = 21\<rparr>"

definition demo_tm :: timers where
  "demo_tm = \<lparr>tm_list = [11, 12, 13], tm_expiry = (\<lambda>a. expiry_time (lvalue (al_mem demo_timers) a)), tm_period = (\<lambda>_. 5), tm_active = (\<lambda>_. True)\<rparr>"

lemma demo_cmds_hold: "represents demo_cmds (map msg_bytes demo_msgs)"
proof -
  have n: "length demo_msgs = 2" by (simp add: demo_msgs_def)
  have "concat (map msg_bytes demo_msgs) ! (12 * i + k) = msg_bytes (demo_msgs ! i) ! k" if "i < 2" "k < 12" for i k
    using that by (cases i) (auto simp: demo_msgs_def nth_append)
  then show ?thesis unfolding represents_def
    by (intro exI [of _ 0]) (simp add: q_holds_def demo_cmds_def slot_def n)
qed

theorem timer_commands_refine_witness:
  "\<exists>s'. exec (process_receive_timer_cmd 3 2) \<lparr>ts_q = \<lparr>qs_k = demo_kernel, qs_q = demo_cmds\<rparr>, ts_d = demo_daemon, timer_cmd_queue = True\<rparr> = Inr ((), s') \<and>
    represents (qs_q (ts_q s')) [] \<and> linear (al_mem (d_al (ts_d s'))) 0 [11, 13]"
proof -
  let ?s = "\<lparr>ts_q = \<lparr>qs_k = demo_kernel, qs_q = demo_cmds\<rparr>, ts_d = demo_daemon, timer_cmd_queue = True\<rparr>"
  have "unblocked demo_sched (ts_q ?s)" using demo_kernel_rel by (simp add: unblocked_def demo_cmds_def demo_sched_def demo_kernel_def)
  moreover have "timers_rel (ts_d ?s) demo_tm"
    by (simp add: timers_rel_def demo_daemon_def demo_tm_def) (simp add: demo_timers_def linear_def)
  moreover have "cmds_ok (d_ticks (ts_d ?s)) demo_msgs demo_tm"
    by (simp add: demo_msgs_def cmd_ok_def demo_tm_def demo_daemon_def cmd_spec_def arm_def insert_at_def length_remove1)
  ultimately obtain s' where s': "exec (process_receive_timer_cmd (Suc (length demo_msgs)) 2) ?s = Inr ((), s')"
      "represents (qs_q (ts_q s')) []" "timers_rel (ts_d s') (fold (cmd_spec (d_ticks (ts_d ?s))) demo_msgs demo_tm)"
    using timer_commands_refine [of ?s demo_msgs demo_sched demo_tm 2] demo_cmds_hold by (auto simp del: process_receive_timer_cmd.simps)
  moreover have "tm_list (fold (cmd_spec (d_ticks (ts_d ?s))) demo_msgs demo_tm) = [11, 13]"
    by (simp add: demo_msgs_def cmd_spec_def arm_def disarm_def demo_tm_def demo_timers_def insert_at_def)
  moreover have "Suc (length demo_msgs) = 3" by (simp add: demo_msgs_def)
  ultimately show ?thesis by (auto simp: timers_rel_def simp del: process_receive_timer_cmd.simps)
qed

text \<open>From the call to the active list: after \<open>start_timer\<close> on a queue with room, which wakes nobody else, and one run of
  the daemon's loop, the timer is armed for the time of the call plus its period.\<close>

theorem started_timer_is_armed:
  assumes "represents (qs_q (ts_q s)) []" "unblocked B (ts_q s)" "8 < blocked_readers (qs_q (ts_q s))"
    and "waiting B (blocked_readers (qs_q (ts_q s))) = []" "timer_cmd_queue s" "timers_rel (ts_d s) A"
    and "cmd_ok (d_ticks (ts_d s)) \<lparr>msg_cmd = Start, msg_timer = Some timer, msg_opaque = d_ticks (ts_d s)\<rparr> A"
  shows "\<exists>s1 s2. exec (start_timer es t timer wait_ticks) s = Inr (Finished (Inr ()), s1) \<and>
    exec (process_receive_timer_cmd 2 u) (s1\<lparr>ts_q := (ts_q s1)\<lparr>qs_k := qs_k (ts_q s)\<rparr>\<rparr>) = Inr ((), s2) \<and>
    timers_rel (ts_d s2) (arm timer (d_ticks (ts_d s) + tm_period A timer) A)"
proof -
  let ?m = "\<lparr>msg_cmd = Start, msg_timer = Some timer, msg_opaque = d_ticks (ts_d s)\<rparr>"
  let ?e = "[] :: byte list list"
  obtain r where r: "q_holds (qs_q (ts_q s)) r ?e" using assms(1) by (auto simp: represents_def)
  have len: "length ?e < q_length (qs_q (ts_q s))" "length (msg_bytes ?m) = q_item_size (qs_q (ts_q s))"
    using r assms(2) by (simp_all add: q_holds_def unblocked_def)
  let ?q = "(put_item (qs_q (ts_q s)) (slot (qs_q (ts_q s)) (r + length ?e)) (msg_bytes ?m) (q_item_size (qs_q (ts_q s))))
    \<lparr>write_pos := slot (qs_q (ts_q s)) (Suc (r + length ?e)), items_enqueued := Suc (length ?e)\<rparr>"
  have q: "represents ?q (?e @ [msg_bytes ?m])" using q_holds_item [OF r len] by (auto simp: represents_def)
  obtain k where k: "exec (roll_forward_pop_remove_from_waitlist (blocked_readers (qs_q (ts_q s)))) (qs_k (ts_q s)) = Inr ((), k)"
    using nobody_to_wake [of "qs_k (ts_q s)" B "blocked_readers (qs_q (ts_q s))"] assms(2-4) by (auto simp: unblocked_def)
  have "exec (queue_send_pass True (msg_bytes ?m) t wait_ticks None) (ts_q s) = Inr (Finished (Inr ()), (ts_q s)\<lparr>qs_q := ?q, qs_k := k\<rparr>)"
    using exec_push_back [OF r len(1), of "msg_bytes ?m"] k
    by (simp add: queue_send_pass_def exec_bind exec_seq wake_one_def qsys_lift)
  then have "exec (queue_send_back es (msg_bytes ?m) t wait_ticks) (ts_q s) = Inr (Finished (Inr ()), (ts_q s)\<lparr>qs_q := ?q, qs_k := k\<rparr>)"
    by (cases es) (simp_all add: queue_send_back_def exec_bind)
  then have start: "exec (start_timer es t timer wait_ticks) s = Inr (Finished (Inr ()), s\<lparr>ts_q := (ts_q s)\<lparr>qs_q := ?q, qs_k := k\<rparr>\<rparr>)"
    using assms(5) by (simp add: start_timer_def timer_control_def exec_bind tsys_lift)
  let ?s = "s\<lparr>ts_q := (ts_q s)\<lparr>qs_q := ?q\<rparr>\<rparr>"
  have "unblocked B (ts_q ?s)" using assms(2) by (simp add: unblocked_def)
  then obtain s2 where "exec (process_receive_timer_cmd (Suc (length [?m])) u) ?s = Inr ((), s2)"
      "timers_rel (ts_d s2) (fold (cmd_spec (d_ticks (ts_d ?s))) [?m] A)"
    using timer_commands_refine [of ?s "[?m]" B A u] q assms(6,7) by (auto simp del: process_receive_timer_cmd.simps)
  then show ?thesis using start by (auto simp: cmd_spec_def numeral_2_eq_2 simp del: process_receive_timer_cmd.simps)
qed

end
