(* ===== verification/TaskCreate.thy ===== *)
theory TaskCreate
  imports PVec Syscall ListTxCrash Semaphore EventGroup TimerCmds
begin

text \<open>
  The creation of tasks (\<open>src/task.rs\<close>) and the set-up of their stacks (\<open>src/arch/cortex_m.rs\<close>). Tasks are
  created at boot and by system calls; a creation is a transaction that takes a task number, a control block
  and a part of the persistent heap, followed by the list transaction that makes the task ready.
  Control blocks and stacks are static arrays; where the linker puts the variables in persistent memory
  is an argument of the operations.
\<close>

section \<open>State\<close>

definition TASK_NUM_LIMIT :: nat where
  "TASK_NUM_LIMIT = 6"

definition INITIAL_XPSR :: usize where
  "INITIAL_XPSR = 0x01000000"

definition INITIAL_EXC_RETURN :: usize where
  "INITIAL_EXC_RETURN = 0xfffffffd"

definition FUNC_ADDRESS_MASK :: usize where
  "FUNC_ADDRESS_MASK = 0xfffffffe"

text \<open>The fields of a control block that are not in the kernel's part (priority, status, list nodes) or in
  persistent memory (the allocator). The memory inside \<open>tc_user_tx\<close> is not used here.\<close>

record tcb =
  tc_stack_top :: usize
  tc_task_id :: nat
  tc_name :: string
  tc_task_func :: usize
  tc_param :: usize
  tc_stack_bottom :: usize
  tc_logs :: "nat \<Rightarrow> byte"
  tc_jtail :: nat
  tc_sys_cache :: txc
  tc_replay :: rcache
  tc_user_tx :: user_tx_info
  tc_generation :: usize
  tc_recovery_mode :: bool

text \<open>The statics, and the kernel objects on the persistent heaps by their addresses. Of \<open>os_daemon\<close> the clock and the
  daemon's task are not used: they are \<open>tick_counter\<close> and a control block.\<close>

record os =
  os_kernel :: kernel
  os_mem :: "usize \<Rightarrow> byte"
  os_boot_logs :: "nat \<Rightarrow> byte"
  os_boot_jtail :: nat
  os_boot_cache :: txc
  tcbs :: "tid \<Rightarrow> tcb"
  TASK_ARRAY :: "tid \<Rightarrow> tid option"
  SCHEDULER_STARTED :: bool
  os_generation :: usize
  os_stacks :: "usize \<Rightarrow> usize"
  queues :: "usize \<Rightarrow> queue"
  semaphores :: "usize \<Rightarrow> semaphore"
  event_groups :: "usize \<Rightarrow> event_group"
  os_daemon :: daemon
  os_cmd_queue :: "usize option"

record places =
  a_TASK_CNT :: usize
  a_CUR_MAX_PRIORITY :: usize
  a_GLOBAL_PM_HEAP :: usize
  a_pm_heap :: "tid \<Rightarrow> usize"
  a_USER_STACKS :: "tid \<Rightarrow> usize"

text \<open>\<open>get_current_tx\<close>: the boot transaction until the scheduler runs, then the current task's.\<close>

definition current_tcb :: "os \<Rightarrow> tcb" where
  "current_tcb s = tcbs s (current_task (os_kernel s))"

definition tx_get :: "os \<Rightarrow> txs" where
  "tx_get s = (if SCHEDULER_STARTED s
     then \<lparr>t_pm = \<lparr>pm_mem = os_mem s, j_logs = tc_logs (current_tcb s), j_tail = tc_jtail (current_tcb s)\<rparr>,
           t_cache = tc_sys_cache (current_tcb s)\<rparr>
     else \<lparr>t_pm = \<lparr>pm_mem = os_mem s, j_logs = os_boot_logs s, j_tail = os_boot_jtail s\<rparr>, t_cache = os_boot_cache s\<rparr>)"

definition tx_put :: "txs \<Rightarrow> os \<Rightarrow> os" where
  "tx_put t s = (if SCHEDULER_STARTED s
     then s\<lparr>os_mem := pm_mem (t_pm t), tcbs := (tcbs s)(current_task (os_kernel s) := (current_tcb s)
            \<lparr>tc_logs := j_logs (t_pm t), tc_jtail := j_tail (t_pm t), tc_sys_cache := t_cache t\<rparr>)\<rparr>
     else s\<lparr>os_mem := pm_mem (t_pm t), os_boot_logs := j_logs (t_pm t), os_boot_jtail := j_tail (t_pm t), os_boot_cache := t_cache t\<rparr>)"

definition get_current_tx :: "(txs, 'a) prog \<Rightarrow> (os, 'a) prog" where
  "get_current_tx p = lift tx_get tx_put p"

definition on_mem :: "(pm, 'a) prog \<Rightarrow> (os, 'a) prog" where
  "on_mem p = get_current_tx (on_pm p)"

definition on_sched :: "(kernel, 'a) prog \<Rightarrow> (os, 'a) prog" where
  "on_sched p = lift os_kernel (\<lambda>k s. s\<lparr>os_kernel := k\<rparr>) p"

definition on_tcb :: "tid \<Rightarrow> (tcb, 'a) prog \<Rightarrow> (os, 'a) prog" where
  "on_tcb t p = lift (\<lambda>s. tcbs s t) (\<lambda>c s. s\<lparr>tcbs := (tcbs s)(t := c)\<rparr>) p"

interpretation tx_part: lens tx_get tx_put
proof
  show "tx_get (tx_put t s) = t" for t s by (cases t, cases "t_pm t") (simp add: tx_get_def tx_put_def current_tcb_def)
  show "tx_put t (tx_put t' s) = tx_put t s" for t t' s by (simp add: tx_put_def current_tcb_def)
  show "tx_put (tx_get s) s = s" for s by (cases s) (simp add: tx_get_def tx_put_def current_tcb_def fun_upd_idem)
qed

interpretation sched_part: lens os_kernel "\<lambda>k s. s\<lparr>os_kernel := k\<rparr>"
  by unfold_locales simp_all

interpretation user_part: lens tc_user_tx "\<lambda>u c. c\<lparr>tc_user_tx := u\<rparr>"
  by unfold_locales simp_all

interpretation tcb_part: lens "\<lambda>s. tcbs s t" "\<lambda>c s. s\<lparr>tcbs := (tcbs s)(t := c)\<rparr>" for t
  by unfold_locales simp_all

text \<open>\<open>transaction::run\<close>, with a body that also works on kernel objects outside the journalled memory.\<close>

definition transaction_run :: "nat \<Rightarrow> (os, byte list) prog \<Rightarrow> (os, byte list) prog" where
  "transaction_run n f = bind (get_current_tx (on_cache (try_retrieve_result n))) (\<lambda>r. case r of
       Inr bs \<Rightarrow> Return bs
     | Inl _ \<Rightarrow> seq (get_current_tx begin_tx) (bind f (\<lambda>ret. seq (get_current_tx (commit_tx ret)) (Return ret))))"

section \<open>Creating a task\<close>

definition put_stack :: "usize \<Rightarrow> usize \<Rightarrow> os \<Rightarrow> os" where
  "put_stack a w s = s\<lparr>os_stacks := (os_stacks s)(a := w)\<rparr>"

text \<open>\<open>exit_error\<close> is the address of \<open>task_exit_error\<close>. Offsets count words.\<close>

definition initialize_stack :: "usize \<Rightarrow> usize \<Rightarrow> usize \<Rightarrow> usize \<Rightarrow> (os, usize) prog" where
  "initialize_stack exit_error sp task_code param = seq (writes
     [put_stack (sp - 4) INITIAL_XPSR,
      put_stack (sp - 8) (task_code AND FUNC_ADDRESS_MASK),
      put_stack (sp - 12) exit_error,
      put_stack (sp - 32) param,
      put_stack (sp - 36) INITIAL_EXC_RETURN]) (Return (sp - 68))"

definition alloc_static :: "places \<Rightarrow> nat \<Rightarrow> (os, tid \<times> usize) prog" where
  "alloc_static P i = (if \<not> i < TASK_NUM_LIMIT then Fail Panic
     else seq (writes [\<lambda>s. s\<lparr>TASK_ARRAY := (TASK_ARRAY s)(i := Some i)\<rparr>]) (Return (i, a_USER_STACKS P i)))"

text \<open>A list node as \<open>initialize_task\<close> makes it.\<close>

definition new_node :: "addr \<Rightarrow> item \<Rightarrow> (kernel, unit) prog" where
  "new_node n v = on_lists (writes [set_prev n None, set_next n None, \<lambda>m. m\<lparr>lvalue := (lvalue m)(n := v)\<rparr>, set_owner n None])"

definition set_task :: "tid \<Rightarrow> (task \<Rightarrow> task) \<Rightarrow> kernel \<Rightarrow> kernel" where
  "set_task t f k = k\<lparr>tasks := (tasks k)(t := f (tasks k t))\<rparr>"

definition new_allocator :: "usize \<Rightarrow> (pm, unit) prog" where
  "new_allocator heap = lift (bump_at heap) (put_bump heap)
     (writes [\<lambda>b. b\<lparr>heap_start := 0\<rparr>, \<lambda>b. b\<lparr>heap_end := 0\<rparr>, \<lambda>b. b\<lparr>bump_next := 0\<rparr>])"

definition initialize_task :: "places \<Rightarrow> usize \<Rightarrow> tid \<Rightarrow> usize \<Rightarrow> string \<Rightarrow> usize \<Rightarrow> usize \<Rightarrow> usize \<Rightarrow> (os, unit) prog" where
  "initialize_task P exit_error t stack_ptr name prio func param =
    seq (on_tcb t (writes [\<lambda>c. c\<lparr>tc_task_id := t\<rparr>, \<lambda>c. c\<lparr>tc_stack_top := stack_ptr\<rparr>, \<lambda>c. c\<lparr>tc_stack_bottom := stack_ptr\<rparr>,
      \<lambda>c. c\<lparr>tc_param := param\<rparr>]))
   (seq (on_sched (new_node (sched_node t) (SchedListItem t 0)))
   (seq (on_sched (new_node (event_node t) (BlockedListItem t 0)))
   (seq (on_mem (new_allocator (a_pm_heap P t)))
   (seq (on_tcb t (writes [\<lambda>c. c\<lparr>tc_jtail := 0\<rparr>, \<lambda>c. c\<lparr>tc_sys_cache := txc_init (tc_sys_cache c)\<rparr>,
      \<lambda>c. c\<lparr>tc_replay := replay_reset (tc_replay c)\<rparr>]))
   (seq (on_sched (writes [reset_list_transaction t]))
   (seq (on_tcb t (seq (lift tc_user_tx (\<lambda>u c. c\<lparr>tc_user_tx := u\<rparr>) user_tx_init)
      (writes [\<lambda>c. c\<lparr>tc_task_func := func\<rparr>, \<lambda>c. c\<lparr>tc_name := name\<rparr>])))
   (seq (on_sched (writes [set_task t (\<lambda>k. k\<lparr>priority := Priority prio\<rparr>), set_status t Ready]))
   (seq (on_tcb t (writes [\<lambda>c. c\<lparr>tc_recovery_mode := False\<rparr>]))
   (Read (\<lambda>s. seq (on_tcb t (writes [\<lambda>c. c\<lparr>tc_generation := os_generation s\<rparr>]))
      (bind (initialize_stack exit_error stack_ptr func param) (\<lambda>sp.
        on_tcb t (writes [\<lambda>c. c\<lparr>tc_stack_top := sp\<rparr>])))))))))))))"

text \<open>The representation of \<open>Result<TaskHandle, ErrorCode>\<close> in the result cache: a tag and a payload.\<close>

primrec error_number :: "ErrorCode \<Rightarrow> usize" where
  "error_number InvalidCode = 0"
| "error_number NoSpace = 1"
| "error_number InvalidParam = 2"
| "error_number TxRetry = 3"
| "error_number TxExit = 4"
| "error_number TxFatal = 5"

definition result_bytes :: "ErrorCode + tid \<Rightarrow> byte list" where
  "result_bytes r = (case r of Inl e \<Rightarrow> le_bytes 1 @ le_bytes (error_number e) | Inr t \<Rightarrow> le_bytes 0 @ le_bytes (of_nat t))"

definition result_of :: "byte list \<Rightarrow> ErrorCode + tid" where
  "result_of bs = (let w = (\<lambda>i. get_word ((!) bs) i) in
     if w 0 = 0 then Inr (unat (w 4))
     else Inl (the (List.find (\<lambda>e. error_number e = w 4) [InvalidCode, NoSpace, InvalidParam, TxRetry, TxExit, TxFatal])))"

text \<open>The first task and the most important one so far becomes the current task until the scheduler runs.\<close>

definition store_word :: "usize \<Rightarrow> usize \<Rightarrow> (pm, unit) prog" where
  "store_word a w = writes [\<lambda>s. s\<lparr>pm_mem := write_bytes (pm_mem s) a (le_bytes w)\<rparr>]"

definition choose_first_task :: "places \<Rightarrow> tid \<Rightarrow> (os, unit) prog" where
  "choose_first_task P t = Read (\<lambda>s. if \<not> SCHEDULER_STARTED s \<and>
       is_higher_than (prio_of (os_kernel s) t) (Priority (word_at (os_mem s) (a_CUR_MAX_PRIORITY P)))
     then seq (on_sched (writes [store_current t])) (on_mem (store_word (a_CUR_MAX_PRIORITY P) (prio_value (prio_of (os_kernel s) t))))
     else Halt)"

definition create_task_body :: "places \<Rightarrow> usize \<Rightarrow> string \<Rightarrow> usize \<Rightarrow> usize \<Rightarrow> usize \<Rightarrow> usize \<Rightarrow> (os, ErrorCode + tid) prog" where
  "create_task_body P exit_error name prio func param pmem_heap_sz =
     seq (on_mem (append_log_of (a_TASK_CNT P) 4)) (Read (\<lambda>s. let tid = word_at (os_mem s) (a_TASK_CNT P) in
     if unat tid \<ge> TASK_NUM_LIMIT then Return (Inl NoSpace)
     else if unat prio \<ge> MIN_PRIORITY then Return (Inl InvalidParam)
     else seq (on_mem (store_word (a_TASK_CNT P) (tid + 1)))
         (bind (alloc_static P (unat tid)) (\<lambda>(task, stack_ptr).
         seq (initialize_task P exit_error task stack_ptr name prio func param)
        (seq (on_mem (create_per_task_pm_heap (a_GLOBAL_PM_HEAP P) (a_pm_heap P task) pmem_heap_sz))
        (seq (choose_first_task P task) (Return (Inr (unat tid)))))))))"

definition create_task_static :: "places \<Rightarrow> usize \<Rightarrow> string \<Rightarrow> usize \<Rightarrow> usize \<Rightarrow> usize \<Rightarrow> usize \<Rightarrow> (os, ErrorCode + tid) prog" where
  "create_task_static P exit_error name prio func param pmem_heap_sz =
     bind (transaction_run 8 (bind (create_task_body P exit_error name prio func param pmem_heap_sz) (\<lambda>r. Return (result_bytes r))))
      (\<lambda>bs. case result_of bs of
         Inr handle \<Rightarrow> Read (\<lambda>s. unwrap_unchecked (TASK_ARRAY s handle) (\<lambda>task.
           seq (on_sched (roll_forward_insert_into_readylist task)) (Return (Inr handle))))
       | Inl e \<Rightarrow> Return (Inl e))"

text \<open>What applications call at boot: failures are only printed, apart from a parameter that does not fit a
  register; without an idle task the system stops.\<close>

definition register_app_custom :: "places \<Rightarrow> usize \<Rightarrow> string \<Rightarrow> usize \<Rightarrow> usize \<Rightarrow> byte list \<Rightarrow> usize \<Rightarrow> (os, unit) prog" where
  "register_app_custom P exit_error name prio func param pm_heap_sz = (if length param \<noteq> 4 then Fail Panic
     else bind (create_task_static P exit_error name prio func (get_word ((!) param) 0) pm_heap_sz) (\<lambda>_. Halt))"

definition register_app :: "places \<Rightarrow> usize \<Rightarrow> usize \<Rightarrow> string \<Rightarrow> usize \<Rightarrow> usize \<Rightarrow> byte list \<Rightarrow> (os, unit) prog" where
  "register_app P exit_error PM_HEAP_SIZE_PER_TASK name prio func param =
     register_app_custom P exit_error name prio func param PM_HEAP_SIZE_PER_TASK"

definition register_app_no_param_custom :: "places \<Rightarrow> usize \<Rightarrow> string \<Rightarrow> usize \<Rightarrow> usize \<Rightarrow> usize \<Rightarrow> (os, unit) prog" where
  "register_app_no_param_custom P exit_error name prio func pm_heap_sz =
     bind (create_task_static P exit_error name prio func 0 pm_heap_sz) (\<lambda>_. Halt)"

definition register_app_no_param :: "places \<Rightarrow> usize \<Rightarrow> usize \<Rightarrow> string \<Rightarrow> usize \<Rightarrow> usize \<Rightarrow> (os, unit) prog" where
  "register_app_no_param P exit_error PM_HEAP_SIZE_PER_TASK name prio func =
     register_app_no_param_custom P exit_error name prio func PM_HEAP_SIZE_PER_TASK"

definition create_task_static_with_closure :: "places \<Rightarrow> usize \<Rightarrow> usize \<Rightarrow> string \<Rightarrow> usize \<Rightarrow> usize \<Rightarrow> usize \<Rightarrow> (os, ErrorCode + tid) prog" where
  "create_task_static_with_closure P exit_error closure_task_runner name prio f pm_heap_sz =
     create_task_static P exit_error name prio closure_task_runner f pm_heap_sz"

definition create_idle_task :: "places \<Rightarrow> usize \<Rightarrow> usize \<Rightarrow> (os, unit) prog" where
  "create_idle_task P exit_error idle_fn =
     bind (create_task_static P exit_error ''idle'' (of_nat (MIN_PRIORITY - 1)) idle_fn 0 0)
      (\<lambda>res. case res of Inl _ \<Rightarrow> Fail Diverges | Inr _ \<Rightarrow> Halt)"

section \<open>What a creation does\<close>

lemmas os_lift = sched_part.exec_lift tcb_part.exec_lift

definition pm_of :: "os \<Rightarrow> pm" where
  "pm_of s = t_pm (tx_get s)"

lemma pm_of_simps [simp]: "pm_mem (pm_of s) = os_mem s" "pm_of (s\<lparr>os_stacks := x\<rparr>) = pm_of s" "pm_of (s\<lparr>TASK_ARRAY := y\<rparr>) = pm_of s"
  by (simp_all add: pm_of_def tx_get_def current_tcb_def)

lemma exec_on_mem: "exec (on_mem p) s = (case exec p (pm_of s) of Inl e \<Rightarrow> Inl e
   | Inr (a, u) \<Rightarrow> Inr (a, tx_put ((tx_get s)\<lparr>t_pm := u\<rparr>) s))"
  by (simp add: on_mem_def get_current_tx_def tx_part.exec_lift tx_lift pm_of_def split: sum.split prod.split)

lemma tx_put_mem: "tx_put ((tx_get s)\<lparr>t_pm := (pm_of s)\<lparr>pm_mem := m\<rparr>\<rparr>) s = s\<lparr>os_mem := m\<rparr>"
  by (cases s) (simp add: tx_get_def tx_put_def current_tcb_def pm_of_def fun_upd_idem)

lemma exec_on_mem_store: "exec p (pm_of s) = Inr (a, (pm_of s)\<lparr>pm_mem := m\<rparr>) \<Longrightarrow> exec (on_mem p) s = Inr (a, s\<lparr>os_mem := m\<rparr>)"
  by (simp add: exec_on_mem tx_put_mem)

definition fresh_lists :: "tid \<Rightarrow> item lmem \<Rightarrow> item lmem" where
  "fresh_lists t m = (let a = sched_node t; b = event_node t in
     m\<lparr>lprev := (lprev m)(a := None, b := None), lnext := (lnext m)(a := None, b := None),
       lvalue := (lvalue m)(a := SchedListItem t 0, b := BlockedListItem t 0), lowner := (lowner m)(a := None, b := None)\<rparr>)"

definition fresh_kernel :: "tid \<Rightarrow> usize \<Rightarrow> kernel \<Rightarrow> kernel" where
  "fresh_kernel t prio k = k\<lparr>k_lists := fresh_lists t (k_lists k),
     tasks := (tasks k)(t := \<lparr>priority = Priority prio, status = Ready, list_tx_done = False\<rparr>)\<rparr>"

definition fresh_user_tx :: "user_tx_info \<Rightarrow> user_tx_info" where
  "fresh_user_tx u = u\<lparr>user_tx := (user_tx u)\<lparr>t_pm := init_journal (t_pm (user_tx u)), t_cache := txc_init (t_cache (user_tx u))\<rparr>,
     stack_top := 0, tail_stack := replicate DEFAULT_STACK_DEPTH 0, loop_cnt_ptr := None\<rparr>"

definition fresh_tcb :: "tid \<Rightarrow> usize \<Rightarrow> string \<Rightarrow> usize \<Rightarrow> usize \<Rightarrow> usize \<Rightarrow> tcb \<Rightarrow> tcb" where
  "fresh_tcb t sp name func param gen c = c\<lparr>tc_stack_top := sp - 68, tc_task_id := t, tc_name := name, tc_task_func := func,
     tc_param := param, tc_stack_bottom := sp, tc_jtail := 0, tc_sys_cache := txc_init (tc_sys_cache c),
     tc_replay := replay_reset (tc_replay c), tc_user_tx := fresh_user_tx (tc_user_tx c), tc_generation := gen, tc_recovery_mode := False\<rparr>"

lemma exec_user_tx_init: "exec user_tx_init u = Inr ((), fresh_user_tx u)"
  by (simp add: user_tx_init_def exec_seq exec_writes user_lift tx_lift fresh_user_tx_def txc_init_def)

lemma exec_new_node: "exec (new_node n v) k = Inr ((), k\<lparr>k_lists := (k_lists k)\<lparr>lprev := (lprev (k_lists k))(n := None),
    lnext := (lnext (k_lists k))(n := None), lvalue := (lvalue (k_lists k))(n := v), lowner := (lowner (k_lists k))(n := None)\<rparr>\<rparr>)"
  by (simp add: new_node_def on_lists_def lists.exec_lift exec_writes setters)

lemma exec_new_allocator: "exec (new_allocator heap) s =
    Inr ((), s\<lparr>pm_mem := write_bytes (pm_mem s) heap (le_bytes 0 @ le_bytes 0 @ le_bytes 0)\<rparr>)"
  unfolding new_allocator_def bump_obj.exec_lift by (simp add: put_bump_def)

lemma tx_put_simps [simp]:
  "os_kernel (tx_put u s) = os_kernel s" "os_mem (tx_put u s) = pm_mem (t_pm u)" "TASK_ARRAY (tx_put u s) = TASK_ARRAY s"
  "SCHEDULER_STARTED (tx_put u s) = SCHEDULER_STARTED s" "os_generation (tx_put u s) = os_generation s"
  "os_stacks (tx_put u s) = os_stacks s" "tx_get (tx_put u s) = u"
  by (simp_all add: tx_part.get_put) (simp_all add: tx_put_def)

lemma tcbs_tx_put [simp]: "SCHEDULER_STARTED s \<longrightarrow> current_task (os_kernel s) \<noteq> t \<Longrightarrow> tcbs (tx_put u s) t = tcbs s t"
  by (auto simp: tx_put_def)

definition fresh_stack :: "usize \<Rightarrow> usize \<Rightarrow> usize \<Rightarrow> usize \<Rightarrow> (usize \<Rightarrow> usize) \<Rightarrow> usize \<Rightarrow> usize" where
  "fresh_stack exit_error sp func param m = m(sp - 4 := INITIAL_XPSR, sp - 8 := func AND FUNC_ADDRESS_MASK, sp - 12 := exit_error,
     sp - 32 := param, sp - 36 := INITIAL_EXC_RETURN)"

lemma exec_initialize_stack: "exec (initialize_stack exit_error sp func param) s =
    Inr (sp - 68, s\<lparr>os_stacks := fresh_stack exit_error sp func param (os_stacks s)\<rparr>)"
  by (simp add: initialize_stack_def exec_seq exec_writes put_stack_def fresh_stack_def)

lemma node_parity: "sched_node t \<noteq> event_node u" "event_node u \<noteq> sched_node t"
  by (simp_all add: sched_node_def event_node_def) presburger+

lemma exec_initialize_task: "exec (initialize_task P exit_error t sp name prio func param) s =
    Inr ((), s\<lparr>os_kernel := fresh_kernel t prio (os_kernel s),
      os_mem := write_bytes (os_mem s) (a_pm_heap P t) (le_bytes 0 @ le_bytes 0 @ le_bytes 0),
      tcbs := (tcbs s)(t := fresh_tcb t sp name func param (os_generation s) (tcbs s t)),
      os_stacks := fresh_stack exit_error sp func param (os_stacks s)\<rparr>)"
  by (simp add: initialize_task_def exec_seq exec_bind exec_writes os_lift on_sched_def on_tcb_def exec_new_node
      exec_on_mem_store [OF exec_new_allocator] user_part.exec_lift exec_user_tx_init exec_initialize_stack
      fresh_kernel_def fresh_lists_def fresh_tcb_def set_task_def set_status_def reset_list_transaction_def Let_def
      fun_upd_twist [OF node_parity(2)]) (cases s, cases "tasks (os_kernel s) t", cases "tcbs s t", simp)

text \<open>The variables of the creation of task \<open>t\<close> do not overlap.\<close>

definition apart :: "usize \<Rightarrow> usize \<Rightarrow> usize \<Rightarrow> usize \<Rightarrow> bool" where
  "apart a n b m \<longleftrightarrow> (\<forall>x. in_object x a n \<longrightarrow> \<not> in_object x b m)"

definition places_ok :: "places \<Rightarrow> tid \<Rightarrow> bool" where
  "places_ok P t \<longleftrightarrow> apart (a_TASK_CNT P) 4 (a_CUR_MAX_PRIORITY P) 4 \<and> apart (a_TASK_CNT P) 4 (a_GLOBAL_PM_HEAP P) 8 \<and>
     apart (a_TASK_CNT P) 4 (a_pm_heap P t) 12 \<and> apart (a_CUR_MAX_PRIORITY P) 4 (a_GLOBAL_PM_HEAP P) 8 \<and>
     apart (a_CUR_MAX_PRIORITY P) 4 (a_pm_heap P t) 12 \<and> apart (a_pm_heap P t) 12 (a_GLOBAL_PM_HEAP P) 8"

definition outside :: "places \<Rightarrow> tid \<Rightarrow> usize \<Rightarrow> bool" where
  "outside P t x \<longleftrightarrow> \<not> in_object x (a_TASK_CNT P) 4 \<and> \<not> in_object x (a_CUR_MAX_PRIORITY P) 4 \<and>
     \<not> in_object x (a_GLOBAL_PM_HEAP P) 8 \<and> \<not> in_object x (a_pm_heap P t) 12"

lemma in_word: "i < 4 \<Longrightarrow> in_object (a + of_nat i) a 4"
  using unat_of_nat_small [of i] by (simp add: in_object_def)

lemma word_at_agree: "(\<And>x. in_object x a 4 \<Longrightarrow> m' x = m x) \<Longrightarrow> word_at m' a = word_at m a"
  using in_word [of 0 a] in_word [of 1 a] in_word [of 2 a] in_word [of 3 a]
  by (simp add: word_at_def get_word_def)

lemma write_outside: "length bs = unat n \<Longrightarrow> \<not> in_object x a n \<Longrightarrow> write_bytes m a bs x = m x"
  using unsigned_less [of n, where ?'a = nat] by (simp add: write_bytes_apply in_object_def)

lemma exec_store_word: "exec (store_word a w) s = Inr ((), s\<lparr>pm_mem := write_bytes (pm_mem s) a (le_bytes w)\<rparr>)"
  by (simp add: store_word_def)

lemma aligned_sizes: "aligned_size 4 = 4" "aligned_size 8 = 8"
  by (simp_all add: aligned_size_def arch_addr_align_up_def ARCH_ALIGN_def)

lemma create_heap_step:
  assumes "j_tail s + 16 \<le> JOURNAL_SIZE"
  shows "\<exists>r u. exec (create_per_task_pm_heap g h sz) s = Inr (r, u) \<and>
    (\<forall>x. \<not> in_object x g 8 \<longrightarrow> \<not> in_object x h 12 \<longrightarrow> pm_mem u x = pm_mem s x)"
proof -
  obtain v where v: "exec (append_log_of g 8) s = Inr ((), v)" "pm_mem v = pm_mem s"
    using exec_append_log [of s 8 g] assms by (auto simp: aligned_sizes)
  have i: "exec (lift (bump_at h) (put_bump h) (bump_init a n)) w = Inr ((), put_bump h (bump_at h w\<lparr>heap_start := a, heap_end := a + n, bump_next := a\<rparr>) w)" for a n w
    unfolding bump_obj.exec_lift by (simp add: bump_init_def)
  have f: "pm_mem (put_bump h b w) x = pm_mem w x" if "\<not> in_object x h 12" for b w x
    using that by (simp add: put_bump_def write_outside [where n = 12])
  have g: "pm_mem (put_global g b w) x = pm_mem w x" if "\<not> in_object x g 8" for b w x
    using that by (simp add: put_global_def write_outside [where n = 8])
  show ?thesis
    by (auto simp: create_per_task_pm_heap_def global_alloc_def exec_bind exec_seq i v global_obj.exec_lift f g Let_def)
qed

definition goes_first :: "places \<Rightarrow> usize \<Rightarrow> os \<Rightarrow> bool" where
  "goes_first P prio s \<longleftrightarrow> \<not> SCHEDULER_STARTED s \<and> prio < word_at (os_mem s) (a_CUR_MAX_PRIORITY P)"

text \<open>What the transaction of a creation does when there is a free control block and the priority is valid.\<close>

lemma create_body_step:
  assumes "places_ok P c" "word_at (os_mem s) (a_TASK_CNT P) = of_nat c" "c < TASK_NUM_LIMIT" "unat prio < MIN_PRIORITY"
    and "j_tail (pm_of s) + 28 \<le> JOURNAL_SIZE" "SCHEDULER_STARTED s \<longrightarrow> current_task (os_kernel s) \<noteq> c"
  shows "\<exists>t. exec (create_task_body P exit_error name prio func param sz) s = Inr (Inr c, t) \<and>
    os_kernel t = (if goes_first P prio s then store_current c else id) (fresh_kernel c prio (os_kernel s)) \<and>
    TASK_ARRAY t = (TASK_ARRAY s)(c := Some c) \<and> SCHEDULER_STARTED t = SCHEDULER_STARTED s \<and>
    tcbs t c = fresh_tcb c (a_USER_STACKS P c) name func param (os_generation s) (tcbs s c) \<and>
    t_cache (tx_get t) = t_cache (tx_get s) \<and> word_at (os_mem t) (a_TASK_CNT P) = of_nat c + 1 \<and>
    (\<forall>x. outside P c x \<longrightarrow> os_mem t x = os_mem s x)"
proof -
  let ?cnt = "a_TASK_CNT P" and ?max = "a_CUR_MAX_PRIORITY P" and ?h = "a_pm_heap P c" and ?g = "a_GLOBAL_PM_HEAP P"
  have c: "unat (of_nat c :: usize) = c" using assms(3) unat_of_nat_small [of c] by (simp add: TASK_NUM_LIMIT_def)
  obtain v where v: "exec (append_log_of ?cnt 4) (pm_of s) = Inr ((), v)" "pm_mem v = os_mem s" "j_tail v = j_tail (pm_of s) + 12"
    using exec_append_log [of "pm_of s" 4 ?cnt] assms(5) by (auto simp: aligned_sizes)
  let ?u = "(tx_get s)\<lparr>t_pm := v\<rparr>"
  let ?m1 = "write_bytes (os_mem s) ?cnt (le_bytes (of_nat c + 1))"
  let ?m2 = "write_bytes ?m1 ?h (le_bytes 0 @ le_bytes 0 @ le_bytes 0)"
  define s3 where "s3 = (tx_put ?u s)\<lparr>os_mem := ?m1, TASK_ARRAY := (TASK_ARRAY s)(c := Some c)\<rparr>"
  define s4 where "s4 = s3\<lparr>os_kernel := fresh_kernel c prio (os_kernel s), os_mem := ?m2,
      tcbs := (tcbs (tx_put ?u s))(c := fresh_tcb c (a_USER_STACKS P c) name func param (os_generation s) (tcbs s c)),
      os_stacks := fresh_stack exit_error (a_USER_STACKS P c) func param (os_stacks s)\<rparr>"
  have r1: "exec (on_mem (append_log_of ?cnt 4)) s = Inr ((), tx_put ?u s)" using v by (simp add: exec_on_mem)
  have r0: "exec (on_mem (store_word ?cnt (of_nat c + 1))) (tx_put ?u s) = Inr ((), (tx_put ?u s)\<lparr>os_mem := ?m1\<rparr>)"
    using v(2) by (intro exec_on_mem_store) (simp add: exec_store_word)
  have r2: "exec (alloc_static P c) ((tx_put ?u s)\<lparr>os_mem := ?m1\<rparr>) = Inr ((c, a_USER_STACKS P c), s3)"
    using assms(3) by (simp add: exec_seq alloc_static_def s3_def)
  have r3: "exec (initialize_task P exit_error c (a_USER_STACKS P c) name prio func param) s3 = Inr ((), s4)"
    using assms(6) by (simp add: exec_initialize_task s3_def s4_def)
  have p: "pm_of s4 = v\<lparr>pm_mem := ?m2\<rparr>" "t_cache (tx_get s4) = t_cache (tx_get s)"
    using assms(6) by (auto simp: pm_of_def tx_get_def tx_put_def current_tcb_def fresh_kernel_def s3_def s4_def)
  obtain r w where w: "exec (create_per_task_pm_heap ?g ?h sz) (pm_of s4) = Inr (r, w)"
      "\<And>x. \<not> in_object x ?g 8 \<Longrightarrow> \<not> in_object x ?h 12 \<Longrightarrow> pm_mem w x = ?m2 x"
    using create_heap_step [of "pm_of s4" ?g ?h sz] v(3) assms(5) by (auto simp: p)
  define s5 where "s5 = tx_put ((tx_get s4)\<lparr>t_pm := w\<rparr>) s4"
  have r4: "exec (on_mem (create_per_task_pm_heap ?g ?h sz)) s4 = Inr (r, s5)" using w(1) by (simp add: exec_on_mem s5_def)
  have m2: "?m2 x = os_mem s x" if "\<not> in_object x ?cnt 4" "\<not> in_object x ?h 12" for x
    using that by (simp add: write_outside [where n = 4] write_outside [where n = 12])
  have mw: "pm_mem w x = os_mem s x" if "\<not> in_object x ?cnt 4" "\<not> in_object x ?h 12" "\<not> in_object x ?g 8" for x
    using w(2) m2 that by simp
  have mx: "word_at (pm_mem w) ?max = word_at (os_mem s) ?max"
    by (rule word_at_agree, rule mw) (use assms(1) in \<open>auto simp: places_ok_def apart_def\<close>)
  have "word_at (pm_mem w) ?cnt = word_at ?m1 ?cnt"
    by (rule word_at_agree) (use assms(1) w(2) in \<open>auto simp: places_ok_def apart_def write_outside [where n = 12]\<close>)
  then have cnt: "word_at (pm_mem w) ?cnt = of_nat c + 1" using word_at_le_bytes [of 0 "le_bytes (of_nat c + 1)"] by simp
  have k: "os_kernel s5 = fresh_kernel c prio (os_kernel s)" "SCHEDULER_STARTED s5 = SCHEDULER_STARTED s" "os_mem s5 = pm_mem w"
      "TASK_ARRAY s5 = (TASK_ARRAY s)(c := Some c)" "t_cache (tx_get s5) = t_cache (tx_get s)"
      "tcbs s5 c = fresh_tcb c (a_USER_STACKS P c) name func param (os_generation s) (tcbs s c)"
    using assms(6) p(2) by (auto simp: s3_def s4_def s5_def fresh_kernel_def)
  have q: "prio_of (fresh_kernel c prio k) c = Priority prio" for k by (simp add: prio_of_def fresh_kernel_def)
  let ?m3 = "write_bytes (pm_mem w) ?max (le_bytes prio)"
  define t where "t = (if goes_first P prio s then s5\<lparr>os_kernel := store_current c (os_kernel s5), os_mem := ?m3\<rparr> else s5)"
  have "exec (on_mem (store_word ?max prio)) (s5\<lparr>os_kernel := x\<rparr>) = Inr ((), s5\<lparr>os_kernel := x, os_mem := ?m3\<rparr>)" for x
    using exec_on_mem_store [of "store_word ?max prio" "s5\<lparr>os_kernel := x\<rparr>"] k(3) by (simp add: exec_store_word)
  then have r5: "exec (choose_first_task P c) s5 = Inr ((), t)"
    using mx by (simp add: choose_first_task_def k q goes_first_def is_higher_than_def t_def exec_seq on_sched_def os_lift)
  have "word_at ?m3 ?cnt = word_at (pm_mem w) ?cnt"
    by (rule word_at_agree) (use assms(1) in \<open>auto simp: places_ok_def apart_def write_outside [where n = 4]\<close>)
  then have "word_at (os_mem t) ?cnt = of_nat c + 1" using cnt k(3) by (simp add: t_def)
  moreover have "os_mem t x = os_mem s x" if "outside P c x" for x
    using that mw k(3) by (simp add: t_def outside_def write_outside [where n = 4])
  moreover have "t_cache (tx_get t) = t_cache (tx_get s)"
    using k(2,5) by (auto simp: t_def tx_get_def goes_first_def)
  moreover have "exec (create_task_body P exit_error name prio func param sz) s = Inr (Inr c, t)"
    using r0 r1 r2 r3 r4 r5 assms(2-4) v(2) c
    by (simp add: create_task_body_def exec_seq exec_bind)
  ultimately show ?thesis using k by (auto simp: t_def)
qed

lemma lists_rel_fresh:
  assumes "lists_rel m A" "lowner m (sched_node t) = None" "lowner m (event_node t) = None"
  shows "lists_rel (fresh_lists t m) A"
proof -
  let ?m = "(fresh_lists t m)\<lparr>lvalue := lvalue m\<rparr>"
  have o: "only_list l m ?m" for l using assms(2,3) by (auto simp: only_list_def fresh_lists_def Let_def)
  have v: "circular (fresh_lists t m) l xs = circular ?m l xs" "linear (fresh_lists t m) l xs = linear ?m l xs" for l xs
    by (simp_all add: circular_def linear_def)
  have "circular ?m p (map sched_node (ready A p))" if "p < 8" for p
    using only_list_circular [OF o [of "Suc p"]] assms(1) that by (simp add: lists_rel_def)
  moreover have "linear ?m 8 (map sched_node (delayed A))"
    using only_list_linear [OF o [of 9]] assms(1) by (simp add: lists_rel_def)
  moreover have "linear ?m w (map event_node (waiting A w))" if "w > 8" for w
    using only_list_linear [OF o [of 8]] assms(1) that by (simp add: lists_rel_def)
  moreover have "own_items (fresh_lists t m)"
    using assms(1) node_parity by (simp add: lists_rel_def own_items_def fresh_lists_def Let_def)
  ultimately show ?thesis by (simp add: lists_rel_def v)
qed

lemma transaction_run_fresh:
  assumes "cacheable (rs @ [r])" "holds rs b (t_cache (tx_get s))" "replayed rs (t_cache (tx_get s))"
    and "exec f (tx_put ((tx_get s)\<lparr>t_cache := clear_commit_flag (t_cache (tx_get s))\<rparr>) s) = Inr (r, t)"
    and "t_cache (tx_get t) = clear_commit_flag (t_cache (tx_get s))"
  shows "\<exists>u. exec (transaction_run n f) s = Inr (r, tx_put u t) \<and> pm_mem (t_pm u) = os_mem t \<and> is_empty (t_pm u) \<and>
    holds (rs @ [r]) True (t_cache u) \<and> replayed (rs @ [r]) (t_cache u)"
proof -
  let ?c = "clear_commit_flag (t_cache (tx_get s))"
  have c: "holds rs False ?c" "replayed rs ?c"
    using holds_clear [OF cacheable_append [OF assms(1)] assms(2)] assms(3) by (simp_all add: replayed_def clear_commit_flag_def)
  obtain c' where c': "exec (cache_result r) ?c = Inr ((), c')" "holds (rs @ [r]) True c'" "replayed (rs @ [r]) c'"
    using cache_result_spec(1) [OF assms(1) c] by blast
  have "exec (get_current_tx (on_cache (try_retrieve_result n))) s = Inr (Inl (), s)"
    using retrieve_none(1) [OF cacheable_append [OF assms(1)] assms(2,3)]
    by (simp add: get_current_tx_def tx_part.exec_lift tx_lift tx_part.put_get)
  moreover have "exec (get_current_tx begin_tx) s = Inr ((), tx_put ((tx_get s)\<lparr>t_cache := ?c\<rparr>) s)"
    by (simp add: get_current_tx_def tx_part.exec_lift begin_tx_def tx_lift)
  moreover have "exec (get_current_tx (commit_tx r)) t = Inr ((), tx_put \<lparr>t_pm = clear (t_pm (tx_get t)), t_cache = c'\<rparr> t)"
    using c'(1) assms(5) by (cases "tx_get t") (simp add: get_current_tx_def tx_part.exec_lift commit_tx_def tx_lift exec_seq)
  moreover have "pm_mem (t_pm (tx_get t)) = os_mem t" by (simp add: tx_get_def)
  ultimately show ?thesis using assms(4) c'(2,3)
    by (intro exI [of _ "\<lparr>t_pm = clear (t_pm (tx_get t)), t_cache = c'\<rparr>"])
      (simp add: transaction_run_def exec_bind exec_seq clear_def is_empty_def)
qed

lemma result_round_trip: "t < 2 ^ 32 \<Longrightarrow> result_of (result_bytes (Inr t)) = Inr t" "result_of (result_bytes (Inl e)) = Inl e"
proof -
  have w: "get_word ((!) (le_bytes a @ le_bytes b)) 0 = a" "get_word ((!) (le_bytes a @ le_bytes b)) 4 = b" for a b
    using join_bytes [of a] join_bytes [of b] by (simp_all add: get_word_def le_bytes_def)
  show "result_of (result_bytes (Inl e)) = Inl e"
    by (cases e) (simp_all add: result_of_def result_bytes_def Let_def w)
  assume "t < 2 ^ 32"
  then show "result_of (result_bytes (Inr t)) = Inr t"
    using unat_of_nat_small [of t] by (simp add: result_of_def result_bytes_def Let_def w)
qed

lemma make_ready:
  assumes "sched_rel k A" "unat (prio_value (prio_of k t)) = p" "p < 8"
    and "lowner (k_lists k) (sched_node t) = None" "length (ready A p) < 4095"
  shows "\<exists>k'. exec (roll_forward_insert_into_readylist t) k = Inr ((), k') \<and>
    sched_rel k' (A\<lparr>ready := (ready A)(p := ready A p @ [t])\<rparr>) \<and> tasks k' = (tasks k)(t := (tasks k t)\<lparr>status := Ready\<rparr>) \<and>
    current_task k' = current_task k"
proof -
  let ?k = "set_tx_op ReadyListInsert (set_task_ptr (Some t) k)"
  have k: "k_lists ?k = k_lists k" "tasks ?k = tasks k" "current_task ?k = current_task k" by (simp_all add: log_setters)
  obtain m where m: "exec (add_to_ready_list t) ?k = Inr ((), set_status t Ready (?k\<lparr>k_lists := m\<rparr>))"
      "lists_rel m (A\<lparr>ready := (ready A)(p := ready A p @ [t])\<rparr>)"
    using step_add_ready [of ?k A t p] assms by (auto simp: k prio_of_def)
  then show ?thesis
    by (auto simp: roll_forward_insert_into_readylist_def exec_seq invalidate_def log_setters task_setters)
qed


definition demo_places :: places where
  "demo_places = \<lparr>a_TASK_CNT = 0, a_CUR_MAX_PRIORITY = 4, a_GLOBAL_PM_HEAP = 8, a_pm_heap = (\<lambda>t. 100 + 12 * of_nat t),
     a_USER_STACKS = (\<lambda>t. 10000 + 1024 * of_nat t)\<rparr>"

definition demo_tcb :: tcb where
  "demo_tcb = \<lparr>tc_stack_top = 0, tc_task_id = 0, tc_name = [], tc_task_func = 0, tc_param = 0, tc_stack_bottom = 0,
     tc_logs = (\<lambda>_. 0), tc_jtail = 0, tc_sys_cache = \<lparr>c_bytes = (\<lambda>_. 0), c_ptr = 0, c_tail = 0\<rparr>,
     tc_replay = \<lparr>r_ptr = 0, r_tail = 0, r_cache = (\<lambda>_. 0)\<rparr>, tc_user_tx = demo_user [], tc_generation = 0, tc_recovery_mode = False\<rparr>"

text \<open>Tasks 1 and 2 are ready; the count is 3 and the region of the heaps goes from 256 to 1024.\<close>

definition demo_os :: "txc \<Rightarrow> os" where
  "demo_os cache = \<lparr>os_kernel = demo_kernel, os_mem = (\<lambda>_. 0)(0 := 3, 4 := 1, 9 := 4, 13 := 1), os_boot_logs = (\<lambda>_. 0), os_boot_jtail = 0,
     os_boot_cache = cache, tcbs = (\<lambda>_. demo_tcb),
     TASK_ARRAY = (\<lambda>t. if t \<le> 3 then Some t else None), SCHEDULER_STARTED = False, os_generation = 0, os_stacks = (\<lambda>_. 0), queues = (\<lambda>_. demo_cmds), semaphores = (\<lambda>_. semaphore_new 1 30), event_groups = (\<lambda>_. event_group_new 31),
     os_daemon = demo_daemon, os_cmd_queue = Some 0\<rparr>"

lemma apart_below: "unat a + unat n \<le> unat b \<Longrightarrow> unat b + unat m \<le> 2 ^ 32 \<Longrightarrow> apart a n b m"
  using unsigned_less [of a, where ?'a = nat] unsigned_less [of b, where ?'a = nat]
  by (auto simp: apart_def in_object_def unat_sub_if' word_le_nat_alt split: if_splits)

lemma apart_sym: "apart a n b m \<Longrightarrow> apart b m a n"
  by (auto simp: apart_def)

lemma demo_places_ok: "places_ok demo_places 3"
  by (simp add: places_ok_def demo_places_def apart_below apart_sym [OF apart_below, of 8 8 136 12])

abbreviation empty_txc :: txc where
  "empty_txc \<equiv> \<lparr>c_bytes = (\<lambda>_. 0), c_ptr = 0, c_tail = 0\<rparr>"


text \<open>Without a free control block, or with a priority that does not exist, nothing changes but the result cache.\<close>

theorem create_task_refused:
  assumes "e = (if TASK_NUM_LIMIT \<le> unat (word_at (os_mem s) (a_TASK_CNT P)) then NoSpace else InvalidParam)"
    and "TASK_NUM_LIMIT \<le> unat (word_at (os_mem s) (a_TASK_CNT P)) \<or> MIN_PRIORITY \<le> unat prio" "is_empty (pm_of s)"
    and "holds rs b (t_cache (tx_get s))" "replayed rs (t_cache (tx_get s))" "cacheable (rs @ [result_bytes (Inl e)])"
  shows "\<exists>t. exec (create_task_static P exit_error name prio func param sz) s = Inr (Inl e, t) \<and>
    os_kernel t = os_kernel s \<and> os_mem t = os_mem s \<and> TASK_ARRAY t = TASK_ARRAY s \<and> is_empty (pm_of t)"
proof -
  let ?body = "create_task_body P exit_error name prio func param sz"
  let ?s = "tx_put ((tx_get s)\<lparr>t_cache := clear_commit_flag (t_cache (tx_get s))\<rparr>) s"
  have s: "os_mem ?s = os_mem s" "j_tail (pm_of ?s) = 0"
    using assms(3) by (simp_all add: pm_of_def is_empty_def) (simp_all add: tx_get_def)
  obtain v where v: "exec (append_log_of (a_TASK_CNT P) 4) (pm_of ?s) = Inr ((), v)" "pm_mem v = os_mem s"
    using exec_append_log [of "pm_of ?s" 4 "a_TASK_CNT P"] s by (auto simp: aligned_sizes JOURNAL_SIZE_def)
  let ?t = "tx_put ((tx_get ?s)\<lparr>t_pm := v\<rparr>) ?s"
  have t: "exec ?body ?s = Inr (Inl e, ?t)" using v assms(1,2) by (auto simp: create_task_body_def exec_seq exec_on_mem)
  obtain u where u: "exec (transaction_run 8 (bind ?body (\<lambda>r. Return (result_bytes r)))) s = Inr (result_bytes (Inl e), tx_put u ?t)"
      "pm_mem (t_pm u) = os_mem ?t" "is_empty (t_pm u)"
    using transaction_run_fresh [OF assms(6,4,5), of "bind ?body (\<lambda>r. Return (result_bytes r))" ?t] t by (auto simp: exec_bind)
  then show ?thesis using v(2) by (simp add: create_task_static_def exec_bind result_round_trip pm_of_def)
qed

section \<open>Power failures\<close>

text \<open>At the next boot the creation is called again: its transaction is replayed, the insertion is repeated.\<close>

lemma create_task_replay:
  assumes "cacheable (ps @ result_bytes (Inr c) # qs)" "holds (ps @ result_bytes (Inr c) # qs) b (t_cache (tx_get s))"
    and "replayed ps (t_cache (tx_get s))" "TASK_ARRAY s c = Some c" "c < TASK_NUM_LIMIT"
    and "exec (roll_forward_insert_into_readylist c) (os_kernel s) = Inr ((), k)"
  shows "\<exists>t. exec (create_task_static P exit_error name prio func param sz) s = Inr (Inr c, t) \<and> os_kernel t = k \<and> os_mem t = os_mem s"
proof -
  have n: "8 = length (result_bytes (Inr c))" by (simp add: result_bytes_def)
  have c: "c < 2 ^ 32" using assms(5) by (simp add: TASK_NUM_LIMIT_def)
  have m: "pm_mem (t_pm (tx_get s)) = os_mem s" by (simp add: tx_get_def)
  obtain p where p: "\<And>f. exec (transaction_run 8 f) s = Inr (result_bytes (Inr c), tx_put ((tx_get s)\<lparr>t_cache := (t_cache (tx_get s))\<lparr>c_ptr := p\<rparr>\<rparr>) s)"
    using retrieve_next [OF assms(1-3)] n
    by (auto simp: transaction_run_def exec_bind get_current_tx_def tx_part.exec_lift tx_lift)
  then show ?thesis using assms(4,6) result_round_trip(1) [OF c] m
    by (simp add: create_task_static_def exec_bind exec_seq on_sched_def os_lift unwrap_unchecked_def)
qed

lemma replay_of_ready_task:
  assumes "sched_rel k A" "unat (prio_value (prio_of k t)) = p" "p < 8" "lowner (k_lists k) (sched_node t) \<noteq> None"
  shows "\<exists>k'. exec (roll_forward_insert_into_readylist t) k = Inr ((), k') \<and> sched_rel k' A \<and>
    tasks k' = (tasks k)(t := (tasks k t)\<lparr>status := Ready\<rparr>) \<and> current_task k' = current_task k"
  using assms
  by (simp add: roll_forward_insert_into_readylist_def add_to_ready_list_def with_sched_list_def exec_seq on_lists_def
      lists.exec_lift optimized_insert_before_cursor_def optimized_insert_before_cursor_impl_def start_op_log_def
      invalidate_def log_setters task_setters NUM_PRIORITY_LEVELS_def prio_of_def)

text \<open>The recovery when the power failed right after the insertion was logged, and the ready list was empty.\<close>

lemma recovered_insertion:
  assumes "lcursor (k_lists k) p = None" "llen (k_lists k) p = 0" "lowner (k_lists k) (sched_node t) = None"
    and "unat (prio_value (prio_of k t)) = p" "p < 8"
  shows "exec recover_list_transaction (crash (roll_forward_insert_into_readylist t) 3 k) =
    Inr ((), k\<lparr>log_task := Some t, log_op := InvalidTx,
      k_lists := (k_lists k)\<lparr>lprev := (lprev (k_lists k))(sched_node t := Some (sched_node t)),
        lnext := (lnext (k_lists k))(sched_node t := Some (sched_node t)), lcursor := (lcursor (k_lists k))(p := Some (sched_node t)),
        lhead := (lhead (k_lists k))(p := Some (sched_node t)), llen := (llen (k_lists k))(p := 1), lmicro := 0\<rparr>,
      tasks := (\<lambda>f. f(current_task k := (f (current_task k))\<lparr>list_tx_done := True\<rparr>))
        ((tasks k)(t := (tasks k t)\<lparr>status := Ready\<rparr>))\<rparr>)"
proof -
  have "crash (roll_forward_insert_into_readylist t) 3 k = k\<lparr>log_task := Some t, log_op := ReadyListInsert,
      k_lists := (k_lists k)\<lparr>lmicro := micro_op_old_len InsertBeforeCursor 0\<rparr>\<rparr>"
    using assms
    by (simp add: roll_forward_insert_into_readylist_def add_to_ready_list_def with_sched_list_def on_lists_def seq_def
        optimized_insert_before_cursor_def start_op_log_def log_setters NUM_PRIORITY_LEVELS_def prio_of_def numeral_3_eq_3)
  moreover have "get_micro_op 0 = Some InvalidOp" "get_micro_op (micro_op_old_len InsertBeforeCursor 0) = Some InsertBeforeCursor"
      "get_old_len (micro_op_old_len InsertBeforeCursor 0) = 0"
    by (simp_all add: get_micro_op_def micro_op_old_len_def OP_CODE_SHIFT_def get_old_len_def)
  ultimately show ?thesis using assms
    by (simp add: recover_list_transaction_def recover_and_roll_forward_of_readylist_insert_def with_log_entry_def tx_simps
        recover_and_roll_forward_context_switch_def recover_from_failed_insert_before_cursor_def setters with_sched_list_def
        on_lists_def lists.exec_lift prio_of_def NUM_PRIORITY_LEVELS_def)
qed

text \<open>A second insertion of the only node of a ring that does not know its list; and its removal.\<close>

lemma insert_twice:
  assumes "lcursor (k_lists k) p = Some n" "lhead (k_lists k) p = Some n" "lprev (k_lists k) n = Some n" "lnext (k_lists k) n = Some n"
    and "lowner (k_lists k) n = None" "llen (k_lists k) p = 1" "n = sched_node t" "unat (prio_value (prio_of k t)) = p" "p < 8"
  shows "\<exists>k'. exec (roll_forward_insert_into_readylist t) k = Inr ((), k') \<and> llen (k_lists k') p = 2 \<and>
    lcursor (k_lists k') p = Some n \<and> lnext (k_lists k') n = Some n \<and>
    (\<exists>k2. exec (remove_from_ready_list t) k' = Inr ((), k2) \<and> lowner (k_lists k2) n = None \<and>
      lcursor (k_lists k2) p = Some n \<and> lnext (k_lists k2) n = Some n \<and> llen (k_lists k2) p = 1)"
  using assms
  by (simp add: roll_forward_insert_into_readylist_def add_to_ready_list_def with_sched_list_def on_lists_def lists.exec_lift
      optimized_insert_before_cursor_def optimized_insert_before_cursor_impl_def start_op_log_def tx_simps setters
      NUM_PRIORITY_LEVELS_def prio_of_def remove_from_ready_list_def optimized_remove_def optimized_remove_impl_def
      unlink_def store_at_def)

text \<open>Claim C37. A power failure during the first boot can put a task into its ready list twice. When it comes right after the
  insertion is logged, the recovery inserts the task without storing its list; the boot then runs again,
  the creation is replayed and inserts the task a second time: the list counts two members, both the same node. The first
  time the task leaves the ready list, it stays under the cursor, where the scheduler finds it while it sleeps. Also, the
  recovery marks the list transaction of the current task as done, although that task has not run yet, so its
  first delay has no effect.\<close>

theorem replayed_creation_inserts_twice:
  assumes "lcursor (k_lists (os_kernel s)) p = None" "llen (k_lists (os_kernel s)) p = 0"
    and "lowner (k_lists (os_kernel s)) (sched_node c) = None" "unat (prio_value (prio_of (os_kernel s) c)) = p" "p < 8"
    and "cacheable (ps @ result_bytes (Inr c) # qs)" "holds (ps @ result_bytes (Inr c) # qs) b (t_cache (tx_get s))"
    and "replayed ps (t_cache (tx_get s))" "TASK_ARRAY s c = Some c" "c < TASK_NUM_LIMIT"
  shows "\<exists>k t. exec recover_list_transaction (crash (roll_forward_insert_into_readylist c) 3 (os_kernel s)) = Inr ((), k) \<and>
    exec (create_task_static P exit_error name prio func param sz) (s\<lparr>os_kernel := k\<rparr>) = Inr (Inr c, t) \<and>
    llen (k_lists (os_kernel t)) p = 2 \<and> lnext (k_lists (os_kernel t)) (sched_node c) = Some (sched_node c) \<and>
    (\<exists>k'. exec (remove_from_ready_list c) (os_kernel t) = Inr ((), k') \<and> lowner (k_lists k') (sched_node c) = None \<and>
      lcursor (k_lists k') p = Some (sched_node c) \<and> lnext (k_lists k') (sched_node c) = Some (sched_node c)) \<and>
    list_tx_done (tasks k (current_task k)) \<and> exec roll_forward_insert_into_delaylist k = Inr ((), k)"
proof -
  obtain k where k: "exec recover_list_transaction (crash (roll_forward_insert_into_readylist c) 3 (os_kernel s)) = Inr ((), k)"
      "lcursor (k_lists k) p = Some (sched_node c)" "lhead (k_lists k) p = Some (sched_node c)"
      "lprev (k_lists k) (sched_node c) = Some (sched_node c)" "lnext (k_lists k) (sched_node c) = Some (sched_node c)"
      "lowner (k_lists k) (sched_node c) = None" "llen (k_lists k) p = 1" "prio_of k c = prio_of (os_kernel s) c"
      "current_task k = current_task (os_kernel s)" "list_tx_done (tasks k (current_task k))"
    using recovered_insertion [OF assms(1-5)] assms(3) by (simp add: prio_of_def)
  have x: "tx_get (s\<lparr>os_kernel := k\<rparr>) = tx_get s" using k(9) by (simp add: tx_get_def current_tcb_def)
  obtain k1 where k1: "exec (roll_forward_insert_into_readylist c) k = Inr ((), k1)" "llen (k_lists k1) p = 2"
      "lnext (k_lists k1) (sched_node c) = Some (sched_node c)"
      "\<exists>k2. exec (remove_from_ready_list c) k1 = Inr ((), k2) \<and> lowner (k_lists k2) (sched_node c) = None \<and>
        lcursor (k_lists k2) p = Some (sched_node c) \<and> lnext (k_lists k2) (sched_node c) = Some (sched_node c)"
    using insert_twice [OF k(2-7) refl _ assms(5)] k(8) assms(4) by auto
  obtain t where "exec (create_task_static P exit_error name prio func param sz) (s\<lparr>os_kernel := k\<rparr>) = Inr (Inr c, t)" "os_kernel t = k1"
    using create_task_replay [of ps c qs b "s\<lparr>os_kernel := k\<rparr>" k1 P exit_error name prio func param sz] assms(6-10) k1(1) by (auto simp: x)
  then show ?thesis using k(1,10) k1 by (auto simp: roll_forward_insert_into_delaylist_def)
qed

theorem replayed_creation_inserts_twice_witness:
  "\<exists>k t. exec recover_list_transaction (crash (roll_forward_insert_into_readylist 3) 3
        (set_task 3 (\<lambda>k. k\<lparr>priority := Priority 0\<rparr>) demo_kernel)) = Inr ((), k) \<and>
    exec (create_task_static demo_places 7 ''app'' 0 5 6 64) ((demo_os \<lparr>c_bytes = (\<lambda>i. result_bytes (Inr 3) ! i), c_ptr = 0,
        c_tail = flagged True (composite 1 8)\<rparr>)\<lparr>os_kernel := k\<rparr>) = Inr (Inr 3, t) \<and> llen (k_lists (os_kernel t)) 0 = 2"
proof -
  let ?s = "(demo_os \<lparr>c_bytes = (\<lambda>i. result_bytes (Inr 3) ! i), c_ptr = 0, c_tail = flagged True (composite 1 8)\<rparr>)
    \<lparr>os_kernel := set_task 3 (\<lambda>k. k\<lparr>priority := Priority 0\<rparr>) demo_kernel\<rparr>"
  have "holds ([] @ result_bytes (Inr 3) # []) True (t_cache (tx_get ?s))" "replayed [] (t_cache (tx_get ?s))"
      "cacheable ([] @ result_bytes (Inr 3) # [])"
    by (simp_all add: demo_os_def tx_get_def holds_def replayed_def composite_def flagged_def cacheable_def
        result_bytes_def TX_CACHE_SZ_def)
  then show ?thesis
    using replayed_creation_inserts_twice [of ?s 0 3 "[]" "[]" True demo_places 7 "''app''" 0 5 6 64]
    by (auto simp: demo_os_def demo_kernel_def set_task_def sched_node_def prio_of_def TASK_NUM_LIMIT_def)
qed

end
