(* ===== verification/KObjects.thy ===== *)
theory KObjects
  imports TaskCreate
begin

text \<open>
  How queues, semaphores, event groups and timers come into being (\<open>src/queue.rs\<close>, \<open>src/vec.rs\<close>, \<open>src/semaphore.rs\<close>,
  \<open>src/event_group.rs\<close>, \<open>src/time.rs\<close>): each creation is a kernel transaction that allocates a block on the caller's persistent
  heap and initialises the object in it. Sizes and the addresses of lists inside an object are the
  compiler's choice and therefore arguments. The object itself is kept in the table of its kind, under
  the address of its block.
\<close>

section \<open>Objects on the heap\<close>

record layouts =
  ly_Queue :: Layout
  ly_Semaphore :: Layout
  ly_EventGroup :: Layout
  ly_Timer :: Layout
  a_BOOT_PM_HEAP :: usize
  wl_readers :: "usize \<Rightarrow> addr"
  wl_writers :: "usize \<Rightarrow> addr"
  wl_semaphore :: "usize \<Rightarrow> addr"
  wl_event_group :: "usize \<Rightarrow> addr"

definition caller_heap :: "places \<Rightarrow> layouts \<Rightarrow> os \<Rightarrow> usize" where
  "caller_heap P L s = get_pm_heap (SCHEDULER_STARTED s) (a_pm_heap P (current_task (os_kernel s))) (a_BOOT_PM_HEAP L)"

definition qsys_at :: "usize \<Rightarrow> os \<Rightarrow> qsys" where
  "qsys_at p s = \<lparr>qs_k = os_kernel s, qs_q = queues s p\<rparr>"

definition put_qsys :: "usize \<Rightarrow> qsys \<Rightarrow> os \<Rightarrow> os" where
  "put_qsys p q s = s\<lparr>os_kernel := qs_k q, queues := (queues s)(p := qs_q q)\<rparr>"

definition ssys_at :: "usize \<Rightarrow> os \<Rightarrow> ssys" where
  "ssys_at p s = \<lparr>ss_k = os_kernel s, ss_s = semaphores s p\<rparr>"

definition put_ssys :: "usize \<Rightarrow> ssys \<Rightarrow> os \<Rightarrow> os" where
  "put_ssys p q s = s\<lparr>os_kernel := ss_k q, semaphores := (semaphores s)(p := ss_s q)\<rparr>"

definition esys_at :: "usize \<Rightarrow> os \<Rightarrow> esys" where
  "esys_at p s = \<lparr>es_k = os_kernel s, es_eg = event_groups s p\<rparr>"

definition put_esys :: "usize \<Rightarrow> esys \<Rightarrow> os \<Rightarrow> os" where
  "put_esys p q s = s\<lparr>os_kernel := es_k q, event_groups := (event_groups s)(p := es_eg q)\<rparr>"

interpretation qsys_part: lens "qsys_at p" "put_qsys p" for p
  by unfold_locales (simp_all add: qsys_at_def put_qsys_def)

interpretation ssys_part: lens "ssys_at p" "put_ssys p" for p
  by unfold_locales (simp_all add: ssys_at_def put_ssys_def)

interpretation esys_part: lens "esys_at p" "put_esys p" for p
  by unfold_locales (simp_all add: esys_at_def put_esys_def)

interpretation daemon_part: lens os_daemon "\<lambda>d s. s\<lparr>os_daemon := d\<rparr>"
  by unfold_locales simp_all

text \<open>A pointer that may be null, as a word; \<open>SortedPList::new\<close> and \<open>UnsortedPList::new\<close> at an address.\<close>

definition ptr_word :: "usize option \<Rightarrow> usize" where
  "ptr_word r = (case r of None \<Rightarrow> 0 | Some p \<Rightarrow> p)"

definition word_ptr :: "usize \<Rightarrow> usize option" where
  "word_ptr w = (if w = 0 then None else Some w)"

definition new_list :: "addr \<Rightarrow> 'v lmem \<Rightarrow> 'v lmem" where
  "new_list l m = m\<lparr>llen := (llen m)(l := 0), lcursor := (lcursor m)(l := None), lhead := (lhead m)(l := None)\<rparr>"

text \<open>\<open>heap::pm_new\<close>: a block of the given layout, and the stores that make the object in it.\<close>

definition pm_new_object :: "places \<Rightarrow> layouts \<Rightarrow> Layout \<Rightarrow> (usize \<Rightarrow> (os, unit) prog) \<Rightarrow> (os, usize option) prog" where
  "pm_new_object P L layout place = Read (\<lambda>s. bind (on_mem (palloc (caller_heap P L s) layout)) (\<lambda>ptr.
     seq (case ptr of Some p \<Rightarrow> place p | None \<Rightarrow> Halt) (Return ptr)))"

text \<open>A transaction whose result is a pointer.\<close>

definition run_for_ptr :: "(os, usize option) prog \<Rightarrow> (os, usize option) prog" where
  "run_for_ptr f = bind (transaction_run 4 (bind f (\<lambda>r. Return (le_bytes (ptr_word r)))))
     (\<lambda>bs. Return (word_ptr (get_word ((!) bs) 0)))"

section \<open>Arrays\<close>

text \<open>The kernel's arrays (\<open>src/vec.rs\<close>); an element is read or written at the address. Only reading checks the bound.\<close>

record PArray =
  ka_ptr :: usize
  ka_size :: usize

definition PArray_new :: "usize \<Rightarrow> usize \<Rightarrow> usize \<Rightarrow> (pm, PArray option) prog" where
  "PArray_new heap elem_sz n = bind (palloc_array heap elem_sz n) (\<lambda>ptr. Return (case ptr of
     Some p \<Rightarrow> Some \<lparr>ka_ptr = p, ka_size = n\<rparr> | None \<Rightarrow> None))"

definition PArray_from_ptr :: "usize \<Rightarrow> usize \<Rightarrow> PArray" where
  "PArray_from_ptr p n = \<lparr>ka_ptr = p, ka_size = n\<rparr>"

definition PArray_index :: "usize \<Rightarrow> PArray \<Rightarrow> usize \<Rightarrow> (pm, usize) prog" where
  "PArray_index elem_sz a idx = (if \<not> idx < ka_size a then Fail Panic else Return (ka_ptr a + idx * elem_sz))"

definition PArray_index_mut :: "usize \<Rightarrow> PArray \<Rightarrow> usize \<Rightarrow> (pm, usize) prog" where
  "PArray_index_mut elem_sz a idx = seq (append_log_of (ka_ptr a + idx * elem_sz) elem_sz) (Return (ka_ptr a + idx * elem_sz))"

definition to_byte_array :: "usize \<Rightarrow> PArray \<Rightarrow> PArray" where
  "to_byte_array elem_sz a = \<lparr>ka_ptr = ka_ptr a, ka_size = elem_sz * ka_size a\<rparr>"

section \<open>Queues\<close>

definition Queue_init :: "layouts \<Rightarrow> usize \<Rightarrow> usize \<Rightarrow> usize \<Rightarrow> usize \<Rightarrow> (os, unit) prog" where
  "Queue_init L len item_size buf p = Read (\<lambda>s.
     seq (lift (qsys_at p) (put_qsys p) (on_queue (writes [\<lambda>q. q\<lparr>q_length := unat len\<rparr>, \<lambda>q. q\<lparr>q_item_size := unat item_size\<rparr>,
       \<lambda>q. q\<lparr>read_pos := 0\<rparr>, \<lambda>q. q\<lparr>write_pos := 0\<rparr>, \<lambda>q. q\<lparr>items_enqueued := 0\<rparr>,
       \<lambda>q. q\<lparr>q_buffer := \<lambda>i. os_mem s (buf + of_nat i)\<rparr>, \<lambda>q. q\<lparr>q_tail := unat (item_size * len)\<rparr>,
       \<lambda>q. q\<lparr>blocked_readers := wl_readers L p\<rparr>, \<lambda>q. q\<lparr>blocked_writers := wl_writers L p\<rparr>])))
     (on_sched (on_lists (writes [new_list (wl_readers L p), new_list (wl_writers L p)]))))"

definition Queue_body :: "places \<Rightarrow> layouts \<Rightarrow> usize \<Rightarrow> usize \<Rightarrow> (os, ErrorCode + usize) prog" where
  "Queue_body P L len item_size = Read (\<lambda>s. let heap = caller_heap P L s in
     bind (on_mem (palloc heap (ly_Queue L))) (\<lambda>r. case r of
       None \<Rightarrow> Return (Inl NoSpace)
     | Some p \<Rightarrow> bind (on_mem (PArray_new heap 1 (len * item_size))) (\<lambda>b. case b of
         None \<Rightarrow> Return (Inl NoSpace)
       | Some buf \<Rightarrow> seq (Queue_init L len item_size (ka_ptr buf) p) (Return (Inr p)))))"

definition Queue_new :: "places \<Rightarrow> layouts \<Rightarrow> usize \<Rightarrow> usize \<Rightarrow> (os, usize option) prog" where
  "Queue_new P L len item_size = (if len = 0 then Return None
     else bind (transaction_run 8 (bind (Queue_body P L len item_size) (\<lambda>r. Return (result_bytes (map_sum (\<lambda>e. e) unat r)))))
      (\<lambda>bs. Return (case result_of bs of Inl _ \<Rightarrow> None | Inr p \<Rightarrow> Some (of_nat p))))"

definition queue_create :: "places \<Rightarrow> layouts \<Rightarrow> usize \<Rightarrow> usize \<Rightarrow> (os, usize option) prog" where
  "queue_create P L len item_size = Queue_new P L len item_size"

section \<open>Semaphores and event groups\<close>

definition place_semaphore :: "layouts \<Rightarrow> usize \<Rightarrow> usize \<Rightarrow> (os, unit) prog" where
  "place_semaphore L n p = seq (writes [\<lambda>s. s\<lparr>semaphores := (semaphores s)(p := semaphore_new n (wl_semaphore L p))\<rparr>])
     (on_sched (on_lists (writes [new_list (wl_semaphore L p)])))"

text \<open>The pointer is unwrapped before it is returned.\<close>

definition Semaphore_new :: "places \<Rightarrow> layouts \<Rightarrow> usize \<Rightarrow> (os, usize option) prog" where
  "Semaphore_new P L n = bind (pm_new_object P L (ly_Semaphore L) (place_semaphore L n)) (\<lambda>ptr.
     case ptr of None \<Rightarrow> Fail Panic | Some p \<Rightarrow> Return (Some p))"

definition create_semaphore :: "places \<Rightarrow> layouts \<Rightarrow> usize \<Rightarrow> (os, usize option) prog" where
  "create_semaphore P L n = run_for_ptr (Semaphore_new P L n)"

definition new_from_heap :: "places \<Rightarrow> layouts \<Rightarrow> (os, usize option) prog" where
  "new_from_heap P L = pm_new_object P L (ly_EventGroup L) (\<lambda>p.
     seq (writes [\<lambda>s. s\<lparr>event_groups := (event_groups s)(p := event_group_new (wl_event_group L p))\<rparr>])
       (on_sched (on_lists (writes [new_list (wl_event_group L p)]))))"

definition create_event_group :: "places \<Rightarrow> layouts \<Rightarrow> (os, usize option) prog" where
  "create_event_group P L = run_for_ptr (new_from_heap P L)"

section \<open>Timers\<close>

definition set_timer :: "addr \<Rightarrow> Timer \<Rightarrow> daemon \<Rightarrow> daemon" where
  "set_timer a t d = d\<lparr>d_timers := (d_timers d)(a := t)\<rparr>"

definition new_timer_node :: "addr \<Rightarrow> TimerListItem \<Rightarrow> (daemon, unit) prog" where
  "new_timer_node a v = on_dal (on_al
     (writes [set_prev a None, set_next a None, \<lambda>m. m\<lparr>lvalue := (lvalue m)(a := v)\<rparr>, set_owner a None]))"

definition Timer_new_from_heap :: "places \<Rightarrow> layouts \<Rightarrow> time \<Rightarrow> bool \<Rightarrow> (usize \<Rightarrow> (pm, unit) prog) \<Rightarrow> usize \<Rightarrow> (os, usize option) prog" where
  "Timer_new_from_heap P L period auto cb param = pm_new_object P L (ly_Timer L) (\<lambda>p.
     lift os_daemon (\<lambda>d s. s\<lparr>os_daemon := d\<rparr>) (seq (new_timer_node (unat p) (TimerListItem None 0))
       (writes [set_timer (unat p) \<lparr>period_ticks = period, callback = cb param, call_back_is_closure = False,
          active = False, auto_reload = auto\<rparr>])))"

definition link_timer :: "usize option \<Rightarrow> (os, usize option) prog" where
  "link_timer r = (case r of None \<Rightarrow> Return None
     | Some p \<Rightarrow> seq (lift os_daemon (\<lambda>d s. s\<lparr>os_daemon := d\<rparr>) (on_dal (on_al (writes [\<lambda>m. m\<lparr>lvalue := (lvalue m)(unat p := TimerListItem (Some (unat p)) (expiry_time (lvalue m (unat p))))\<rparr>])))) (Return (Some p)))"

definition create_timer :: "places \<Rightarrow> layouts \<Rightarrow> time \<Rightarrow> bool \<Rightarrow> (usize \<Rightarrow> (pm, unit) prog) \<Rightarrow> usize \<Rightarrow> (os, usize option) prog" where
  "create_timer P L period auto cb param = run_for_ptr (bind (Timer_new_from_heap P L period auto cb param) link_timer)"

text \<open>\<open>runner\<close> is \<open>timer_closure_runner\<close>, which calls the closure at its argument; \<open>f\<close> are the bytes of the closure.\<close>

definition create_timer_with_closure :: "places \<Rightarrow> layouts \<Rightarrow> time \<Rightarrow> bool \<Rightarrow> (usize \<Rightarrow> (pm, unit) prog) \<Rightarrow> usize \<Rightarrow> byte list \<Rightarrow>
    (os, usize option) prog" where
  "create_timer_with_closure P L period auto runner align f = run_for_ptr (Read (\<lambda>s.
     bind (on_mem (pm_new_relaxed (caller_heap P L s) align f)) (\<lambda>boxed. case boxed of
       None \<Rightarrow> Return None
     | Some param \<Rightarrow> bind (Timer_new_from_heap P L period auto runner param) link_timer)))"

definition CMD_QUEUE_SIZE :: usize where
  "CMD_QUEUE_SIZE = 32"

text \<open>The daemon's queue and task, at boot; a message has 12 bytes.\<close>

definition create_daemon_timer_task :: "places \<Rightarrow> layouts \<Rightarrow> usize \<Rightarrow> usize \<Rightarrow> (os, unit) prog" where
  "create_daemon_timer_task P L exit_error daemon_fn = bind (queue_create P L CMD_QUEUE_SIZE 12) (\<lambda>q. case q of
     None \<Rightarrow> Halt
   | Some p \<Rightarrow> seq (writes [\<lambda>s. s\<lparr>os_cmd_queue := Some p\<rparr>])
       (bind (create_task_static P exit_error ''timer daemon'' 1 daemon_fn 0 0) (\<lambda>r. case r of
         Inl _ \<Rightarrow> Halt
       | Inr h \<Rightarrow> writes [\<lambda>s. s\<lparr>os_daemon := (os_daemon s)\<lparr>timer_daemon_created := TASK_ARRAY s h \<noteq> None\<rparr>\<rparr>])))"

section \<open>What a creation does\<close>

lemma pm_of_tx_put [simp]: "pm_of (tx_put u s) = t_pm u"
  by (simp add: pm_of_def)

lemma objects_tx_put [simp]: "queues (tx_put u s) = queues s" "semaphores (tx_put u s) = semaphores s"
    "event_groups (tx_put u s) = event_groups s" "os_daemon (tx_put u s) = os_daemon s" "caller_heap P L (tx_put u s) = caller_heap P L s"
  by (simp_all add: tx_put_def caller_heap_def)

lemma tx_get_objects [simp]:
  "tx_get (s\<lparr>queues := q\<rparr>) = tx_get s" "tx_get (s\<lparr>semaphores := m\<rparr>) = tx_get s" "tx_get (s\<lparr>event_groups := g\<rparr>) = tx_get s"
  "tx_get (s\<lparr>os_daemon := d\<rparr>) = tx_get s" "current_task k = current_task (os_kernel s) \<Longrightarrow> tx_get (s\<lparr>os_kernel := k\<rparr>) = tx_get s"
  by (simp_all add: tx_get_def current_tcb_def)

text \<open>An allocation in a state of the kernel: only the allocator's words and the journal change.\<close>

lemma exec_palloc_room:
  assumes "heap_ok (bump_at heap (pm_of s))" "layout_ok l" "j_tail (pm_of s) + 20 \<le> JOURNAL_SIZE"
    and "room (unat (l_align l) + unat (l_size l)) (bump_at heap (pm_of s))"
  shows "\<exists>p u. exec (on_mem (palloc heap l)) s = Inr (Some p, tx_put ((tx_get s)\<lparr>t_pm := u\<rparr>) s) \<and> j_tail u = j_tail (pm_of s) + 20 \<and>
    allocated heap p l (pm_of s) u \<and> unat p < unat (bump_next (bump_at heap (pm_of s))) + unat (l_align l) \<and>
    (\<forall>x. \<not> in_object x heap 12 \<longrightarrow> pm_mem u x = os_mem s x)"
proof -
  obtain p u where "exec (pm_alloc heap l) (pm_of s) = Inr (p, u)" "j_tail u = j_tail (pm_of s) + 20"
      "p \<noteq> 0" "allocated heap p l (pm_of s) u" "unat p < unat (bump_next (bump_at heap (pm_of s))) + unat (l_align l)"
      "\<forall>x. \<not> in_object x heap 12 \<longrightarrow> pm_mem u x = os_mem s x"
    using pm_alloc_spec [OF assms(1-3)] assms(4) by auto
  then show ?thesis by (intro exI [of _ p] exI [of _ u]) (simp add: palloc_def exec_on_mem exec_bind)
qed

lemma exec_palloc_array_room:
  assumes "heap_ok (bump_at heap (pm_of s))" "unat n < 2 ^ 31" "j_tail (pm_of s) + 20 \<le> JOURNAL_SIZE"
    and "room (1 + unat n) (bump_at heap (pm_of s))"
  shows "\<exists>p u. exec (on_mem (PArray_new heap 1 n)) s = Inr (Some \<lparr>ka_ptr = p, ka_size = n\<rparr>, tx_put ((tx_get s)\<lparr>t_pm := u\<rparr>) s) \<and>
    allocated heap p \<lparr>l_size = n, l_align = 1\<rparr> (pm_of s) u \<and> (\<forall>x. \<not> in_object x heap 12 \<longrightarrow> pm_mem u x = os_mem s x)"
proof -
  have "layout_ok \<lparr>l_size = n, l_align = 1\<rparr>" by (auto simp: layout_ok_def intro: exI [of _ 0])
  then obtain p u where "exec (pm_alloc heap \<lparr>l_size = n, l_align = 1\<rparr>) (pm_of s) = Inr (p, u)"
      "p \<noteq> 0" "allocated heap p \<lparr>l_size = n, l_align = 1\<rparr> (pm_of s) u" "\<forall>x. \<not> in_object x heap 12 \<longrightarrow> pm_mem u x = os_mem s x"
    using pm_alloc_spec [OF assms(1) _ assms(3), of "\<lparr>l_size = n, l_align = 1\<rparr>"] assms(4) by auto
  then show ?thesis using assms(2) by (intro exI [of _ p] exI [of _ u]) (simp add: PArray_new_def palloc_array_def exec_on_mem exec_bind Let_def)
qed

definition new_queue :: "layouts \<Rightarrow> usize \<Rightarrow> usize \<Rightarrow> (usize \<Rightarrow> byte) \<Rightarrow> usize \<Rightarrow> usize \<Rightarrow> queue" where
  "new_queue L len item_size m buf p = \<lparr>q_length = unat len, q_item_size = unat item_size, q_buffer = \<lambda>i. m (buf + of_nat i),
     read_pos = 0, write_pos = 0, q_tail = unat (item_size * len), items_enqueued = 0,
     blocked_readers = wl_readers L p, blocked_writers = wl_writers L p\<rparr>"

definition new_lists :: "addr list \<Rightarrow> kernel \<Rightarrow> kernel" where
  "new_lists ls k = k\<lparr>k_lists := fold new_list ls (k_lists k)\<rparr>"

lemma exec_Queue_init: "exec (Queue_init L len item_size buf p) s = Inr ((),
    s\<lparr>os_kernel := new_lists [wl_readers L p, wl_writers L p] (os_kernel s), queues := (queues s)(p := new_queue L len item_size (os_mem s) buf p)\<rparr>)"
  by (cases "queues s p") (simp add: Queue_init_def exec_seq qsys_part.exec_lift qsys_lift exec_writes on_sched_def os_lift on_lists_def
      lists.exec_lift new_lists_def new_queue_def put_qsys_def, simp add: qsys_at_def)

lemma new_queue_empty:
  assumes "0 < item_size" "0 < len" "unat item_size * unat len < 2 ^ 32"
  shows "represents (new_queue L len item_size m buf p) []"
proof -
  have "unat (item_size * len) = unat item_size * unat len" using assms(3) by (simp add: unat_mult_lem [THEN iffD1])
  moreover have "0 < unat item_size" "0 < unat len" using assms(1,2) by (simp_all add: unat_gt_0 word_neq_0_conv)
  ultimately have "q_holds (new_queue L len item_size m buf p) 0 []" by (simp add: q_holds_def new_queue_def slot_def)
  then show ?thesis by (auto simp: represents_def)
qed

text \<open>The caller's heap has room for a block of the layout and, behind it, for \<open>n\<close> bytes; a transaction can begin.\<close>

definition ready_to_create :: "places \<Rightarrow> layouts \<Rightarrow> Layout \<Rightarrow> nat \<Rightarrow> byte list list \<Rightarrow> os \<Rightarrow> bool" where
  "ready_to_create P L l n rs s \<longleftrightarrow> is_empty (pm_of s) \<and> (\<exists>b. holds rs b (t_cache (tx_get s))) \<and> replayed rs (t_cache (tx_get s)) \<and>
     heap_ok (bump_at (caller_heap P L s) (pm_of s)) \<and> layout_ok l \<and>
     room (unat (l_align l) + unat (l_size l) + n) (bump_at (caller_heap P L s) (pm_of s))"

lemma room_mono: "room n b \<Longrightarrow> k \<le> n \<Longrightarrow> room k b"
  by (simp add: room_def)

lemma Queue_body_step:
  assumes "heap_ok (bump_at heap (pm_of s))" "layout_ok (ly_Queue L)" "caller_heap P L s = heap" "j_tail (pm_of s) = 0"
    and "room (unat (l_align (ly_Queue L)) + unat (l_size (ly_Queue L)) + (1 + unat (len * item_size))) (bump_at heap (pm_of s))"
    and "0 < unat (len * item_size)" "unat (len * item_size) < 2 ^ 31"
  shows "\<exists>p buf u. exec (Queue_body P L len item_size) s = Inr (Inr p, (tx_put ((tx_get s)\<lparr>t_pm := u\<rparr>) s)
      \<lparr>os_kernel := new_lists [wl_readers L p, wl_writers L p] (os_kernel s), queues := (queues s)(p := new_queue L len item_size (pm_mem u) buf p)\<rparr>) \<and>
    bump_next (bump_at heap (pm_of s)) \<le> p \<and> p < bump_next (bump_at heap u) \<and> (\<forall>x. \<not> in_object x heap 12 \<longrightarrow> pm_mem u x = os_mem s x)"
proof -
  let ?l = "ly_Queue L" let ?n = "len * item_size"
  have room1: "room (unat (l_align ?l) + unat (l_size ?l)) (bump_at heap (pm_of s))" by (rule room_mono [OF assms(5)]) simp
  obtain p u where u: "exec (on_mem (palloc heap ?l)) s = Inr (Some p, tx_put ((tx_get s)\<lparr>t_pm := u\<rparr>) s)" "j_tail u = 20"
      "allocated heap p ?l (pm_of s) u" "unat p < unat (bump_next (bump_at heap (pm_of s))) + unat (l_align ?l)"
      "\<forall>x. \<not> in_object x heap 12 \<longrightarrow> pm_mem u x = os_mem s x"
    using exec_palloc_room [OF assms(1,2) _ room1] assms(4) by (auto simp: JOURNAL_SIZE_def)
  define s1 where "s1 = tx_put ((tx_get s)\<lparr>t_pm := u\<rparr>) s"
  have s1: "pm_of s1 = u" "queues s1 = queues s" "os_kernel s1 = os_kernel s" by (simp_all add: s1_def)
  have "room (1 + unat ?n) (bump_at heap u)" using assms(5) u(3,4) by (simp add: room_def allocated_def)
  moreover have "heap_ok (bump_at heap u)" using u(3) by (simp add: allocated_def)
  ultimately obtain buf v where v: "exec (on_mem (PArray_new heap 1 ?n)) s1 = Inr (Some \<lparr>ka_ptr = buf, ka_size = ?n\<rparr>, tx_put ((tx_get s1)\<lparr>t_pm := v\<rparr>) s1)"
      "allocated heap buf \<lparr>l_size = ?n, l_align = 1\<rparr> u v" "\<forall>x. \<not> in_object x heap 12 \<longrightarrow> pm_mem v x = pm_mem u x"
    using exec_palloc_array_room [of heap s1 ?n] s1(1) u(2) assms(7) by (auto simp: JOURNAL_SIZE_def s1_def)
  have s2: "tx_put ((tx_get s1)\<lparr>t_pm := v\<rparr>) s1 = tx_put ((tx_get s)\<lparr>t_pm := v\<rparr>) s" by (simp add: s1_def tx_part.put_put)
  have "exec (Queue_body P L len item_size) s = Inr (Inr p, (tx_put ((tx_get s)\<lparr>t_pm := v\<rparr>) s)
      \<lparr>os_kernel := new_lists [wl_readers L p, wl_writers L p] (os_kernel s), queues := (queues s)(p := new_queue L len item_size (pm_mem v) buf p)\<rparr>)"
    using u(1) v(1) assms(3) exec_Queue_init [of L len item_size buf p "tx_put ((tx_get s)\<lparr>t_pm := v\<rparr>) s"]
    by (simp add: Queue_body_def exec_bind exec_seq s1_def [symmetric] s2 Let_def)
  moreover have "p < bump_next (bump_at heap v)"
    using u(3) v(2) assms(6) by (simp add: allocated_def within_def word_less_nat_alt word_le_nat_alt)
  moreover have "bump_next (bump_at heap (pm_of s)) \<le> p" using u(3) by (simp add: allocated_def within_def)
  ultimately show ?thesis using u(5) v(3) by fastforce
qed

text \<open>Claim C23. Creating a queue on a heap with room for it returns the address of a new block, behind all blocks handed out before;
  the queue there is empty with the given length and item size, its two wait lists are new, and of the persistent
  memory only the allocator has changed.\<close>

theorem queue_create_empty:
  assumes "ready_to_create P L (ly_Queue L) (1 + unat len * unat item_size) rs s" "0 < len" "0 < item_size"
    and "unat len * unat item_size < 2 ^ 31" "\<And>p :: usize. cacheable (rs @ [result_bytes (Inr (unat p))])"
  shows "\<exists>p t. exec (queue_create P L len item_size) s = Inr (Some p, t) \<and> represents (queues t p) [] \<and>
    q_length (queues t p) = unat len \<and> q_item_size (queues t p) = unat item_size \<and> (\<forall>p'. p' \<noteq> p \<longrightarrow> queues t p' = queues s p') \<and>
    bump_next (bump_at (caller_heap P L s) (pm_of s)) \<le> p \<and> p < bump_next (bump_at (caller_heap P L s) (pm_of t)) \<and>
    os_kernel t = new_lists [wl_readers L p, wl_writers L p] (os_kernel s) \<and>
    (\<forall>x. \<not> in_object x (caller_heap P L s) 12 \<longrightarrow> os_mem t x = os_mem s x) \<and> is_empty (pm_of t)"
proof -
  define heap where "heap = caller_heap P L s"
  let ?f = "bind (Queue_body P L len item_size) (\<lambda>r. Return (result_bytes (map_sum (\<lambda>e. e) unat r)))"
  obtain b where b: "holds rs b (t_cache (tx_get s))" "replayed rs (t_cache (tx_get s))" "is_empty (pm_of s)"
    using assms(1) by (auto simp: ready_to_create_def)
  define s0 where "s0 = tx_put ((tx_get s)\<lparr>t_cache := clear_commit_flag (t_cache (tx_get s))\<rparr>) s"
  have s0: "pm_of s0 = pm_of s" "caller_heap P L s0 = heap" "os_mem s0 = os_mem s" "queues s0 = queues s" "os_kernel s0 = os_kernel s"
    by (simp_all add: s0_def pm_of_def heap_def) (simp add: tx_get_def)
  have n: "unat (len * item_size) = unat len * unat item_size" using assms(4) by (simp add: unat_mult_lem [THEN iffD1])
  moreover have "0 < unat len * unat item_size" using assms(2,3) by (simp add: unat_gt_0 word_neq_0_conv)
  ultimately obtain p buf u where u: "exec (Queue_body P L len item_size) s0 = Inr (Inr p, (tx_put ((tx_get s0)\<lparr>t_pm := u\<rparr>) s0)
      \<lparr>os_kernel := new_lists [wl_readers L p, wl_writers L p] (os_kernel s), queues := (queues s)(p := new_queue L len item_size (pm_mem u) buf p)\<rparr>)"
      "bump_next (bump_at heap (pm_of s)) \<le> p" "p < bump_next (bump_at heap u)" "\<forall>x. \<not> in_object x heap 12 \<longrightarrow> pm_mem u x = os_mem s x"
    using Queue_body_step [of heap s0 L P len item_size] s0 assms(1,4) b(3) by (auto simp: ready_to_create_def heap_def is_empty_def)
  define t where "t = (tx_put ((tx_get s0)\<lparr>t_pm := u\<rparr>) s0)
      \<lparr>os_kernel := new_lists [wl_readers L p, wl_writers L p] (os_kernel s), queues := (queues s)(p := new_queue L len item_size (pm_mem u) buf p)\<rparr>"
  have "exec ?f s0 = Inr (result_bytes (Inr (unat p)), t)" using u(1) by (simp add: exec_bind t_def)
  moreover have "t_cache (tx_get t) = clear_commit_flag (t_cache (tx_get s))"
    using s0(5) by (simp add: new_lists_def t_def) (simp add: s0_def)
  ultimately obtain w where w: "exec (transaction_run 8 ?f) s = Inr (result_bytes (Inr (unat p)), tx_put w t)" "pm_mem (t_pm w) = os_mem t" "is_empty (t_pm w)"
    using transaction_run_fresh [OF assms(5) b(1,2)] unfolding s0_def by blast
  then have "exec (queue_create P L len item_size) s = Inr (Some p, tx_put w t)"
    using assms(2) unsigned_less [of p, where ?'a = nat] result_round_trip(1) [of "unat p"]
    by (simp add: queue_create_def Queue_new_def exec_bind)
  moreover have "represents (new_queue L len item_size (pm_mem u) buf p) []"
    using new_queue_empty [OF assms(3,2)] assms(4) by (simp add: mult.commute)
  moreover have "bump_at heap (t_pm w) = bump_at heap u" using w(2) by (simp add: bump_at_def t_def)
  ultimately show ?thesis using w u(2-4) unfolding heap_def [symmetric]
    by (intro exI [of _ p] exI [of _ "tx_put w t"]) (simp add: new_queue_def t_def)
qed

definition demo_layouts :: layouts where
  "demo_layouts = \<lparr>ly_Queue = \<lparr>l_size = 44, l_align = 4\<rparr>, ly_Semaphore = \<lparr>l_size = 32, l_align = 4\<rparr>, ly_EventGroup = \<lparr>l_size = 16, l_align = 4\<rparr>,
     ly_Timer = \<lparr>l_size = 48, l_align = 4\<rparr>, a_BOOT_PM_HEAP = 100, wl_readers = (\<lambda>p. 2 * unat p), wl_writers = (\<lambda>p. 2 * unat p + 1),
     wl_semaphore = (\<lambda>p. 2 * unat p), wl_event_group = (\<lambda>p. 2 * unat p)\<rparr>"

text \<open>At boot, with a heap from 1000 to 1100 of which the first byte is taken.\<close>

definition demo_boot :: os where
  "demo_boot = (demo_os empty_txc)\<lparr>os_mem := pm_mem demo_heap\<rparr>"

lemma demo_boot_facts: "caller_heap demo_places demo_layouts demo_boot = 100" "is_empty (pm_of demo_boot)" "holds [] False (t_cache (tx_get demo_boot))"
    "replayed [] (t_cache (tx_get demo_boot))" "bump_at 100 (pm_of demo_boot) = \<lparr>heap_start = 1000, heap_end = 1100, bump_next = 1001\<rparr>"
proof -
  have "bump_at 100 (pm_of demo_boot) = bump_at 100 demo_heap" by (rule bump_at_cong) (simp add: demo_boot_def)
  then show "bump_at 100 (pm_of demo_boot) = \<lparr>heap_start = 1000, heap_end = 1100, bump_next = 1001\<rparr>" by (simp add: demo_heap_at)
qed (simp_all add: demo_boot_def demo_os_def tx_get_def pm_of_def is_empty_def holds_def replayed_def composite_def flagged_def
    caller_heap_def get_pm_heap_def demo_layouts_def)

lemma layout_ok_4: "layout_ok \<lparr>l_size = n, l_align = 4\<rparr>"
  by (auto simp: layout_ok_def intro: exI [of _ 2])

theorem queue_create_empty_witness:
  "\<exists>p t. exec (queue_create demo_places demo_layouts 2 2) demo_boot = Inr (Some p, t) \<and> represents (queues t p) [] \<and>
    q_length (queues t p) = 2 \<and> 1001 \<le> p"
proof -
  have "ready_to_create demo_places demo_layouts (ly_Queue demo_layouts) (1 + unat (2 :: usize) * unat (2 :: usize)) [] demo_boot"
    unfolding ready_to_create_def demo_boot_facts
    using demo_boot_facts(2-4) layout_ok_4 [of 44] by (auto simp: heap_ok_def room_def demo_layouts_def)
  moreover have "cacheable ([] @ [result_bytes (Inr (unat p))])" for p :: usize
    by (simp add: cacheable_def result_bytes_def TX_CACHE_SZ_def)
  ultimately show ?thesis using queue_create_empty [of demo_places demo_layouts 2 2 "[]" demo_boot] demo_boot_facts(1,5)
    by auto
qed

section \<open>Full heaps\<close>

text \<open>A layout that does not fit into what is left of the heap.\<close>

definition no_room :: "Layout \<Rightarrow> BumpAllocator \<Rightarrow> bool" where
  "no_room l b \<longleftrightarrow> unat (heap_end b) < unat (align_up (bump_next b) (l_align l)) + unat (l_size l)"

lemma palloc_full:
  assumes "no_room l (bump_at heap (pm_of s))" "is_empty (pm_of s)"
  shows "\<exists>u. exec (on_mem (palloc heap l)) s = Inr (None, tx_put ((tx_get s)\<lparr>t_pm := u\<rparr>) s) \<and> pm_mem u = os_mem s"
proof -
  obtain v where v: "exec (append_log_of heap 12) (pm_of s) = Inr ((), v)" "pm_mem v = os_mem s"
    using exec_append_log [of "pm_of s" 12 heap] assms(2) by (auto simp: aligned_12 JOURNAL_SIZE_def is_empty_def)
  have b: "bump_at heap v = bump_at heap (pm_of s)" using v(2) by (simp add: bump_at_def)
  have "exec (per_task_alloc l) (bump_at heap v) = Inr (0, bump_at heap v)"
    using assms(1) by (auto simp: b per_task_alloc_def Let_def checked_add_def no_room_def word_less_nat_alt unat_plus_if')
  then have "exec (palloc heap l) (pm_of s) = Inr (None, v)"
    using v bump_obj.put_get [of heap v] by (simp add: palloc_def pm_alloc_def exec_bind exec_seq bump_obj.exec_lift)
  then show ?thesis using v(2) by (auto simp: exec_on_mem)
qed

lemma transaction_run_fails:
  assumes "cacheable rs" "holds rs b (t_cache (tx_get s))" "replayed rs (t_cache (tx_get s))"
    and "exec f (tx_put ((tx_get s)\<lparr>t_cache := clear_commit_flag (t_cache (tx_get s))\<rparr>) s) = Inl e"
  shows "exec (transaction_run n f) s = Inl e"
proof -
  have "exec (get_current_tx (on_cache (try_retrieve_result n))) s = Inr (Inl (), s)"
    using retrieve_none(1) [OF assms(1-3)] by (simp add: get_current_tx_def tx_part.exec_lift tx_lift tx_part.put_get)
  moreover have "exec (get_current_tx begin_tx) s = Inr ((), tx_put ((tx_get s)\<lparr>t_cache := clear_commit_flag (t_cache (tx_get s))\<rparr>) s)"
    by (simp add: get_current_tx_def tx_part.exec_lift begin_tx_def tx_lift)
  ultimately show ?thesis using assms(4) by (simp add: transaction_run_def exec_bind exec_seq)
qed

text \<open>On a full heap the creation of a semaphore panics, although its result type has a value for this case.\<close>

lemma create_semaphore_full:
  assumes "cacheable rs" "holds rs b (t_cache (tx_get s))" "replayed rs (t_cache (tx_get s))" "is_empty (pm_of s)"
    and "no_room (ly_Semaphore L) (bump_at (caller_heap P L s) (pm_of s))"
  shows "exec (create_semaphore P L n) s = Inl Panic"
proof -
  define s0 where "s0 = tx_put ((tx_get s)\<lparr>t_cache := clear_commit_flag (t_cache (tx_get s))\<rparr>) s"
  have "pm_of s0 = pm_of s" "caller_heap P L s0 = caller_heap P L s" by (simp_all add: s0_def pm_of_def)
  then obtain u where "exec (on_mem (palloc (caller_heap P L s0) (ly_Semaphore L))) s0 = Inr (None, u)"
    using palloc_full [of "ly_Semaphore L" "caller_heap P L s" s0] assms(4,5) by auto
  then have "exec (bind (Semaphore_new P L n) (\<lambda>r. Return (le_bytes (ptr_word r)))) s0 = Inl Panic"
    by (simp add: Semaphore_new_def pm_new_object_def exec_bind exec_seq)
  then show ?thesis using transaction_run_fails [OF assms(1-3), of _ Panic 4]
    by (simp add: create_semaphore_def run_for_ptr_def exec_bind s0_def)
qed

section \<open>New objects\<close>

lemma ptr_round_trip: "p \<noteq> 0 \<Longrightarrow> word_ptr (get_word ((!) (le_bytes (ptr_word (Some p)))) 0) = Some p"
  using join_bytes [of p] by (simp add: word_ptr_def ptr_word_def get_word_def le_bytes_def)

lemma run_for_ptr_fresh:
  assumes "ready_to_create P L l n rs s" "cacheable (rs @ [le_bytes p])" "p \<noteq> 0"
    and "exec f (tx_put ((tx_get s)\<lparr>t_cache := clear_commit_flag (t_cache (tx_get s))\<rparr>) s) = Inr (Some p, t)"
    and "t_cache (tx_get t) = clear_commit_flag (t_cache (tx_get s))"
  shows "\<exists>w. exec (run_for_ptr f) s = Inr (Some p, tx_put w t) \<and> pm_mem (t_pm w) = os_mem t \<and> is_empty (t_pm w)"
proof -
  obtain b where b: "holds rs b (t_cache (tx_get s))" "replayed rs (t_cache (tx_get s))"
    using assms(1) by (auto simp: ready_to_create_def)
  then obtain w where "exec (transaction_run 4 (bind f (\<lambda>r. Return (le_bytes (ptr_word r))))) s = Inr (le_bytes (ptr_word (Some p)), tx_put w t)"
      "pm_mem (t_pm w) = os_mem t" "is_empty (t_pm w)"
    using transaction_run_fresh [OF _ b _ assms(5), of "le_bytes (ptr_word (Some p))" "bind f (\<lambda>r. Return (le_bytes (ptr_word r)))" 4] assms(2,4)
    by (auto simp: exec_bind ptr_word_def)
  then show ?thesis using ptr_round_trip [OF assms(3)] by (intro exI [of _ w]) (simp add: run_for_ptr_def exec_bind)
qed

lemma pm_new_object_step:
  assumes "heap_ok (bump_at (caller_heap P L s) (pm_of s))" "layout_ok l" "is_empty (pm_of s)"
    and "room (unat (l_align l) + unat (l_size l)) (bump_at (caller_heap P L s) (pm_of s))"
  shows "\<exists>p u. p \<noteq> 0 \<and> bump_next (bump_at (caller_heap P L s) (pm_of s)) \<le> p \<and>
    (\<forall>x. \<not> in_object x (caller_heap P L s) 12 \<longrightarrow> pm_mem u x = os_mem s x) \<and>
    (\<forall>place. exec (pm_new_object P L l place) s = exec (seq (place p) (Return (Some p))) (tx_put ((tx_get s)\<lparr>t_pm := u\<rparr>) s))"
proof -
  obtain p u where "exec (on_mem (palloc (caller_heap P L s) l)) s = Inr (Some p, tx_put ((tx_get s)\<lparr>t_pm := u\<rparr>) s)"
      "allocated (caller_heap P L s) p l (pm_of s) u" "\<forall>x. \<not> in_object x (caller_heap P L s) 12 \<longrightarrow> pm_mem u x = os_mem s x"
    using exec_palloc_room [OF assms(1,2) _ assms(4)] assms(3) by (auto simp: is_empty_def JOURNAL_SIZE_def)
  then show ?thesis
    by (intro exI [of _ p] exI [of _ u]) (simp add: pm_new_object_def exec_bind allocated_def within_def)
qed

text \<open>A new timer is not active, not in the active list, and its node names it.\<close>

theorem create_timer_idle:
  assumes "ready_to_create P L (ly_Timer L) 0 rs s" "\<And>p. cacheable (rs @ [le_bytes p])"
  shows "\<exists>p t. exec (create_timer P L period auto cb param) s = Inr (Some p, t) \<and>
    d_timers (os_daemon t) = (d_timers (os_daemon s))(unat p := \<lparr>period_ticks = period, callback = cb param,
      call_back_is_closure = False, active = False, auto_reload = auto\<rparr>) \<and>
    lvalue (al_mem (d_al (os_daemon t))) (unat p) = TimerListItem (Some (unat p)) 0 \<and> lowner (al_mem (d_al (os_daemon t))) (unat p) = None \<and>
    lhead (al_mem (d_al (os_daemon t))) = lhead (al_mem (d_al (os_daemon s))) \<and> os_kernel t = os_kernel s \<and> is_empty (pm_of t)"
proof -
  define s0 where "s0 = tx_put ((tx_get s)\<lparr>t_cache := clear_commit_flag (t_cache (tx_get s))\<rparr>) s"
  have "pm_of s0 = pm_of s" "caller_heap P L s0 = caller_heap P L s" by (simp_all add: s0_def pm_of_def)
  then obtain p u where p: "p \<noteq> 0" "\<forall>place. exec (pm_new_object P L (ly_Timer L) place) s0 = exec (seq (place p) (Return (Some p))) (tx_put ((tx_get s0)\<lparr>t_pm := u\<rparr>) s0)"
    using pm_new_object_step [of P L s0 "ly_Timer L"] assms(1) by (auto simp: ready_to_create_def)
  define s1 where "s1 = tx_put ((tx_get s0)\<lparr>t_pm := u\<rparr>) s0"
  have s1: "os_daemon s1 = os_daemon s" "os_kernel s1 = os_kernel s" "t_cache (tx_get s1) = clear_commit_flag (t_cache (tx_get s))"
    by (simp_all add: s1_def s0_def)
  obtain d where d: "exec (bind (Timer_new_from_heap P L period auto cb param) link_timer) s0 = Inr (Some p, s1\<lparr>os_daemon := d\<rparr>)"
      "d_timers d = (d_timers (os_daemon s))(unat p := \<lparr>period_ticks = period, callback = cb param, call_back_is_closure = False, active = False, auto_reload = auto\<rparr>)"
      "lvalue (al_mem (d_al d)) (unat p) = TimerListItem (Some (unat p)) 0" "lowner (al_mem (d_al d)) (unat p) = None"
      "lhead (al_mem (d_al d)) = lhead (al_mem (d_al (os_daemon s)))"
    using s1(1) p(2) by (simp add: Timer_new_from_heap_def exec_bind exec_seq s1_def [symmetric] daemon_part.exec_lift new_timer_node_def
        daemon_lift exec_writes setters set_timer_def link_timer_def al_lens.exec_lift)
  then obtain w where "exec (create_timer P L period auto cb param) s = Inr (Some p, tx_put w (s1\<lparr>os_daemon := d\<rparr>))" "is_empty (t_pm w)"
    using run_for_ptr_fresh [OF assms(1,2) p(1), of "bind (Timer_new_from_heap P L period auto cb param) link_timer" "s1\<lparr>os_daemon := d\<rparr>"] s1(3)
    by (auto simp: create_timer_def s0_def)
  then show ?thesis using d s1(2) by (intro exI [of _ p] exI [of _ "tx_put w (s1\<lparr>os_daemon := d\<rparr>)"]) simp
qed

end
