(* ===== verification/Frame.thy ===== *)
theory Frame
  imports KObjects
begin

text \<open>
  Frame conditions: what the operations on kernel objects leave alone. Blocking and waking tasks never changes who the
  current task is; that is left to the scheduler. The system calls rest on this.
\<close>

named_theorems keeping

section \<open>What an operation leaves alone\<close>

text \<open>\<open>keeps f p\<close>: a run of \<open>p\<close> that ends has not changed \<open>f\<close>.\<close>

definition keeps :: "('s \<Rightarrow> 'b) \<Rightarrow> ('s, 'a) prog \<Rightarrow> bool" where
  "keeps f p \<longleftrightarrow> (\<forall>s a t. exec p s = Inr (a, t) \<longrightarrow> f t = f s)"

lemma keeps_simps [keeping]: "keeps f (Return a)" "keeps f (Fail e)" "(\<And>s. keeps f (g s)) \<Longrightarrow> keeps f (Read g)"
    "(\<And>s. f (w s) = f s) \<Longrightarrow> keeps f p \<Longrightarrow> keeps f (Write w p)"
  by (auto simp: keeps_def)

lemma keeps_bind [keeping]: "keeps f p \<Longrightarrow> (\<And>a. keeps f (q a)) \<Longrightarrow> keeps f (bind p q)"
  by (auto simp: keeps_def exec_bind split: sum.splits)

lemma keeps_seq [keeping]: "keeps f p \<Longrightarrow> keeps f q \<Longrightarrow> keeps f (seq p q)"
  by (auto simp: keeps_def exec_seq split: sum.splits)

lemma keeps_writes [keeping]: "(\<And>w s. w \<in> set ws \<Longrightarrow> f (w s) = f s) \<Longrightarrow> keeps f (writes ws)"
  by (induction ws) (auto intro!: keeping)

lemma keeps_lift [keeping]: "(\<And>x s. f (put x s) = f s) \<Longrightarrow> keeps f (lift get put p)"
  by (induction p) (auto intro!: keeping)

lemma keeps_if [keeping]: "(b \<Longrightarrow> keeps f p) \<Longrightarrow> (\<not> b \<Longrightarrow> keeps f q) \<Longrightarrow> keeps f (if b then p else q)"
  by simp

lemma keeps_option [keeping]: "keeps f p \<Longrightarrow> (\<And>x. keeps f (q x)) \<Longrightarrow> keeps f (case r of None \<Rightarrow> p | Some x \<Rightarrow> q x)"
  by (cases r) simp_all

lemma keeps_sum [keeping]: "(\<And>x. keeps f (p x)) \<Longrightarrow> (\<And>x. keeps f (q x)) \<Longrightarrow> keeps f (case r of Inl x \<Rightarrow> p x | Inr x \<Rightarrow> q x)"
  by (cases r) simp_all

lemma keeps_outcome [keeping]: "(\<And>x. keeps f (p x)) \<Longrightarrow> (\<And>x. keeps f (q x)) \<Longrightarrow> keeps f (case r of Finished x \<Rightarrow> p x | Yielded x \<Rightarrow> q x)"
  by (cases r) simp_all

text \<open>The same for results: every result of \<open>p\<close> satisfies \<open>P\<close>.\<close>

definition yields :: "('a \<Rightarrow> bool) \<Rightarrow> ('s, 'a) prog \<Rightarrow> bool" where
  "yields P p \<longleftrightarrow> (\<forall>s a t. exec p s = Inr (a, t) \<longrightarrow> P a)"

named_theorems yielding

lemma yields_simps [yielding]: "P a \<Longrightarrow> yields P (Return a)" "yields P (Fail e)" "(\<And>s. yields P (g s)) \<Longrightarrow> yields P (Read g)"
    "yields P p \<Longrightarrow> yields P (Write w p)"
  by (auto simp: yields_def)

lemma yields_bind: "yields Q p \<Longrightarrow> (\<And>a. Q a \<Longrightarrow> yields P (q a)) \<Longrightarrow> yields P (bind p q)"
  unfolding yields_def exec_bind by (fastforce split: sum.splits)

lemma yields_seq [yielding]: "yields P q \<Longrightarrow> yields P (seq p q)"
  by (auto simp: yields_def exec_seq split: sum.splits)

lemma yields_if [yielding]: "(b \<Longrightarrow> yields P p) \<Longrightarrow> (\<not> b \<Longrightarrow> yields P q) \<Longrightarrow> yields P (if b then p else q)"
  by simp

text \<open>An operation on a part of the state keeps what it keeps of the part.\<close>

context lens
begin

lemma keeps_part: "keeps g p \<Longrightarrow> (\<And>x t. f (pt x t) = f t) \<Longrightarrow> keeps (\<lambda>t. (g (gt t), f t)) (lift gt pt p)"
  by (auto simp: keeps_def exec_lift get_put split: sum.splits)

lemma keeps_get: "keeps g p \<Longrightarrow> keeps (\<lambda>t. g (gt t)) (lift gt pt p)"
  by (auto simp: keeps_def exec_lift get_put split: sum.splits)

lemma yields_part: "yields P p \<Longrightarrow> yields P (lift gt pt p)"
  by (auto simp: yields_def exec_lift split: sum.splits)

end

section \<open>The current task\<close>

lemmas task_ops = on_lists_def with_sched_list_def add_to_delayed_list_def remove_from_delayed_list_def add_to_ready_list_def
  remove_from_ready_list_def waitlist_insert_def commit_def invalidate_def Let_def

lemma keeps_current_task [keeping]:
  "keeps current_task (roll_forward_pop_remove_from_waitlist wl)" "keeps current_task (atomic_roll_forward_insert_into_waitlist wl t w)"
  unfolding roll_forward_pop_remove_from_waitlist_def atomic_roll_forward_insert_into_waitlist_def roll_forward_insert_into_waitlist_def task_ops
  by (auto intro!: keeping simp: task_setters log_setters set_wakeup_time_def)

abbreviation q_current :: "qsys \<Rightarrow> tid" where
  "q_current s \<equiv> current_task (qs_k s)"

lemma keeps_queue_pass [keeping]:
  "keeps q_current (queue_send_pass is_back item t w wk)" "keeps q_current (queue_receive_pass n t w wk)"
  unfolding queue_send_pass_def queue_receive_pass_def sleep_on_def wake_one_def on_queue_def on_kernel_def
  by (auto intro!: keeping kernel_part.keeps_get)

text \<open>Also when the caller sleeps, if it is the current task again whenever it wakes.\<close>

lemma keeps_queue_ops:
  assumes "\<And>e s. e \<in> set es \<Longrightarrow> q_current (e s) = q_current s"
  shows "keeps q_current (queue_send_impl es is_back item t w wk)" "keeps q_current (queue_receive es n t w wk)"
  using assms by (induction es arbitrary: w wk) (auto intro!: keeping)

lemma yields_dequeue: "yields (\<lambda>r. \<forall>v. r = Inr v \<longrightarrow> length v = n) (dequeue n)"
  unfolding dequeue_def Let_def by (auto intro!: yielding)

definition item_ok :: "nat \<Rightarrow> (QueueErr + byte list) outcome \<Rightarrow> bool" where
  "item_ok n r \<longleftrightarrow> (\<forall>v. r = Finished (Inr v) \<longrightarrow> length v = n)"

lemma yields_receive: "yields (item_ok n) (queue_receive es n t w wk)"
proof -
  have pass: "yields (item_ok n) (queue_receive_pass n t w wk)" for w wk
    unfolding queue_receive_pass_def on_queue_def
    by (rule yields_bind [OF queue_part.yields_part [OF yields_dequeue]])
      (auto simp: item_ok_def sleep_on_def split: sum.split option.split intro!: yielding)
  show ?thesis
  proof (induction es arbitrary: w wk)
    case (Cons e es)
    show ?case unfolding queue_receive.simps
      by (rule yields_bind [OF pass]) (auto split: outcome.split intro!: yielding Cons.IH)
  qed (simp add: pass)
qed

section \<open>The calling task's transactions\<close>

text \<open>What kernel operations leave alone of the calling task: its replay cache, its user transaction apart from the memory, and
  the generations.\<close>

definition task_frame :: "os \<Rightarrow> bool \<times> tid \<times> rcache \<times> txc \<times> nat \<times> usize \<times> usize" where
  "task_frame s = (let c = current_tcb s; u = user_tx (tc_user_tx c) in (SCHEDULER_STARTED s, current_task (os_kernel s), tc_replay c,
     t_cache u, j_tail (t_pm u), tc_generation c, os_generation s))"

text \<open>\<open>closes p\<close>: a system call's body that starts with an empty journal leaves it empty.\<close>

definition closes :: "(os, 'a) prog \<Rightarrow> bool" where
  "closes p \<longleftrightarrow> (\<forall>s a t. SCHEDULER_STARTED s \<longrightarrow> tc_jtail (current_tcb s) = 0 \<longrightarrow> exec p s = Inr (a, t) \<longrightarrow> tc_jtail (current_tcb t) = 0)"

lemma keeps_qsys:
  assumes "keeps q_current p"
  shows "keeps task_frame (lift (qsys_at q) (put_qsys q) p)" "closes (lift (qsys_at q) (put_qsys q) p)"
proof -
  have "keeps (\<lambda>s. (q_current (qsys_at q s), tcbs s, os_generation s, SCHEDULER_STARTED s)) (lift (qsys_at q) (put_qsys q) p)"
    by (rule qsys_part.keeps_part [OF assms]) (simp add: put_qsys_def)
  then show "keeps task_frame (lift (qsys_at q) (put_qsys q) p)" "closes (lift (qsys_at q) (put_qsys q) p)"
    by (auto simp: task_frame_def keeps_def closes_def qsys_at_def current_tcb_def Let_def)
qed

lemma task_frame_tx_put [simp]: "task_frame (tx_put u s) = task_frame s"
  by (simp add: task_frame_def current_tcb_def tx_put_def Let_def)

lemma keeps_get_current_tx [keeping]: "keeps task_frame (get_current_tx p)" "keeps task_frame (on_mem q)"
  by (auto simp: get_current_tx_def on_mem_def intro!: keeping)

lemma keeps_transaction_run [keeping]: "keeps task_frame f \<Longrightarrow> keeps task_frame (transaction_run n f)"
  unfolding transaction_run_def by (auto intro!: keeping)

lemma tx_get_jtail: "SCHEDULER_STARTED s \<Longrightarrow> j_tail (t_pm (tx_get s)) = tc_jtail (current_tcb s)"
  by (simp add: tx_get_def)

lemma closes_transaction_run:
  assumes "keeps task_frame f"
  shows "closes (transaction_run n f)"
  unfolding closes_def
proof (intro allI impI)
  fix s a t
  assume s: "SCHEDULER_STARTED s" "tc_jtail (current_tcb s) = 0" "exec (transaction_run n f) s = Inr (a, t)"
  have pure: "exec (get_current_tx (on_cache p)) s = Inr (r, v) \<Longrightarrow> j_tail (t_pm (tx_get v)) = j_tail (t_pm (tx_get s))" for p :: "(txc, unit + byte list) prog" and r v
    by (auto simp: get_current_tx_def tx_part.exec_lift tx_lift tx_part.get_put split: sum.splits)
  have "keeps task_frame (transaction_run n f)" by (rule keeps_transaction_run [OF assms])
  then have t: "SCHEDULER_STARTED t" using s(1,3) by (auto simp: keeps_def task_frame_def Let_def)
  have "j_tail (t_pm (tx_get t)) = 0"
    using s pure [of "try_retrieve_result n"] tx_get_jtail [OF s(1)]
    by (auto simp: transaction_run_def exec_bind exec_seq get_current_tx_def commit_tx_def tx_part.exec_lift tx_lift tx_part.get_put clear_def split: sum.splits)
  then show "tc_jtail (current_tcb t) = 0" using tx_get_jtail [OF t] by simp
qed

lemma closes_bind: "closes p \<Longrightarrow> closes (bind p (\<lambda>a. Return (g a)))"
  by (auto simp: closes_def exec_bind split: sum.splits)

lemma keeps_run_for_ptr: "keeps task_frame f \<Longrightarrow> keeps task_frame (run_for_ptr f)" "keeps task_frame f \<Longrightarrow> closes (run_for_ptr f)"
  unfolding run_for_ptr_def by (auto intro!: keeping closes_bind closes_transaction_run)

text \<open>The bodies of the calls that create objects.\<close>

lemma task_frame_objects [simp]:
  "task_frame (s\<lparr>queues := q\<rparr>) = task_frame s" "task_frame (s\<lparr>semaphores := m\<rparr>) = task_frame s" "task_frame (s\<lparr>event_groups := g\<rparr>) = task_frame s"
  "task_frame (s\<lparr>os_daemon := d\<rparr>) = task_frame s" "current_task k = current_task (os_kernel s) \<Longrightarrow> task_frame (s\<lparr>os_kernel := k\<rparr>) = task_frame s"
  by (simp_all add: task_frame_def current_tcb_def Let_def)

lemma keeps_on_sched [keeping]: "keeps current_task p \<Longrightarrow> keeps task_frame (on_sched p)"
proof -
  assume "keeps current_task p"
  then have "keeps (\<lambda>s. (current_task (os_kernel s), tcbs s, os_generation s, SCHEDULER_STARTED s)) (on_sched p)"
    unfolding on_sched_def by (rule sched_part.keeps_part) simp
  then show ?thesis by (auto simp: keeps_def task_frame_def current_tcb_def Let_def)
qed

lemma keeps_on_lists [keeping]: "keeps current_task (on_lists p)"
  unfolding on_lists_def by (auto intro!: keeping)

lemma keeps_creations:
  "keeps task_frame (Queue_body P L len item_size)" "keeps task_frame (Semaphore_new P L n)" "keeps task_frame (new_from_heap P L)"
  "keeps task_frame (bind (Timer_new_from_heap P L period auto cb param) link_timer)"
proof -
  have q: "keeps q_current (on_queue p)" for p :: "(queue, unit) prog" unfolding on_queue_def by (auto intro!: keeping)
  show "keeps task_frame (Queue_body P L len item_size)"
    unfolding Queue_body_def Queue_init_def Let_def by (auto intro!: keeping keeps_qsys q)
  show "keeps task_frame (Semaphore_new P L n)" "keeps task_frame (new_from_heap P L)"
    unfolding Semaphore_new_def new_from_heap_def pm_new_object_def place_semaphore_def by (auto intro!: keeping)
  show "keeps task_frame (bind (Timer_new_from_heap P L period auto cb param) link_timer)"
    unfolding Timer_new_from_heap_def pm_new_object_def link_timer_def by (auto intro!: keeping)
qed

end
