(* ===== verification/SyscallApi.thy ===== *)
theory SyscallApi
  imports Frame
begin

text \<open>
  The system calls as tasks see them (\<open>src/syscalls.rs\<close>, with the entry points of \<open>src/event_group.rs\<close> and the
  mutexes of \<open>src/user/pmutex.rs\<close>). A call inside a user transaction looks for a recorded result first, runs
  its body when there is none, records the result and forgets the kernel transactions of the body. Results are kept as bytes;
  a \<open>codec\<close> says how those of a type are read back. What happens while the caller sleeps, the code at an address
  and the bytes behind a result in memory are arguments.
\<close>

section \<open>The calling task\<close>

text \<open>The transactional part of the current task, as \<open>Syscall\<close> works on it; the memory is the kernel's.\<close>

definition with_mem :: "(usize \<Rightarrow> byte) \<Rightarrow> user_tx_info \<Rightarrow> user_tx_info" where
  "with_mem m u = u\<lparr>user_tx := (user_tx u)\<lparr>t_pm := (t_pm (user_tx u))\<lparr>pm_mem := m\<rparr>\<rparr>\<rparr>"

definition task_get :: "os \<Rightarrow> ptask" where
  "task_get s = (let c = current_tcb s in
     \<lparr>utx = with_mem (os_mem s) (tc_user_tx c), sys_logs = tc_logs c, sys_jtail = tc_jtail c, sys_cache = tc_sys_cache c,
      replay = tc_replay c, p_list_tx_done = list_tx_done (tasks (os_kernel s) (current_task (os_kernel s))),
      p_generation = tc_generation c, p_recovery_mode = tc_recovery_mode c, current_generation = os_generation s\<rparr>)"

definition task_put :: "ptask \<Rightarrow> os \<Rightarrow> os" where
  "task_put p s = (let cur = current_task (os_kernel s); c = current_tcb s; k = os_kernel s in
     s\<lparr>os_mem := task_mem p, os_generation := current_generation p,
       os_kernel := k\<lparr>tasks := (tasks k)(cur := (tasks k cur)\<lparr>list_tx_done := p_list_tx_done p\<rparr>)\<rparr>,
       tcbs := (tcbs s)(cur := c\<lparr>tc_user_tx := with_mem (pm_mem (t_pm (user_tx (tc_user_tx c)))) (utx p),
          tc_logs := sys_logs p, tc_jtail := sys_jtail p, tc_sys_cache := sys_cache p, tc_replay := replay p,
          tc_generation := p_generation p, tc_recovery_mode := p_recovery_mode p\<rparr>)\<rparr>)"

definition on_task :: "(ptask, 'a) prog \<Rightarrow> (os, 'a) prog" where
  "on_task p = lift task_get task_put p"

interpretation task_part: lens task_get task_put
proof
  show "task_get (task_put p s) = p" for p s
    by (cases p, cases "utx p", cases "user_tx (utx p)", cases "t_pm (user_tx (utx p))")
      (simp add: task_get_def task_put_def current_tcb_def with_mem_def Let_def)
  show "task_put p (task_put q s) = task_put p s" for p q s
    by (simp add: task_put_def current_tcb_def with_mem_def Let_def)
  have w: "with_mem (pm_mem (t_pm (user_tx u))) (with_mem m u) = u" for u m by (simp add: with_mem_def)
  show "task_put (task_get s) s = s" for s
    by (cases s, cases "os_kernel s") (simp add: task_get_def task_put_def current_tcb_def Let_def w fun_upd_idem, simp add: with_mem_def)
qed

section \<open>Calls inside a user transaction\<close>

text \<open>\<open>early\<close> is the epilogue of a call that is answered from the replay cache, \<open>late\<close> that of one that has run.\<close>

definition os_call :: "(nat \<Rightarrow> byte) \<Rightarrow> nat \<Rightarrow> (os, unit) prog \<Rightarrow> (os, byte list outcome) prog \<Rightarrow> (os, unit) prog \<Rightarrow> (os, byte list outcome) prog" where
  "os_call beyond n early b late = bind (on_task (on_replay (get_entry n))) (\<lambda>r. case r of
     Inr ret \<Rightarrow> seq early (Return (Finished ret))
   | Inl _ \<Rightarrow> seq (on_task restart_syscall_tx_cache) (bind b (\<lambda>r. case r of
       Yielded w \<Rightarrow> Return (Yielded w)
     | Finished v \<Rightarrow> bind (on_task (syscall_end beyond v)) (\<lambda>v. seq late (Return (Finished v))))))"

definition os_call_noret :: "(os, unit) prog \<Rightarrow> (os, unit) prog \<Rightarrow> (os, unit) prog" where
  "os_call_noret b late = bind (on_task (on_replay get_empty_entry)) (\<lambda>r. case r of
     Inr _ \<Rightarrow> Halt
   | Inl _ \<Rightarrow> seq (on_task restart_syscall_tx_cache) (seq b (seq (on_task syscall_end_noret) late)))"

definition typed_call :: "('a \<Rightarrow> byte list) \<Rightarrow> (byte list \<Rightarrow> 'a) \<Rightarrow> (nat \<Rightarrow> byte) \<Rightarrow> nat \<Rightarrow> (os, 'a outcome) prog \<Rightarrow> (os, 'a outcome) prog" where
  "typed_call to_bytes of_bytes beyond n b = bind (os_call beyond n Halt (bind b (\<lambda>r. Return (map_outcome to_bytes r))) Halt) (\<lambda>r. Return (map_outcome of_bytes r))"

text \<open>A body that does not sleep.\<close>

definition at_once :: "(os, 'a) prog \<Rightarrow> (os, 'a outcome) prog" where
  "at_once b = bind b (\<lambda>v. Return (Finished v))"

section \<open>Results as bytes\<close>

definition word_of :: "byte list \<Rightarrow> nat \<Rightarrow> usize" where
  "word_of bs i = get_word ((!) bs) i"

text \<open>\<open>Option\<close> of a pointer; \<open>Result\<close> of nothing, with the error types as lists of their values; of an item; of event bits.\<close>

definition ptr_bytes :: "usize option \<Rightarrow> byte list" where
  "ptr_bytes r = le_bytes (ptr_word r)"

definition ptr_of :: "byte list \<Rightarrow> usize option" where
  "ptr_of bs = word_ptr (word_of bs 0)"

definition queue_errs :: "QueueErr list" where
  "queue_errs = [NoMemory, InvalidQueueParam, QueueDeleted, QueueFull, QueueEmpty]"

definition timer_errs :: "TimerErr list" where
  "timer_errs = [NoTimerDaemon, CmdQueueBusy]"

definition err_byte :: "'e list \<Rightarrow> 'e \<Rightarrow> byte" where
  "err_byte es e = of_nat (length (takeWhile (\<lambda>x. x \<noteq> e) es))"

definition unit_bytes :: "'e list \<Rightarrow> 'e + unit \<Rightarrow> byte list" where
  "unit_bytes es r = [case r of Inl e \<Rightarrow> err_byte es e | Inr _ \<Rightarrow> of_nat (length es)]"

definition unit_of :: "'e list \<Rightarrow> byte list \<Rightarrow> 'e + unit" where
  "unit_of es bs = (let i = unat (bs ! 0) in if i < length es then Inl (es ! i) else Inr ())"

definition item_bytes :: "nat \<Rightarrow> QueueErr + byte list \<Rightarrow> byte list" where
  "item_bytes n r = (case r of Inl e \<Rightarrow> le_bytes 1 @ err_byte queue_errs e # replicate (n - 1) 0 | Inr v \<Rightarrow> le_bytes 0 @ v)"

definition item_of :: "byte list \<Rightarrow> QueueErr + byte list" where
  "item_of bs = (if word_of bs 0 = 0 then Inr (drop 4 bs) else Inl (queue_errs ! unat (bs ! 4)))"

definition bits_bytes :: "EventBits + EventBits \<Rightarrow> byte list" where
  "bits_bytes r = (case r of Inl v \<Rightarrow> le_bytes 1 @ le_bytes v | Inr v \<Rightarrow> le_bytes 0 @ le_bytes v)"

definition bits_of :: "byte list \<Rightarrow> EventBits + EventBits" where
  "bits_of bs = (if word_of bs 0 = 0 then Inr (word_of bs 4) else Inl (word_of bs 4))"

section \<open>Tasks, queues and allocation\<close>

definition sys_create_task_unsafe :: "(nat \<Rightarrow> byte) \<Rightarrow> places \<Rightarrow> usize \<Rightarrow> string \<Rightarrow> usize \<Rightarrow> usize \<Rightarrow> usize \<Rightarrow> usize \<Rightarrow>
    (os, (ErrorCode + tid) outcome) prog" where
  "sys_create_task_unsafe beyond P exit_error name prio func param pm_heap_sz =
     typed_call result_bytes result_of beyond 8 (at_once (create_task_static P exit_error name prio func param pm_heap_sz))"

definition sys_create_task_custom :: "(nat \<Rightarrow> byte) \<Rightarrow> places \<Rightarrow> usize \<Rightarrow> string \<Rightarrow> usize \<Rightarrow> usize \<Rightarrow> byte list \<Rightarrow> usize \<Rightarrow>
    (os, (ErrorCode + tid) outcome) prog" where
  "sys_create_task_custom beyond P exit_error name prio func param pm_heap_sz = (if length param \<noteq> 4 then Fail Panic
     else typed_call result_bytes result_of beyond 8 (at_once (create_task_static P exit_error name prio func (word_of param 0) pm_heap_sz)))"

definition sys_create_task :: "(nat \<Rightarrow> byte) \<Rightarrow> places \<Rightarrow> usize \<Rightarrow> usize \<Rightarrow> string \<Rightarrow> usize \<Rightarrow> usize \<Rightarrow> byte list \<Rightarrow>
    (os, (ErrorCode + tid) outcome) prog" where
  "sys_create_task beyond P exit_error PM_HEAP_SIZE_PER_TASK name prio func param =
     sys_create_task_custom beyond P exit_error name prio func param PM_HEAP_SIZE_PER_TASK"

text \<open>\<open>env\<close> is what happens until the caller runs again.\<close>

definition sys_task_delay_in_tx :: "(os \<Rightarrow> os) \<Rightarrow> time \<Rightarrow> (os, unit) prog" where
  "sys_task_delay_in_tx env nticks = os_call_noret (on_sched (task_delay nticks)) (writes [env])"

definition sys_task_delay :: "(os \<Rightarrow> os) \<Rightarrow> time \<Rightarrow> (os, unit) prog" where
  "sys_task_delay env nticks = seq (on_sched (task_delay nticks)) (seq (writes [env]) (on_task syscall_end_outside_tx))"

definition sys_yield :: "(os \<Rightarrow> os) \<Rightarrow> (os, unit) prog" where
  "sys_yield env = writes [env]"

definition on_qsys :: "usize \<Rightarrow> (qsys, 'a) prog \<Rightarrow> (os, 'a) prog" where
  "on_qsys q p = lift (qsys_at q) (put_qsys q) p"

definition caller :: "os \<Rightarrow> tid" where
  "caller s = current_task (os_kernel s)"

definition sys_queue_create :: "(nat \<Rightarrow> byte) \<Rightarrow> places \<Rightarrow> layouts \<Rightarrow> usize \<Rightarrow> usize \<Rightarrow> (os, usize option outcome) prog" where
  "sys_queue_create beyond P L len item_size = typed_call ptr_bytes ptr_of beyond 4 (at_once (queue_create P L len item_size))"

definition sys_queue_send_back :: "(nat \<Rightarrow> byte) \<Rightarrow> (qsys \<Rightarrow> qsys) list \<Rightarrow> usize \<Rightarrow> byte list \<Rightarrow> time \<Rightarrow> (os, (QueueErr + unit) outcome) prog" where
  "sys_queue_send_back beyond es q item wait_ticks = typed_call (unit_bytes queue_errs) (unit_of queue_errs) beyond 1
     (Read (\<lambda>s. on_qsys q (queue_send_back es item (caller s) wait_ticks)))"

definition sys_queue_send_front :: "(nat \<Rightarrow> byte) \<Rightarrow> (qsys \<Rightarrow> qsys) list \<Rightarrow> usize \<Rightarrow> byte list \<Rightarrow> time \<Rightarrow> (os, (QueueErr + unit) outcome) prog" where
  "sys_queue_send_front beyond es q item wait_ticks = typed_call (unit_bytes queue_errs) (unit_of queue_errs) beyond 1
     (Read (\<lambda>s. on_qsys q (queue_send_front es item (caller s) wait_ticks)))"

text \<open>The size of the item is that of the handle's type.\<close>

definition sys_queue_receive :: "(nat \<Rightarrow> byte) \<Rightarrow> (qsys \<Rightarrow> qsys) list \<Rightarrow> nat \<Rightarrow> usize \<Rightarrow> time \<Rightarrow> (os, (QueueErr + byte list) outcome) prog" where
  "sys_queue_receive beyond es n q wait_ticks = typed_call (item_bytes n) item_of beyond (4 + n)
     (Read (\<lambda>s. on_qsys q (queue_receive es n (caller s) wait_ticks None)))"

definition sys_palloc_relaxed :: "(nat \<Rightarrow> byte) \<Rightarrow> places \<Rightarrow> layouts \<Rightarrow> usize \<Rightarrow> byte list \<Rightarrow> (os, usize option outcome) prog" where
  "sys_palloc_relaxed beyond P L align x = typed_call ptr_bytes ptr_of beyond 4
     (at_once (run_for_ptr (Read (\<lambda>s. on_mem (pm_new_relaxed (caller_heap P L s) align x)))))"

definition sys_palloc :: "(nat \<Rightarrow> byte) \<Rightarrow> places \<Rightarrow> layouts \<Rightarrow> usize \<Rightarrow> byte list \<Rightarrow> (os, usize option outcome) prog" where
  "sys_palloc beyond P L align x = sys_palloc_relaxed beyond P L align x"

definition sys_palloc_uninit :: "(nat \<Rightarrow> byte) \<Rightarrow> places \<Rightarrow> layouts \<Rightarrow> Layout \<Rightarrow> (os, usize option outcome) prog" where
  "sys_palloc_uninit beyond P L layout = typed_call ptr_bytes ptr_of beyond 4
     (at_once (run_for_ptr (Read (\<lambda>s. on_mem (palloc (caller_heap P L s) layout)))))"

definition sys_palloc_array :: "(nat \<Rightarrow> byte) \<Rightarrow> places \<Rightarrow> layouts \<Rightarrow> usize \<Rightarrow> usize \<Rightarrow> (os, usize option outcome) prog" where
  "sys_palloc_array beyond P L elem_sz n = typed_call ptr_bytes ptr_of beyond 4
     (at_once (run_for_ptr (Read (\<lambda>s. on_mem (palloc_array (caller_heap P L s) elem_sz n)))))"

text \<open>The transactions that free memory have no result to cache.\<close>

definition sys_pfree_array :: "places \<Rightarrow> layouts \<Rightarrow> usize \<Rightarrow> usize \<Rightarrow> usize \<Rightarrow> (os, unit) prog" where
  "sys_pfree_array P L elem_sz ptr n = os_call_noret (bind (transaction_run 0 (Read (\<lambda>s.
     bind (on_mem (pfree_array (caller_heap P L s) elem_sz ptr n)) (\<lambda>_. Return [])))) (\<lambda>_. Halt)) Halt"

definition sys_pfree :: "places \<Rightarrow> layouts \<Rightarrow> usize \<Rightarrow> Layout \<Rightarrow> (os, unit) prog" where
  "sys_pfree P L ptr layout = os_call_noret (bind (transaction_run 0 (Read (\<lambda>s.
     bind (on_mem (pfree (caller_heap P L s) ptr layout)) (\<lambda>_. Return [])))) (\<lambda>_. Halt)) Halt"

definition sys_get_pmem_stat :: "places \<Rightarrow> os \<Rightarrow> MemStat" where
  "sys_get_pmem_stat P s = pm_stat (a_pm_heap P (caller s)) (pm_of s)"

section \<open>Semaphores and mutexes\<close>

definition on_ssys :: "usize \<Rightarrow> (ssys, 'a) prog \<Rightarrow> (os, 'a) prog" where
  "on_ssys q p = lift (ssys_at q) (put_ssys q) p"

definition sys_create_semaphore :: "(nat \<Rightarrow> byte) \<Rightarrow> places \<Rightarrow> layouts \<Rightarrow> usize \<Rightarrow> (os, usize option outcome) prog" where
  "sys_create_semaphore beyond P L n = typed_call ptr_bytes ptr_of beyond 4 (at_once (create_semaphore P L n))"

text \<open>A caller that is still asleep has not left the call.\<close>

definition sys_semaphore_take :: "(ssys \<Rightarrow> ssys) list \<Rightarrow> usize \<Rightarrow> time \<Rightarrow> (os, taken) prog" where
  "sys_semaphore_take es sem wait_ticks = bind (on_ssys sem (semaphore_take es wait_ticks)) (\<lambda>r. case r of
     Asleep w \<Rightarrow> Return (Asleep w)
   | Taken ok \<Rightarrow> seq (on_task syscall_end_outside_tx) (Return (Taken ok)))"

text \<open>\<open>env\<close> is what happens when the caller yields to the task that it woke.\<close>

definition sys_semaphore_give :: "(os \<Rightarrow> os) \<Rightarrow> usize \<Rightarrow> (os, unit) prog" where
  "sys_semaphore_give env sem = bind (on_ssys sem semaphore_give) (\<lambda>yld.
     seq (if yld then writes [env] else Halt) (on_task syscall_end_outside_tx))"

text \<open>\<open>PMutex\<close>: the data is at \<open>inner\<close>. Locking is repeated until the semaphore has been taken; \<open>es\<close> has one list of wake-ups
  for each attempt.\<close>

record PMutex =
  inner :: usize
  semaphore_handle :: usize

definition DEFAULT_MUTEX_WAIT_TIME :: time where
  "DEFAULT_MUTEX_WAIT_TIME = drop_bit 2 (- 1)"

definition PMutex_new :: "(nat \<Rightarrow> byte) \<Rightarrow> places \<Rightarrow> layouts \<Rightarrow> usize \<Rightarrow> (os, PMutex outcome) prog" where
  "PMutex_new beyond P L data = bind (sys_create_semaphore beyond P L 1) (\<lambda>r. case r of
     Yielded w \<Rightarrow> Return (Yielded w)
   | Finished None \<Rightarrow> Fail Panic
   | Finished (Some sem) \<Rightarrow> Return (Finished \<lparr>inner = data, semaphore_handle = sem\<rparr>))"

definition PMutex_try_new :: "(nat \<Rightarrow> byte) \<Rightarrow> places \<Rightarrow> layouts \<Rightarrow> usize \<Rightarrow> (os, (unit + PMutex) outcome) prog" where
  "PMutex_try_new beyond P L data = bind (sys_create_semaphore beyond P L 1) (\<lambda>r. case r of
     Yielded w \<Rightarrow> Return (Yielded w)
   | Finished None \<Rightarrow> Return (Finished (Inl ()))
   | Finished (Some sem) \<Rightarrow> Return (Finished (Inr \<lparr>inner = data, semaphore_handle = sem\<rparr>)))"

primrec sys_lock :: "(ssys \<Rightarrow> ssys) list list \<Rightarrow> PMutex \<Rightarrow> (os, taken) prog" where
  "sys_lock [] m = Return (Taken False)"
| "sys_lock (es # ess) m = bind (sys_semaphore_take es (semaphore_handle m) DEFAULT_MUTEX_WAIT_TIME) (\<lambda>r. case r of
     Taken False \<Rightarrow> sys_lock ess m
   | _ \<Rightarrow> Return r)"

definition mutex_lock :: "(ssys \<Rightarrow> ssys) list list \<Rightarrow> PMutex \<Rightarrow> (os, PMutex option) prog" where
  "mutex_lock ess m = bind (sys_lock ess m) (\<lambda>r. Return (if r = Taken True then Some m else None))"

definition mutex_unlock :: "(os \<Rightarrow> os) \<Rightarrow> PMutex \<Rightarrow> (os, unit) prog" where
  "mutex_unlock env m = sys_semaphore_give env (semaphore_handle m)"

definition guard_drop :: "(os \<Rightarrow> os) \<Rightarrow> PMutex \<Rightarrow> (os, unit) prog" where
  "guard_drop env m = sys_semaphore_give env (semaphore_handle m)"

section \<open>Event groups and timers\<close>

definition on_esys :: "usize \<Rightarrow> (esys, 'a) prog \<Rightarrow> (os, 'a) prog" where
  "on_esys q p = lift (esys_at q) (put_esys q) p"

definition event_group_wait :: "(esys \<Rightarrow> esys) \<Rightarrow> usize \<Rightarrow> EventBits \<Rightarrow> bool \<Rightarrow> bool \<Rightarrow> time \<Rightarrow> (os, EventBits + EventBits) prog" where
  "event_group_wait env eg bits_to_wait_for clear_on_exit wait_for_all_bits wait_ticks =
     on_esys eg (wait_for_event_group_bits env bits_to_wait_for clear_on_exit wait_for_all_bits wait_ticks)"

text \<open>The result says whether to yield.\<close>

definition event_group_set :: "usize \<Rightarrow> EventBits \<Rightarrow> (os, bool) prog" where
  "event_group_set eg bits_to_set = on_esys eg (set_event_group_bits bits_to_set)"

definition event_group_sync :: "(esys \<Rightarrow> esys) \<Rightarrow> usize \<Rightarrow> EventBits \<Rightarrow> EventBits \<Rightarrow> time \<Rightarrow> (os, EventBits + EventBits) prog" where
  "event_group_sync env eg bits_to_set bits_to_wait_for wait_ticks =
     on_esys eg (sync_event_group_bits env bits_to_set bits_to_wait_for wait_ticks)"

definition sys_event_group_create :: "(nat \<Rightarrow> byte) \<Rightarrow> places \<Rightarrow> layouts \<Rightarrow> (os, usize option outcome) prog" where
  "sys_event_group_create beyond P L = typed_call ptr_bytes ptr_of beyond 4 (at_once (create_event_group P L))"

definition reset_value :: "usize \<Rightarrow> (os, unit) prog" where
  "reset_value eg = Read (\<lambda>s. bind (on_esys eg (reset_block_item_value (caller s))) (\<lambda>_. Halt))"

definition sys_event_group_wait :: "(nat \<Rightarrow> byte) \<Rightarrow> (esys \<Rightarrow> esys) \<Rightarrow> usize \<Rightarrow> EventBits \<Rightarrow> bool \<Rightarrow> bool \<Rightarrow> time \<Rightarrow>
    (os, (EventBits + EventBits) outcome) prog" where
  "sys_event_group_wait beyond env eg bits_to_wait_for clear_on_exit wait_for_all_bits wait_ticks =
     bind (os_call beyond 8 (reset_value eg)
         (bind (event_group_wait env eg bits_to_wait_for clear_on_exit wait_for_all_bits wait_ticks) (\<lambda>r. Return (Finished (bits_bytes r))))
         (reset_value eg))
       (\<lambda>r. Return (map_outcome bits_of r))"

definition sys_event_group_set :: "(os \<Rightarrow> os) \<Rightarrow> usize \<Rightarrow> EventBits \<Rightarrow> (os, unit) prog" where
  "sys_event_group_set env eg bits_to_set = os_call_noret (bind (event_group_set eg bits_to_set) (\<lambda>yld. if yld then writes [env] else Halt)) Halt"

definition sys_event_group_sync :: "(nat \<Rightarrow> byte) \<Rightarrow> (esys \<Rightarrow> esys) \<Rightarrow> usize \<Rightarrow> EventBits \<Rightarrow> EventBits \<Rightarrow> time \<Rightarrow>
    (os, (EventBits + EventBits) outcome) prog" where
  "sys_event_group_sync beyond env eg bits_to_set bits_to_wait_for wait_ticks =
     typed_call bits_bytes bits_of beyond 8 (at_once (event_group_sync env eg bits_to_set bits_to_wait_for wait_ticks))"

definition sys_timer_create :: "(nat \<Rightarrow> byte) \<Rightarrow> places \<Rightarrow> layouts \<Rightarrow> time \<Rightarrow> bool \<Rightarrow> (usize \<Rightarrow> (pm, unit) prog) \<Rightarrow> usize \<Rightarrow>
    (os, usize option outcome) prog" where
  "sys_timer_create beyond P L period auto cb param = typed_call ptr_bytes ptr_of beyond 4 (at_once (create_timer P L period auto cb param))"

definition sys_timer_create_with_closure :: "(nat \<Rightarrow> byte) \<Rightarrow> places \<Rightarrow> layouts \<Rightarrow> time \<Rightarrow> bool \<Rightarrow> (usize \<Rightarrow> (pm, unit) prog) \<Rightarrow>
    usize \<Rightarrow> byte list \<Rightarrow> (os, usize option outcome) prog" where
  "sys_timer_create_with_closure beyond P L period auto runner align f =
     typed_call ptr_bytes ptr_of beyond 4 (at_once (create_timer_with_closure P L period auto runner align f))"

text \<open>The daemon's queue and clock, for the calls that send commands; these do not change the daemon.\<close>

definition tsys_at :: "os \<Rightarrow> tsys" where
  "tsys_at s = \<lparr>ts_q = qsys_at (the (os_cmd_queue s)) s, ts_d = (os_daemon s)\<lparr>d_ticks := tick_counter (os_kernel s)\<rparr>,
     timer_cmd_queue = (os_cmd_queue s \<noteq> None)\<rparr>"

definition put_tsys :: "tsys \<Rightarrow> os \<Rightarrow> os" where
  "put_tsys t s = (case os_cmd_queue s of None \<Rightarrow> s | Some q \<Rightarrow> put_qsys q (ts_q t) s)"

definition timer_call :: "(nat \<Rightarrow> byte) \<Rightarrow> (tid \<Rightarrow> (tsys, (TimerErr + unit) outcome) prog) \<Rightarrow> (os, (TimerErr + unit) outcome) prog" where
  "timer_call beyond f = typed_call (unit_bytes timer_errs) (unit_of timer_errs) beyond 1 (Read (\<lambda>s. lift tsys_at put_tsys (f (caller s))))"

definition sys_start_timer :: "(nat \<Rightarrow> byte) \<Rightarrow> (qsys \<Rightarrow> qsys) list \<Rightarrow> addr \<Rightarrow> time \<Rightarrow> (os, (TimerErr + unit) outcome) prog" where
  "sys_start_timer beyond es timer wait_ticks = timer_call beyond (\<lambda>t. start_timer es t timer wait_ticks)"

definition sys_reset_timer :: "(nat \<Rightarrow> byte) \<Rightarrow> (qsys \<Rightarrow> qsys) list \<Rightarrow> addr \<Rightarrow> time \<Rightarrow> (os, (TimerErr + unit) outcome) prog" where
  "sys_reset_timer beyond es timer wait_ticks = timer_call beyond (\<lambda>t. reset_timer es t timer wait_ticks)"

definition sys_delete_timer :: "(nat \<Rightarrow> byte) \<Rightarrow> (qsys \<Rightarrow> qsys) list \<Rightarrow> addr \<Rightarrow> time \<Rightarrow> (os, (TimerErr + unit) outcome) prog" where
  "sys_delete_timer beyond es timer wait_ticks = timer_call beyond (\<lambda>t. delete_timer es t timer wait_ticks)"

definition sys_change_timer_period :: "(nat \<Rightarrow> byte) \<Rightarrow> (qsys \<Rightarrow> qsys) list \<Rightarrow> addr \<Rightarrow> time \<Rightarrow> time \<Rightarrow> (os, (TimerErr + unit) outcome) prog" where
  "sys_change_timer_period beyond es timer new_period wait_ticks = timer_call beyond (\<lambda>t. change_timer_period es t timer new_period wait_ticks)"

definition sys_stop_timer :: "(nat \<Rightarrow> byte) \<Rightarrow> (qsys \<Rightarrow> qsys) list \<Rightarrow> addr \<Rightarrow> time \<Rightarrow> (os, (TimerErr + unit) outcome) prog" where
  "sys_stop_timer beyond es timer wait_ticks = timer_call beyond (\<lambda>t. stop_timer es t timer wait_ticks)"

definition sys_get_time :: "(nat \<Rightarrow> byte) \<Rightarrow> (os, time outcome) prog" where
  "sys_get_time beyond = typed_call le_bytes (\<lambda>bs. word_of bs 0) beyond 4 (at_once (Read (\<lambda>s. Return (get_time (tsys_at s)))))"

definition sys_get_time_out_of_tx :: "os \<Rightarrow> time" where
  "sys_get_time_out_of_tx s = get_time (tsys_at s)"

section \<open>Codecs\<close>

text \<open>What a call needs of the representation of its results; \<open>ok\<close> are the values it returns.\<close>

locale codec =
  fixes to_bytes :: "'a \<Rightarrow> byte list" and of_bytes :: "byte list \<Rightarrow> 'a" and n :: nat and ok :: "'a \<Rightarrow> bool"
  assumes length_bytes: "ok v \<Longrightarrow> length (to_bytes v) = n"
    and round_trip: "ok v \<Longrightarrow> of_bytes (to_bytes v) = v"
begin

text \<open>A call whose recorded result comes next returns it and leaves everything but the replay position alone.\<close>

lemma typed_replay:
  assumes "recorded (ps @ to_bytes v # qs) (replay (task_get s))" "recordable (ps @ to_bytes v # qs)" "r_ptr (replay (task_get s)) = span ps" "ok v"
  shows "exec (typed_call to_bytes of_bytes beyond n b) s =
    Inr (Finished v, task_put ((task_get s)\<lparr>replay := (replay (task_get s))\<lparr>r_ptr := span (ps @ [to_bytes v])\<rparr>\<rparr>) s)"
  using get_entry_spec [OF assms(1-3)] length_bytes [OF assms(4)] round_trip [OF assms(4)]
  by (simp add: typed_call_def os_call_def exec_bind exec_seq on_task_def task_part.exec_lift task_lift)

end

lemma word_of_bytes [simp]: "word_of (le_bytes a @ bs) 0 = a" "word_of (le_bytes a) 0 = a" "word_of (le_bytes a @ le_bytes b) 4 = b"
  using join_bytes [of a] join_bytes [of b] by (simp_all add: word_of_def get_word_def le_bytes_def)

interpretation ptr_codec: codec ptr_bytes ptr_of 4 "\<lambda>r. r \<noteq> Some 0"
  by unfold_locales (auto simp: ptr_bytes_def ptr_of_def ptr_word_def word_ptr_def split: option.splits)

interpretation time_codec: codec le_bytes "\<lambda>bs. word_of bs 0" 4 "\<lambda>_. True"
  by unfold_locales simp_all

interpretation bits_codec: codec bits_bytes bits_of 8 "\<lambda>_. True"
  by unfold_locales (auto simp: bits_bytes_def bits_of_def split: sum.splits)

interpretation handle_codec: codec result_bytes result_of 8 "\<lambda>r. \<forall>t. r = Inr t \<longrightarrow> t < 2 ^ 32"
proof
  fix r :: "ErrorCode + tid" assume ok: "\<forall>t. r = Inr t \<longrightarrow> t < 2 ^ 32"
  show "length (result_bytes r) = 8" by (cases r) (simp_all add: result_bytes_def)
  show "result_of (result_bytes r) = r" using ok by (cases r) (simp_all add: result_round_trip)
qed

lemma err_byte_nth:
  assumes "e \<in> set es" "length es < 256"
  shows "unat (err_byte es e) < length es" "es ! unat (err_byte es e) = e"
proof -
  have "length (takeWhile (\<lambda>x. x \<noteq> e) es) < length es"
    using assms(1) by (induction es) auto
  moreover from this have "unat (err_byte es e) = length (takeWhile (\<lambda>x. x \<noteq> e) es)"
    using assms(2) by (simp add: err_byte_def unat_of_nat)
  ultimately show "unat (err_byte es e) < length es" "es ! unat (err_byte es e) = e"
    using nth_length_takeWhile [of "\<lambda>x. x \<noteq> e" es] by simp_all
qed

lemma unit_round_trip: "(\<And>e. e \<in> set es) \<Longrightarrow> length es < 256 \<Longrightarrow> unit_of es (unit_bytes es r) = r"
  by (auto simp: unit_of_def unit_bytes_def err_byte_nth Let_def unat_of_nat split: sum.split)

lemma all_errs: "e \<in> set queue_errs" "e' \<in> set timer_errs"
  by (cases e; simp add: queue_errs_def) (cases e'; simp add: timer_errs_def)

interpretation sent_codec: codec "unit_bytes queue_errs" "unit_of queue_errs" 1 "\<lambda>_. True"
proof
  show "unit_of queue_errs (unit_bytes queue_errs v) = v" for v
    using unit_round_trip [of queue_errs] all_errs(1) by (simp add: queue_errs_def)
qed (simp add: unit_bytes_def)

interpretation command_codec: codec "unit_bytes timer_errs" "unit_of timer_errs" 1 "\<lambda>_. True"
proof
  show "unit_of timer_errs (unit_bytes timer_errs v) = v" for v
    using unit_round_trip [of timer_errs] all_errs(2) by (simp add: timer_errs_def)
qed (simp add: unit_bytes_def)

interpretation item_codec: codec "item_bytes n" item_of "4 + n" "\<lambda>r. 0 < n \<and> (\<forall>v. r = Inr v \<longrightarrow> length v = n)" for n
proof
  fix r :: "QueueErr + byte list" assume r: "0 < n \<and> (\<forall>v. r = Inr v \<longrightarrow> length v = n)"
  show "length (item_bytes n r) = 4 + n" using r by (auto simp: item_bytes_def split: sum.split)
  have "length queue_errs < 256" by (simp add: queue_errs_def)
  then show "item_of (item_bytes n r) = r" using err_byte_nth(2) [OF all_errs(1)]
    by (auto simp: item_bytes_def item_of_def nth_append split: sum.split)
qed

section \<open>Completed calls take effect once\<close>

text \<open>The code of a user transaction as its calls, each of which may depend on the results so far.\<close>

record call =
  call_size :: nat
  call_body :: "(os, byte list outcome) prog"
  call_late :: "(os, unit) prog"

datatype client = Done | Call call "byte list \<Rightarrow> client"

text \<open>The first \<open>k\<close> calls, with their results; a call that is asleep ends the list.\<close>

fun run_client :: "(nat \<Rightarrow> byte) \<Rightarrow> nat \<Rightarrow> client \<Rightarrow> (os, byte list list) prog" where
  "run_client beyond 0 cl = Return []"
| "run_client beyond (Suc k) Done = Return []"
| "run_client beyond (Suc k) (Call c f) = bind (os_call beyond (call_size c) Halt (call_body c) (call_late c)) (\<lambda>r. case r of
     Yielded w \<Rightarrow> Return []
   | Finished v \<Rightarrow> bind (run_client beyond k (f v)) (\<lambda>vs. Return (v # vs)))"

text \<open>A power failure, the recovery of the task when it is next switched to, and the start of its user transaction.\<close>

definition restart_user_tx :: "(os, unit) prog" where
  "restart_user_tx = seq (on_task (writes [increase_generation])) (seq (on_task jit_recovery)
     (seq (on_task user_tx_start) (on_task (on_utx (on_user_tx begin_tx)))))"

text \<open>Each number says after how many calls the next power failure comes.\<close>

primrec failures :: "(nat \<Rightarrow> byte) \<Rightarrow> nat list \<Rightarrow> client \<Rightarrow> (os, unit) prog" where
  "failures beyond [] cl = restart_user_tx"
| "failures beyond (j # js) cl = seq restart_user_tx (bind (run_client beyond j cl) (\<lambda>_. failures beyond js cl))"

text \<open>The task between two calls with the results \<open>rs\<close>: nothing is open, and its list transaction is not marked.\<close>

definition between_calls :: "byte list list \<Rightarrow> ptask \<Rightarrow> bool" where
  "between_calls rs p \<longleftrightarrow> recorded rs (replay p) \<and> recordable rs \<and> at_rest p \<and> commit_reset_tail (sys_cache p) = sys_cache p \<and>
     \<not> p_list_tx_done p \<and> p_generation p = current_generation p"

fun follows :: "client \<Rightarrow> byte list list \<Rightarrow> bool" where
  "follows cl [] \<longleftrightarrow> True"
| "follows Done (r # rs) \<longleftrightarrow> False"
| "follows (Call c f) (r # rs) \<longleftrightarrow> length r = call_size c \<and> follows (f r) rs"

lemma replay_run:
  "recorded (ps @ qs) (replay (task_get s)) \<Longrightarrow> recordable (ps @ qs) \<Longrightarrow> r_ptr (replay (task_get s)) = span ps \<Longrightarrow> follows cl qs \<Longrightarrow> k \<le> length qs \<Longrightarrow>
   exec (run_client beyond k cl) s = Inr (take k qs, task_put ((task_get s)\<lparr>replay := (replay (task_get s))\<lparr>r_ptr := span (ps @ take k qs)\<rparr>\<rparr>) s)"
proof (induction k arbitrary: ps qs s cl)
  case 0
  have "(replay (task_get s))\<lparr>r_ptr := span ps\<rparr> = replay (task_get s)" using 0 by (cases "replay (task_get s)") simp
  then have "(task_get s)\<lparr>replay := (replay (task_get s))\<lparr>r_ptr := span ps\<rparr>\<rparr> = task_get s" by simp
  then show ?case by (simp add: task_part.put_get)
next
  case (Suc k)
  then obtain r qs' c f where qs: "qs = r # qs'" "cl = Call c f" "length r = call_size c" "follows (f r) qs'"
    by (cases qs; cases cl) auto
  let ?s = "task_put ((task_get s)\<lparr>replay := (replay (task_get s))\<lparr>r_ptr := span (ps @ [r])\<rparr>\<rparr>) s"
  have "exec (os_call beyond (call_size c) Halt (call_body c) (call_late c)) s = Inr (Finished r, ?s)"
    using get_entry_spec [of ps r qs' "replay (task_get s)"] Suc.prems qs
    by (simp add: os_call_def exec_bind exec_seq on_task_def task_part.exec_lift task_lift)
  moreover have "exec (run_client beyond k (f r)) ?s = Inr (take k qs', task_put ((task_get ?s)\<lparr>replay := (replay (task_get ?s))\<lparr>r_ptr := span ((ps @ [r]) @ take k qs')\<rparr>\<rparr>) ?s)"
    using Suc.prems qs by (intro Suc.IH) (simp_all add: task_part.get_put recorded_def)
  ultimately show ?case by (simp add: qs exec_bind task_part.get_put task_part.put_put)
qed

text \<open>Restarting between two calls: only the replay position and the marks of the recovery change.\<close>

definition restarted :: "ptask \<Rightarrow> ptask" where
  "restarted p = (let q = recovered_task (increase_generation p) in
     q\<lparr>replay := replay_restart (replay p), utx := (utx q)\<lparr>user_tx := (user_tx (utx q))\<lparr>t_cache := clear_commit_flag (t_cache (user_tx (utx q)))\<rparr>\<rparr>\<rparr>)"

lemma exec_restart_user_tx:
  assumes "between_calls rs (task_get s)"
  shows "exec restart_user_tx s = Inr ((), task_put (restarted (task_get s)) s)"
proof -
  let ?p = "task_get s" let ?q = "increase_generation ?p"
  have "is_crashed ?q" "at_rest ?q" using assms by (simp_all add: between_calls_def increase_generation_def is_crashed_def at_rest_def)
  then have "exec jit_recovery ?q = Inr ((), recovered_task ?q)" by (rule jit_recovery_at_rest)
  moreover have "replay (recovered_task ?q) = replay ?p" by (simp add: recovered_task_def increase_generation_def Let_def)
  ultimately show ?thesis
    by (simp add: restart_user_tx_def exec_seq on_task_def task_part.exec_lift task_part.get_put task_part.put_put user_tx_start_def task_lift user_lift
        begin_tx_def tx_lift restarted_def Let_def)
qed

lemma between_restarted:
  assumes "between_calls rs p"
  shows "between_calls rs (restarted p)" "task_mem (restarted p) = task_mem p" "p_list_tx_done (restarted p) = p_list_tx_done p"
    "sys_cache (restarted p) = sys_cache p" "r_ptr (replay (restarted p)) = 0"
proof -
  have c: "\<not> is_committed (clear_commit_flag (reset_ptr c))" "tx_id (c_ptr (clear_commit_flag (reset_ptr c))) = 0" for c
    by (simp_all add: is_committed_def clear_commit_flag_def reset_ptr_def tx_id_def and.assoc bit.conj_cancel_left) (simp add: TX_COMMITTED_def)
  then show "between_calls rs (restarted p)" using assms
    by (simp add: between_calls_def restarted_def recovered_task_def increase_generation_def Let_def at_rest_def recorded_def
        replay_restart_def)
  show "task_mem (restarted p) = task_mem p" "p_list_tx_done (restarted p) = p_list_tx_done p"
    "sys_cache (restarted p) = sys_cache p" "r_ptr (replay (restarted p)) = 0"
    using assms by (simp_all add: between_calls_def restarted_def recovered_task_def increase_generation_def Let_def replay_restart_def)
qed

text \<open>What stays the same when only the replay cache and the marks of the task have changed.\<close>

definition same_objects :: "os \<Rightarrow> os \<Rightarrow> bool" where
  "same_objects s t \<longleftrightarrow> os_kernel t = os_kernel s \<and> os_mem t = os_mem s \<and> queues t = queues s \<and> semaphores t = semaphores s \<and>
     event_groups t = event_groups s \<and> os_daemon t = os_daemon s \<and> TASK_ARRAY t = TASK_ARRAY s \<and> os_stacks t = os_stacks s"

lemma same_task_put:
  assumes "task_mem p = os_mem s" "p_list_tx_done p = p_list_tx_done (task_get s)"
  shows "same_objects s (task_put p s)"
proof -
  have "tasks k = (tasks k)(c := (tasks k c)\<lparr>list_tx_done := list_tx_done (tasks k c)\<rparr>)" for k :: kernel and c by simp
  then show ?thesis using assms by (cases "os_kernel s") (simp add: same_objects_def task_put_def task_get_def Let_def)
qed

lemma task_get_mem [simp]: "task_mem (task_get s) = os_mem s"
  by (simp add: task_get_def Let_def with_mem_def)

lemma task_put_mem [simp]: "os_mem (task_put p s) = task_mem p"
  by (simp add: task_put_def Let_def)

lemma task_put_started [simp]: "SCHEDULER_STARTED (task_put p s) = SCHEDULER_STARTED s"
  by (simp add: task_put_def Let_def)

lemma failures_spec:
  "between_calls rs (task_get s) \<Longrightarrow> follows cl rs \<Longrightarrow> \<forall>j\<in>set js. j \<le> length rs \<Longrightarrow>
   \<exists>p. exec (failures beyond js cl) s = Inr ((), task_put p s) \<and> between_calls rs p \<and> r_ptr (replay p) = 0 \<and>
     task_mem p = os_mem s \<and> p_list_tx_done p = p_list_tx_done (task_get s)"
proof (induction js arbitrary: s)
  case Nil
  then show ?case using exec_restart_user_tx [OF Nil.prems(1)] between_restarted [OF Nil.prems(1)]
    by (intro exI [of _ "restarted (task_get s)"]) simp
next
  case (Cons j js)
  let ?p = "restarted (task_get s)"
  let ?q = "?p\<lparr>replay := (replay ?p)\<lparr>r_ptr := span (take j rs)\<rparr>\<rparr>"
  note p = between_restarted [OF Cons.prems(1)]
  have "exec (run_client beyond j cl) (task_put ?p s) = Inr (take j rs, task_put ?q s)"
    using replay_run [of "[]" rs "task_put ?p s" cl j] p(1,5) Cons.prems(2,3) by (simp add: task_part.get_put task_part.put_put between_calls_def)
  then have "exec (failures beyond (j # js) cl) s = exec (failures beyond js cl) (task_put ?q s)"
    using exec_restart_user_tx [OF Cons.prems(1)] by (simp add: exec_seq exec_bind)
  moreover have "between_calls rs ?q" using p(1) by (simp add: between_calls_def recorded_def at_rest_def)
  moreover from this obtain p where "exec (failures beyond js cl) (task_put ?q s) = Inr ((), task_put p s)" "between_calls rs p"
      "r_ptr (replay p) = 0" "task_mem p = os_mem s" "p_list_tx_done p = p_list_tx_done (task_get s)"
    using Cons.IH [of "task_put ?q s"] Cons.prems(2,3) p(2,3) by (auto simp: task_part.get_put task_part.put_put)
  ultimately show ?case by (intro exI [of _ p]) simp
qed

text \<open>A call that behaves: when it returns, its result has the size of its type, and of the calling task's transactional part
  only the memory, the kernel transaction's journal and its cache have changed; the journal is empty.\<close>

definition keeps_task :: "ptask \<Rightarrow> ptask \<Rightarrow> bool" where
  "keeps_task p q \<longleftrightarrow> replay q = replay p \<and> t_cache (user_tx (utx q)) = t_cache (user_tx (utx p)) \<and>
     j_tail (t_pm (user_tx (utx q))) = j_tail (t_pm (user_tx (utx p))) \<and> sys_jtail q = 0 \<and>
     p_generation q = p_generation p \<and> current_generation q = current_generation p"

definition call_ok :: "call \<Rightarrow> bool" where
  "call_ok c \<longleftrightarrow> call_late c = Halt \<and> (\<forall>s r t. SCHEDULER_STARTED s \<longrightarrow> sys_jtail (task_get s) = 0 \<longrightarrow>
     exec (call_body c) s = Inr (Finished r, t) \<longrightarrow> length r = call_size c \<and> SCHEDULER_STARTED t \<and> keeps_task (task_get s) (task_get t))"

primrec calls_ok :: "client \<Rightarrow> bool" where
  "calls_ok Done \<longleftrightarrow> True"
| "calls_ok (Call c f) \<longleftrightarrow> call_ok c \<and> (\<forall>r. calls_ok (f r))"

lemma at_rest_keeps: "at_rest p \<Longrightarrow> keeps_task p q \<Longrightarrow> at_rest q"
  by (simp add: at_rest_def keeps_task_def)

text \<open>A call that runs.\<close>

lemma exec_syscall_end:
  assumes "recorded ps (replay p)" "recordable (ps @ [r])"
  shows "\<exists>c. exec (syscall_end beyond r) p = Inr (r, p\<lparr>replay := add_entry_commit c, sys_cache := commit_reset_tail (sys_cache p), p_list_tx_done := False\<rparr>) \<and>
    recorded (ps @ [r]) c"
proof -
  obtain c where "exec (add_entry_start beyond r) (replay p) = Inr ((), c)" "recorded (ps @ [r]) c"
    using add_entry_spec [OF assms] by blast
  then show ?thesis
    by (intro exI [of _ c]) (simp add: syscall_end_def exec_seq task_lift commit_syscall_tx_cache_def reset_list_tx_def tx_lift sys_view_def sys_put_def)
qed

lemma syscall_end_result: "exec (on_task (syscall_end beyond v)) s = Inr (r, t) \<Longrightarrow> r = v"
  by (auto simp: on_task_def task_part.exec_lift syscall_end_def exec_seq split: sum.splits)

lemma fresh_call:
  assumes "between_calls ps (task_get s)" "r_ptr (replay (task_get s)) = r_tail (replay (task_get s))" "calls_ok (Call c f)"
    and "exec (os_call beyond (call_size c) Halt (call_body c) (call_late c)) s = Inr (Finished r, t)" "recordable (ps @ [r])" "SCHEDULER_STARTED s"
  shows "length r = call_size c" "between_calls (ps @ [r]) (task_get t)" "r_ptr (replay (task_get t)) = r_tail (replay (task_get t))" "SCHEDULER_STARTED t"
proof -
  define s1 where "s1 = task_put ((task_get s)\<lparr>sys_cache := reset_ptr (sys_cache (task_get s))\<rparr>) s"
  have p1: "task_get s1 = (task_get s)\<lparr>sys_cache := reset_ptr (sys_cache (task_get s))\<rparr>" by (simp add: s1_def task_part.get_put)
  have g: "exec (on_task (on_replay (get_entry n))) s = Inr (Inl (), s)" for n
    using assms(2) by (simp add: on_task_def task_part.exec_lift task_lift get_entry_def task_part.put_get)
  have "exec (on_task restart_syscall_tx_cache) s = Inr ((), s1)"
    by (simp add: on_task_def task_part.exec_lift restart_syscall_tx_cache_def task_lift tx_lift sys_view_def sys_put_def s1_def)
  then obtain v t1 where "exec (call_body c) s1 = Inr (Finished v, t1)" "exec (on_task (syscall_end beyond v)) t1 = Inr (r, t)"
    using assms(3,4) g [of "call_size c"] by (auto simp: call_ok_def os_call_def exec_bind exec_seq split: sum.splits outcome.splits)
  then have t1: "exec (call_body c) s1 = Inr (Finished r, t1)" "exec (on_task (syscall_end beyond r)) t1 = Inr (r, t)"
    using syscall_end_result by blast+
  have "sys_jtail (task_get s1) = 0" using assms(1) p1 by (simp add: between_calls_def at_rest_def)
  moreover have "SCHEDULER_STARTED s1" using assms(6) by (simp add: s1_def)
  ultimately have k: "length r = call_size c" "keeps_task (task_get s1) (task_get t1)" "SCHEDULER_STARTED t1"
    using assms(3) t1(1) unfolding calls_ok.simps call_ok_def by blast+
  have rep: "recorded ps (replay (task_get t1))" using k(2) p1 assms(1) by (simp add: keeps_task_def between_calls_def)
  from exec_syscall_end [OF this assms(5), of beyond] obtain d where
    d: "task_get t = (task_get t1)\<lparr>replay := add_entry_commit d, sys_cache := commit_reset_tail (sys_cache (task_get t1)), p_list_tx_done := False\<rparr>"
      "recorded (ps @ [r]) d"
    using t1(2) by (auto simp: on_task_def task_part.exec_lift task_part.get_put)
  have "at_rest (task_get t1)" using at_rest_keeps [OF _ k(2)] assms(1) p1 by (simp add: between_calls_def at_rest_def)
  then show "between_calls (ps @ [r]) (task_get t)"
    using d assms(1,5) k(2) p1 by (simp add: between_calls_def at_rest_def recorded_def add_entry_commit_def commit_reset_tail_def keeps_task_def)
  show "length r = call_size c" "r_ptr (replay (task_get t)) = r_tail (replay (task_get t))" using k(1) d(1) by (simp_all add: add_entry_commit_def)
  show "SCHEDULER_STARTED t" using t1(2) k(3) by (auto simp: on_task_def task_part.exec_lift split: sum.splits)
qed

lemma recordable_prefix: "recordable (ps @ qs) \<Longrightarrow> recordable ps"
  by (simp add: recordable_def)

lemma fresh_run:
  "between_calls ps (task_get s) \<Longrightarrow> r_ptr (replay (task_get s)) = r_tail (replay (task_get s)) \<Longrightarrow> calls_ok cl \<Longrightarrow>
   exec (run_client beyond k cl) s = Inr (rs, t) \<Longrightarrow> recordable (ps @ rs) \<Longrightarrow> length rs = k \<Longrightarrow> SCHEDULER_STARTED s \<Longrightarrow>
   between_calls (ps @ rs) (task_get t) \<and> follows cl rs"
proof (induction k arbitrary: ps s cl rs)
  case 0
  then show ?case by simp
next
  case (Suc k)
  then obtain c f where cl: "cl = Call c f" by (cases cl) auto
  obtain r s1 rs' where r: "exec (os_call beyond (call_size c) Halt (call_body c) (call_late c)) s = Inr (Finished r, s1)"
      "exec (run_client beyond k (f r)) s1 = Inr (rs', t)" "rs = r # rs'"
    using Suc.prems(4,6) by (auto simp: cl exec_bind split: sum.splits outcome.splits)
  have "recordable (ps @ [r])" using recordable_prefix [of "ps @ [r]" rs'] Suc.prems(5) by (simp add: r(3))
  from fresh_call [OF Suc.prems(1,2) Suc.prems(3) [unfolded cl] r(1) this Suc.prems(7)] Suc.IH [of "ps @ [r]" s1 "f r" rs'] r(2) Suc.prems(3,5,6)
  show ?case by (simp add: cl r(3))
qed


section \<open>The calls of the kernel behave\<close>

text \<open>A typed call as a call of a client.\<close>

definition call_of :: "('a \<Rightarrow> byte list) \<Rightarrow> nat \<Rightarrow> (os, 'a outcome) prog \<Rightarrow> call" where
  "call_of to_bytes n b = \<lparr>call_size = n, call_body = bind b (\<lambda>r. Return (map_outcome to_bytes r)), call_late = Halt\<rparr>"

lemma typed_call_call_of: "typed_call to_bytes of_bytes beyond n b =
    bind (os_call beyond (call_size (call_of to_bytes n b)) Halt (call_body (call_of to_bytes n b)) (call_late (call_of to_bytes n b))) (\<lambda>r. Return (map_outcome of_bytes r))"
  by (simp add: typed_call_def call_of_def)

context codec
begin

lemma call_of_ok:
  assumes "keeps task_frame b" "closes b" "yields (\<lambda>r. \<forall>v. r = Finished v \<longrightarrow> ok v) b"
  shows "call_ok (call_of to_bytes n b)"
  unfolding call_ok_def
proof (intro conjI allI impI)
  fix s r t
  assume s: "SCHEDULER_STARTED s" "sys_jtail (task_get s) = 0" "exec (call_body (call_of to_bytes n b)) s = Inr (Finished r, t)"
  then obtain o' where "exec b s = Inr (o', t)" "map_outcome to_bytes o' = Finished r"
    by (auto simp: call_of_def exec_bind split: sum.splits)
  then obtain v where v: "exec b s = Inr (Finished v, t)" "r = to_bytes v" by (cases o') auto
  have "task_frame t = task_frame s" using assms(1) v(1) by (simp add: keeps_def)
  moreover have "tc_jtail (current_tcb t) = 0" using assms(2) s(1,2) v(1) by (auto simp: closes_def task_get_def Let_def)
  ultimately show "SCHEDULER_STARTED t" "keeps_task (task_get s) (task_get t)"
    using s(1) by (simp_all add: keeps_task_def task_frame_def task_get_def with_mem_def Let_def)
  have "ok v" using assms(3) v(1) by (auto simp: yields_def)
  then show "length r = call_size (call_of to_bytes n b)" using length_bytes v(2) by (simp add: call_of_def)
qed (simp add: call_of_def)

end

definition send_call :: "(qsys \<Rightarrow> qsys) list \<Rightarrow> usize \<Rightarrow> byte list \<Rightarrow> time \<Rightarrow> call" where
  "send_call es q item w = call_of (unit_bytes queue_errs) 1 (Read (\<lambda>s. on_qsys q (queue_send_back es item (caller s) w)))"

definition receive_call :: "(qsys \<Rightarrow> qsys) list \<Rightarrow> nat \<Rightarrow> usize \<Rightarrow> time \<Rightarrow> call" where
  "receive_call es n q w = call_of (item_bytes n) (4 + n) (Read (\<lambda>s. on_qsys q (queue_receive es n (caller s) w None)))"

definition time_call :: call where
  "time_call = call_of le_bytes 4 (at_once (Read (\<lambda>s. Return (get_time (tsys_at s)))))"

definition ptr_call :: "(os, usize option) prog \<Rightarrow> call" where
  "ptr_call f = call_of ptr_bytes 4 (at_once (run_for_ptr f))"

text \<open>Closing a body that reads the state first.\<close>

lemma closes_Read: "(\<And>s. closes (g s)) \<Longrightarrow> closes (Read g)"
  by (auto simp: closes_def)

lemma yields_True: "yields (\<lambda>_. True) p"
  by (simp add: yields_def)

lemma yields_mono: "yields P p \<Longrightarrow> (\<And>a. P a \<Longrightarrow> Q a) \<Longrightarrow> yields Q p"
  by (auto simp: yields_def)

lemma queue_calls_ok:
  assumes "\<And>e s. e \<in> set es \<Longrightarrow> q_current (e s) = q_current s"
  shows "call_ok (send_call es q item w)" "0 < n \<Longrightarrow> call_ok (receive_call es n q w)"
proof -
  have k: "keeps q_current (queue_send_back es item t w)" "keeps q_current (queue_receive es n t w None)" for t
    using keeps_queue_ops [of es] assms by (simp_all add: queue_send_back_def)
  show "call_ok (send_call es q item w)" unfolding send_call_def on_qsys_def
    by (rule sent_codec.call_of_ok) (auto intro!: keeping keeps_qsys closes_Read k yields_True)
  assume "0 < n"
  then show "call_ok (receive_call es n q w)" unfolding receive_call_def on_qsys_def
    by (intro item_codec.call_of_ok)
      (auto intro!: keeping keeps_qsys closes_Read k yielding qsys_part.yields_part yields_mono [OF yields_receive] simp: item_ok_def)
qed

lemma time_call_ok: "call_ok time_call"
  unfolding time_call_def at_once_def
  by (rule time_codec.call_of_ok) (auto intro!: keeping closes_bind closes_Read yields_True simp: closes_def)

text \<open>Allocating, and creating semaphores, event groups and timers.\<close>

lemma ptr_calls_ok:
  assumes "keeps task_frame f"
  shows "call_ok (ptr_call f)"
proof -
  have "yields (\<lambda>r. \<forall>v. r = Finished v \<longrightarrow> v \<noteq> Some 0) (at_once (run_for_ptr f))"
    by (auto simp: at_once_def run_for_ptr_def yields_def exec_bind word_ptr_def split: sum.splits)
  then show ?thesis unfolding ptr_call_def
    using keeps_run_for_ptr [OF assms] by (intro ptr_codec.call_of_ok) (auto simp: at_once_def intro!: keeping closes_bind)
qed

text \<open>A call that runs from a given state, in the direction of execution.\<close>

lemma os_call_runs:
  assumes "between_calls ps (task_get s)" "r_ptr (replay (task_get s)) = r_tail (replay (task_get s))" "call_ok c" "SCHEDULER_STARTED s"
    and "exec (call_body c) (task_put ((task_get s)\<lparr>sys_cache := reset_ptr (sys_cache (task_get s))\<rparr>) s) = Inr (Finished r, t)" "recordable (ps @ [r])"
  shows "\<exists>q. exec (os_call beyond (call_size c) Halt (call_body c) (call_late c)) s = Inr (Finished r, task_put q t) \<and>
    task_mem q = os_mem t \<and> \<not> p_list_tx_done q"
proof -
  define s1 where "s1 = task_put ((task_get s)\<lparr>sys_cache := reset_ptr (sys_cache (task_get s))\<rparr>) s"
  have g: "exec (on_task (on_replay (get_entry n))) s = Inr (Inl (), s)" for n
    using assms(2) by (simp add: on_task_def task_part.exec_lift task_lift get_entry_def task_part.put_get)
  have "exec (on_task restart_syscall_tx_cache) s = Inr ((), s1)"
    by (simp add: on_task_def task_part.exec_lift restart_syscall_tx_cache_def task_lift tx_lift sys_view_def sys_put_def s1_def)
  moreover have "sys_jtail (task_get s1) = 0" "SCHEDULER_STARTED s1" "replay (task_get s1) = replay (task_get s)"
    using assms(1,4) by (simp_all add: s1_def task_part.get_put between_calls_def at_rest_def)
  then have "keeps_task (task_get s1) (task_get t)" using assms(3,5) unfolding call_ok_def s1_def by blast
  then have "recorded ps (replay (task_get t))" using assms(1) by (simp add: keeps_task_def between_calls_def s1_def task_part.get_put)
  from exec_syscall_end [OF this assms(6), of beyond] obtain d where
    "exec (on_task (syscall_end beyond r)) t = Inr (r, task_put ((task_get t)\<lparr>replay := d, sys_cache := commit_reset_tail (sys_cache (task_get t)), p_list_tx_done := False\<rparr>) t)"
    by (auto simp: on_task_def task_part.exec_lift)
  ultimately show ?thesis using g [of "call_size c"] assms(3,5)
    by (intro exI [of _ "(task_get t)\<lparr>replay := d, sys_cache := commit_reset_tail (sys_cache (task_get t)), p_list_tx_done := False\<rparr>"])
      (simp add: os_call_def exec_bind exec_seq s1_def [symmetric] call_ok_def)
qed

text \<open>Task 1 reads the time and sends to the queue at address 0, in which there are two items and for which nobody waits.\<close>

definition demo_calls :: os where
  "demo_calls = (demo_os empty_txc)\<lparr>SCHEDULER_STARTED := True, tcbs := (\<lambda>_. demo_tcb\<lparr>tc_sys_cache := empty_txc\<lparr>c_tail := TX_COMMITTED\<rparr>,
     tc_user_tx := (demo_user [])\<lparr>user_tx := \<lparr>t_pm = demo_pm, t_cache = empty_txc\<rparr>\<rparr>\<rparr>)\<rparr>"

definition demo_client :: client where
  "demo_client = Call time_call (\<lambda>_. Call (send_call [] 0 (replicate 12 5) 0) (\<lambda>_. Done))"

lemma demo_between: "between_calls [] (task_get demo_calls)" "r_ptr (replay (task_get demo_calls)) = 0" "SCHEDULER_STARTED demo_calls"
  by (simp_all add: demo_calls_def demo_os_def demo_tcb_def demo_user_def demo_pm_def task_get_def with_mem_def current_tcb_def Let_def between_calls_def
      recorded_def recordable_def at_rest_def commit_reset_tail_def demo_kernel_def is_committed_def TX_COMMITTED_def)

lemma kernel_task_put: "p_list_tx_done q = p_list_tx_done (task_get s) \<Longrightarrow> os_kernel (task_put q s) = os_kernel s" "queues (task_put q s) = queues s"
  by (cases "os_kernel s") (simp_all add: task_put_def task_get_def Let_def)

lemma demo_send: "\<exists>x. exec (queue_send_back [] (replicate 12 5) 1 0) \<lparr>qs_k = demo_kernel, qs_q = demo_cmds\<rparr> = Inr (Finished (Inr ()), x)"
proof -
  obtain r where r: "q_holds demo_cmds r (map msg_bytes demo_msgs)" using demo_cmds_hold by (auto simp: represents_def)
  have "length (map msg_bytes demo_msgs) < q_length demo_cmds" by (simp add: demo_msgs_def demo_cmds_def)
  moreover obtain k where "exec (roll_forward_pop_remove_from_waitlist 20) demo_kernel = Inr ((), k)"
    using nobody_to_wake [OF demo_kernel_rel, of 20] by (auto simp: demo_kernel_def demo_sched_def)
  moreover have "blocked_readers demo_cmds = 20" by (simp add: demo_cmds_def)
  ultimately show ?thesis using exec_push_back [OF r]
    by (simp add: queue_send_back_def queue_send_pass_def wake_one_def exec_bind exec_seq qsys_lift)
qed

lemma demo_run: "\<exists>r t. exec (run_client beyond 2 demo_client) demo_calls = Inr ([le_bytes 9, r], t) \<and> recordable [le_bytes 9, r]"
proof -
  let ?ok = "unit_bytes queue_errs (Inr ())"
  have rec: "recordable [le_bytes 9, ?ok]" "recordable ([] @ [le_bytes 9])"
    by (simp_all add: recordable_def unit_bytes_def entry_sz_def align_up_def ARCH_ALIGN_def SYSCALL_REPLAY_CACHE_SZ_def le_bytes_def)
  define s1 where "s1 = task_put ((task_get demo_calls)\<lparr>sys_cache := reset_ptr (sys_cache (task_get demo_calls))\<rparr>) demo_calls"
  have k1: "os_kernel s1 = demo_kernel" "queues s1 = (\<lambda>_. demo_cmds)"
    by (simp_all add: s1_def kernel_task_put) (simp_all add: demo_calls_def demo_os_def)
  have "exec (call_body time_call) s1 = Inr (Finished (le_bytes 9), s1)"
    using k1 by (simp add: time_call_def call_of_def at_once_def exec_bind get_time_def tsys_at_def demo_kernel_def)
  then obtain q where q: "exec (os_call beyond (call_size time_call) Halt (call_body time_call) (call_late time_call)) demo_calls =
      Inr (Finished (le_bytes 9), task_put q s1)" "\<not> p_list_tx_done q"
    using os_call_runs [OF demo_between(1) _ time_call_ok demo_between(3), of "le_bytes 9" s1 beyond] demo_between rec(2)
    by (auto simp: s1_def between_calls_def recorded_def)
  let ?s2 = "task_put q s1"
  have c1: "calls_ok (Call time_call (\<lambda>_. Done))" by (simp add: time_call_ok)
  have "between_calls ([] @ [le_bytes 9]) (task_get ?s2)" "r_ptr (replay (task_get ?s2)) = r_tail (replay (task_get ?s2))" "SCHEDULER_STARTED ?s2"
    using fresh_call [OF demo_between(1) _ c1 q(1) rec(2) demo_between(3)] demo_between(1,2) by (auto simp: between_calls_def recorded_def)
  moreover have k2: "os_kernel ?s2 = demo_kernel" "queues ?s2 = (\<lambda>_. demo_cmds)"
    using k1 q(2) by (simp_all add: kernel_task_put task_get_def demo_kernel_def Let_def)
  define s3 where "s3 = task_put ((task_get ?s2)\<lparr>sys_cache := reset_ptr (sys_cache (task_get ?s2))\<rparr>) ?s2"
  have k3: "os_kernel s3 = demo_kernel" "queues s3 = (\<lambda>_. demo_cmds)" using k2 by (simp_all add: s3_def kernel_task_put)
  then have "caller s3 = 1" "qsys_at 0 s3 = \<lparr>qs_k = demo_kernel, qs_q = demo_cmds\<rparr>" by (simp_all add: caller_def qsys_at_def demo_kernel_def)
  then obtain t where "exec (call_body (send_call [] 0 (replicate 12 5) 0)) s3 = Inr (Finished ?ok, t)"
    using demo_send by (auto simp: send_call_def call_of_def exec_bind on_qsys_def qsys_part.exec_lift)
  ultimately obtain q' where "exec (os_call beyond (call_size (send_call [] 0 (replicate 12 5) 0)) Halt (call_body (send_call [] 0 (replicate 12 5) 0))
      (call_late (send_call [] 0 (replicate 12 5) 0))) ?s2 = Inr (Finished ?ok, q')"
    using os_call_runs [of "[le_bytes 9]" ?s2 "send_call [] 0 (replicate 12 5) 0" ?ok t beyond] queue_calls_ok(1) [of "[]"] rec(1)
    by (auto simp: s3_def)
  then show ?thesis using q(1) rec(1) by (simp add: demo_client_def numeral_2_eq_2 exec_bind)
qed


section \<open>Mutexes on a full heap\<close>

lemma tx_get_task: "SCHEDULER_STARTED s \<Longrightarrow> tx_get s = sys_view (task_get s)"
  by (simp add: tx_get_def sys_view_def task_get_def with_mem_def Let_def)

text \<open>Claim C38. On a heap without room for a semaphore \<open>PMutex::try_new\<close> panics: it never returns the error that its type has for
  this case, because the creation of the semaphore unwraps the missing block.\<close>

theorem mutex_try_new_panics:
  assumes "between_calls ps (task_get s)" "r_ptr (replay (task_get s)) = r_tail (replay (task_get s))" "SCHEDULER_STARTED s"
    and "no_room (ly_Semaphore L) (bump_at (caller_heap P L s) (pm_of s))"
  shows "exec (PMutex_try_new beyond P L data) s = Inl Panic"
proof -
  let ?p = "(task_get s)\<lparr>sys_cache := reset_ptr (sys_cache (task_get s))\<rparr>"
  define s1 where "s1 = task_put ?p s"
  have g: "exec (on_task (on_replay (get_entry n))) s = Inr (Inl (), s)" for n
    using assms(2) by (simp add: on_task_def task_part.exec_lift task_lift get_entry_def task_part.put_get)
  have r: "exec (on_task restart_syscall_tx_cache) s = Inr ((), s1)"
    by (simp add: on_task_def task_part.exec_lift restart_syscall_tx_cache_def task_lift tx_lift sys_view_def sys_put_def s1_def)
  have v: "tx_get s1 = sys_view ?p" "tx_get s = sys_view (task_get s)"
    using tx_get_task [of s1] tx_get_task [of s] assms(3) by (simp_all add: s1_def task_part.get_put)
  have "c_tail (sys_cache (task_get s)) = TX_COMMITTED"
    using assms(1) by (auto simp: between_calls_def commit_reset_tail_def) (metis txc.select_convs(3) txc.surjective txc.update_convs(3))
  then have "holds [] True (t_cache (tx_get s1))" "replayed [] (t_cache (tx_get s1))" "is_empty (pm_of s1)"
    using assms(1) by (simp_all add: v pm_of_def sys_view_def holds_def replayed_def reset_ptr_def is_empty_def between_calls_def at_rest_def
        composite_def flagged_def)
  moreover have "bump_at (caller_heap P L s1) (pm_of s1) = bump_at (caller_heap P L s) (pm_of s)"
    by (simp add: bump_at_def caller_heap_def pm_of_def v sys_view_def) (simp add: s1_def task_put_def Let_def)
  ultimately have "exec (create_semaphore P L 1) s1 = Inl Panic"
    using create_semaphore_full [of "[]" True s1] assms(4) by (simp add: cacheable_def)
  then show ?thesis using g [of 4] r
    by (simp add: PMutex_try_new_def sys_create_semaphore_def typed_call_def os_call_def at_once_def exec_bind exec_seq)
qed

theorem mutex_try_new_panics_witness:
  "exec (PMutex_try_new (\<lambda>_. 0) demo_places demo_layouts 500) demo_calls = Inl Panic"
proof (rule mutex_try_new_panics [OF demo_between(1) _ demo_between(3)])
  show "r_ptr (replay (task_get demo_calls)) = r_tail (replay (task_get demo_calls))"
    using demo_between by (simp add: between_calls_def recorded_def)
  have "os_mem demo_calls = (\<lambda>_. 0)(0 := 3, 4 := 1, 9 := 4, 13 := 1)" by (simp add: demo_calls_def demo_os_def)
  then show "no_room (ly_Semaphore demo_layouts) (bump_at (caller_heap demo_places demo_layouts demo_calls) (pm_of demo_calls))"
    by (simp add: no_room_def bump_at_def word_at_def get_word_def demo_layouts_def caller_heap_def get_pm_heap_def demo_calls_def demo_os_def
        demo_places_def demo_kernel_def align_up_def)
qed

end
