(* ===== verification/PlainList.thy ===== *)
theory PlainList
  imports Sched Transaction
begin

text \<open>
  The lists in the build without the feature \<open>opt_list\<close>. There the operations of \<open>src/list.rs\<close> keep no
  operation log; every node and list head they change is first copied to the journal of the running transaction
  (\<open>PMPtr::as_mut\<close>, \<open>PMVar::borrow_mut\<close>), and a power failure is undone from there. The journal is modelled by
  its records, newest first: \<open>Pmem\<close> shows that the byte-level journal appends a record in one step and restores
  the records in this order. A record is as large as the copied object, its address and its size, and the journal
  of 1024 bytes can be full, which is a panic.
\<close>

section \<open>The journal of list objects\<close>

text \<open>What is logged: a node with its links, owner and item; the head of a list; the pointer to the current task;
  and the copy of a task's status that \<open>set_status\<close> makes on the stack.\<close>

datatype undo_rec =
    NodeRec addr "addr option" "addr option" "addr option" item
  | ListRec addr usize "addr option" "addr option"
  | CurrentRec tid
  | StatusRec

record plain =
  pk :: kernel
  p_undo :: "undo_rec list"

abbreviation pmem :: "plain \<Rightarrow> item lmem" where
  "pmem s \<equiv> k_lists (pk s)"

primrec obj_size :: "undo_rec \<Rightarrow> usize" where
  "obj_size (NodeRec a nx pv ow v) = 20"
| "obj_size (ListRec l n c h) = 12"
| "obj_size (CurrentRec t) = 4"
| "obj_size StatusRec = 1"

definition rec_size :: "undo_rec \<Rightarrow> nat" where
  "rec_size r = aligned_size (obj_size r) + 4 + 4"

definition log_size :: "undo_rec list \<Rightarrow> nat" where
  "log_size us = sum_list (map rec_size us)"

definition node_rec :: "addr \<Rightarrow> kernel \<Rightarrow> undo_rec" where
  "node_rec a k = (let m = k_lists k in NodeRec a (lnext m a) (lprev m a) (lowner m a) (lvalue m a))"

definition list_rec :: "addr \<Rightarrow> kernel \<Rightarrow> undo_rec" where
  "list_rec l k = (let m = k_lists k in ListRec l (llen m l) (lcursor m l) (lhead m l))"

definition append_rec :: "(kernel \<Rightarrow> undo_rec) \<Rightarrow> (plain, unit) prog" where
  "append_rec f = Read (\<lambda>s. let r = f (pk s) in
     if log_size (p_undo s) + rec_size r \<le> JOURNAL_SIZE then writes [\<lambda>s. s\<lparr>p_undo := r # p_undo s\<rparr>]
     else Fail Panic)"

definition as_mut :: "addr \<Rightarrow> (plain, unit) prog" where
  "as_mut a = append_rec (node_rec a)"

definition borrow_list :: "addr \<Rightarrow> (plain, unit) prog" where
  "borrow_list l = append_rec (list_rec l)"

text \<open>A store to the lists, and reading them.\<close>

definition lstore :: "(item lmem \<Rightarrow> item lmem) \<Rightarrow> plain \<Rightarrow> plain" where
  "lstore f s = s\<lparr>pk := (pk s)\<lparr>k_lists := f (k_lists (pk s))\<rparr>\<rparr>"

definition pstores :: "(item lmem \<Rightarrow> item lmem) list \<Rightarrow> (plain, unit) prog" where
  "pstores fs = writes (map lstore fs)"

definition with_lists :: "(item lmem \<Rightarrow> (plain, 'a) prog) \<Rightarrow> (plain, 'a) prog" where
  "with_lists g = Read (\<lambda>s. g (pmem s))"

section \<open>Restoring\<close>

text \<open>A record is copied back field by field.\<close>

primrec restore :: "undo_rec \<Rightarrow> (kernel \<Rightarrow> kernel) list" where
  "restore (NodeRec a nx pv ow v) = map (\<lambda>f k. k\<lparr>k_lists := f (k_lists k)\<rparr>)
     [set_next a nx, set_prev a pv, set_owner a ow, \<lambda>m. m\<lparr>lvalue := (lvalue m)(a := v)\<rparr>]"
| "restore (ListRec l n c h) = map (\<lambda>f k. k\<lparr>k_lists := f (k_lists k)\<rparr>)
     [set_len l n, set_cursor l c, set_head l h]"
| "restore (CurrentRec t) = [\<lambda>k. k\<lparr>current_task := t\<rparr>]"
| "restore StatusRec = []"

definition plain_recover :: "(plain, unit) prog" where
  "plain_recover = Read (\<lambda>s. seq
     (writes (map (\<lambda>f s. s\<lparr>pk := f (pk s)\<rparr>) (concat (map restore (p_undo s)))))
     (writes [\<lambda>s. s\<lparr>p_undo := []\<rparr>]))"

section \<open>Operations on lists\<close>

definition plain_insert_before_cursor_impl :: "addr \<Rightarrow> addr \<Rightarrow> (plain, unit) prog" where
  "plain_insert_before_cursor_impl l n = seq (pstores [set_owner n (Some l)]) (with_lists (\<lambda>m.
     seq (case lcursor m l of
       None \<Rightarrow> pstores [set_prev n (Some n), set_next n (Some n), set_cursor l (Some n), set_head l (Some n)]
     | Some c \<Rightarrow> seq (as_mut c) (seq (pstores [set_prev n (lprev m c), set_next n (lcursor m l), set_prev c (Some n)])
         (with_lists (\<lambda>m. case lprev m n of
            None \<Rightarrow> Fail Panic
          | Some p \<Rightarrow> seq (as_mut p) (seq (pstores [set_next p (Some n)])
              (with_lists (\<lambda>m. if lcursor m l = lhead m l then pstores [set_head l (Some n)] else Halt)))))))
     (with_lists (\<lambda>m. pstores [set_len l (llen m l + 1)]))))"

definition plain_insert_before_cursor :: "addr \<Rightarrow> addr \<Rightarrow> (plain, unit) prog" where
  "plain_insert_before_cursor l n = seq (as_mut n) (plain_insert_before_cursor_impl l n)"

definition plain_next :: "addr \<Rightarrow> (plain, unit) prog" where
  "plain_next l = with_lists (\<lambda>m. case lcursor m l of None \<Rightarrow> Halt | Some p \<Rightarrow> pstores [set_cursor l (lnext m p)])"

definition plain_remove_impl :: "addr \<Rightarrow> addr \<Rightarrow> (plain, unit) prog" where
  "plain_remove_impl l n = with_lists (\<lambda>m. if lowner m n = None then Halt else
     seq (if llen m l = 1 then pstores [set_cursor l None, set_head l None] else
       seq (case lprev m n of None \<Rightarrow> Halt | Some p \<Rightarrow> seq (as_mut p) (pstores [set_next p (lnext m n)]))
      (with_lists (\<lambda>m. seq (case lnext m n of None \<Rightarrow> Halt | Some q \<Rightarrow> seq (as_mut q) (pstores [set_prev q (lprev m n)]))
      (with_lists (\<lambda>m. seq (if lcursor m l = Some n then pstores [set_cursor l (lnext m n)] else Halt)
        (if lhead m l = Some n then pstores [set_head l (lnext m n)] else Halt))))))
     (seq (pstores [set_owner n None]) (with_lists (\<lambda>m. pstores [set_len l (llen m l - 1)]))))"

definition plain_remove :: "addr \<Rightarrow> addr \<Rightarrow> (plain, unit) prog" where
  "plain_remove l n = seq (as_mut n) (plain_remove_impl l n)"

definition plain_pop_front :: "addr \<Rightarrow> (plain, addr option) prog" where
  "plain_pop_front l = with_lists (\<lambda>m. case lhead m l of
     None \<Rightarrow> Return None
   | Some h \<Rightarrow> seq (as_mut h) (seq (pstores [set_head l (lnext m h)])
      (with_lists (\<lambda>m. seq (case lhead m l of None \<Rightarrow> Halt | Some p \<Rightarrow> seq (as_mut p) (pstores [set_prev p None]))
      (seq (pstores [set_len l (llen m l - 1)])
      (seq (if lcursor m l = Some h then pstores [set_cursor l (lhead m l)] else Halt)
      (seq (pstores [set_owner h None]) (Return (Some h)))))))))"

definition plain_insert_front :: "addr \<Rightarrow> addr \<Rightarrow> (plain, unit) prog" where
  "plain_insert_front l n = seq (as_mut n) (with_lists (\<lambda>m. if lowner m n \<noteq> None then Fail Panic
     else seq (pstores [set_owner n (Some l), set_prev n None, set_next n None])
      (seq (case lhead m l of
         None \<Rightarrow> pstores [set_head l (Some n), set_cursor l (Some n)]
       | Some h \<Rightarrow> seq (pstores [set_next n (lhead m l)]) (seq (as_mut h)
           (pstores [set_prev h (Some n), set_head l (Some n)])))
      (with_lists (\<lambda>m. pstores [set_len l (llen m l + 1)])))))"

definition plain_insert_sorted_impl :: "(item \<Rightarrow> item \<Rightarrow> bool) \<Rightarrow> addr \<Rightarrow> addr \<Rightarrow> (plain, unit) prog" where
  "plain_insert_sorted_impl gt l n = with_lists (\<lambda>m. if lowner m n \<noteq> None then Fail Panic
     else seq (pstores [set_owner n (Some l), set_next n None, set_prev n None])
      (with_lists (\<lambda>m. seq (case lhead m l of
         None \<Rightarrow> pstores [set_head l (Some n)]
       | Some h \<Rightarrow> (case find_pos gt m (lvalue m n) h of
           None \<Rightarrow> Fail Diverges
         | Some (Inl p) \<Rightarrow> seq (as_mut p) (pstores [set_prev n (Some p), set_next n None, set_next p (Some n)])
         | Some (Inr p) \<Rightarrow> seq (pstores [set_next n (Some p), set_prev n (lprev m p)])
            (seq (as_mut p) (seq (pstores [set_prev p (Some n)])
            (with_lists (\<lambda>m. case lprev m n of
               Some q \<Rightarrow> seq (as_mut q) (pstores [set_next q (Some n)])
             | None \<Rightarrow> pstores [set_head l (Some n)]))))))
      (with_lists (\<lambda>m. pstores [set_len l (llen m l + 1)])))))"

definition plain_insert_sorted :: "(item \<Rightarrow> item \<Rightarrow> bool) \<Rightarrow> addr \<Rightarrow> addr \<Rightarrow> (plain, unit) prog" where
  "plain_insert_sorted gt l n = seq (as_mut n) (plain_insert_sorted_impl gt l n)"

lemmas plain_ops = plain_insert_before_cursor_impl_def plain_insert_before_cursor_def plain_next_def
  plain_remove_impl_def plain_remove_def plain_pop_front_def plain_insert_front_def
  plain_insert_sorted_impl_def plain_insert_sorted_def with_lists_def pstores_def

section \<open>Changes to logged objects are undone\<close>

datatype obj = NodeObj addr | ListObj addr | CurrentObj

primrec obj_of :: "undo_rec \<Rightarrow> obj option" where
  "obj_of (NodeRec a nx pv ow v) = Some (NodeObj a)"
| "obj_of (ListRec l n c h) = Some (ListObj l)"
| "obj_of (CurrentRec t) = Some CurrentObj"
| "obj_of StatusRec = None"

definition logged :: "plain \<Rightarrow> obj set" where
  "logged s = {ob. Some ob \<in> obj_of ` set (p_undo s)}"

definition put_back :: "undo_rec \<Rightarrow> kernel \<Rightarrow> kernel" where
  "put_back r = fold (\<lambda>w. w) (restore r)"

definition roll_back_recs :: "undo_rec list \<Rightarrow> kernel \<Rightarrow> kernel" where
  "roll_back_recs us = fold put_back us"

abbreviation undone :: "plain \<Rightarrow> kernel" where
  "undone s \<equiv> roll_back_recs (p_undo s) (pk s)"

text \<open>\<open>touches o f\<close>: the store \<open>f\<close> changes object \<open>o\<close> and nothing else.\<close>

definition touches :: "obj \<Rightarrow> (kernel \<Rightarrow> kernel) \<Rightarrow> bool" where
  "touches ob f \<longleftrightarrow> (\<forall>r k. put_back r (f k) = (if obj_of r = Some ob then put_back r k else f (put_back r k)))"

abbreviation on_klists :: "(item lmem \<Rightarrow> item lmem) \<Rightarrow> kernel \<Rightarrow> kernel" where
  "on_klists f k \<equiv> k\<lparr>k_lists := f (k_lists k)\<rparr>"

lemma touchesI:
  assumes "\<And>a nx pv ow v k. put_back (NodeRec a nx pv ow v) (f k) =
      (if ob = NodeObj a then put_back (NodeRec a nx pv ow v) k else f (put_back (NodeRec a nx pv ow v) k))"
    and "\<And>l n c h k. put_back (ListRec l n c h) (f k) =
      (if ob = ListObj l then put_back (ListRec l n c h) k else f (put_back (ListRec l n c h) k))"
    and "\<And>t k. put_back (CurrentRec t) (f k) = (if ob = CurrentObj then put_back (CurrentRec t) k else f (put_back (CurrentRec t) k))"
  shows "touches ob f"
proof -
  have "put_back r (f k) = (if obj_of r = Some ob then put_back r k else f (put_back r k))" for r k
    by (cases r) (use assms in \<open>auto simp: put_back_def\<close>)
  then show ?thesis by (simp add: touches_def)
qed

lemma touches_setters:
  "touches (NodeObj a) (on_klists (set_next a v))"
  "touches (NodeObj a) (on_klists (set_prev a v))"
  "touches (NodeObj a) (on_klists (set_owner a v))"
  "touches (NodeObj a) (on_klists (\<lambda>m. m\<lparr>lvalue := (lvalue m)(a := x)\<rparr>))"
  "touches (ListObj a) (on_klists (set_len a n))"
  "touches (ListObj a) (on_klists (set_cursor a v))"
  "touches (ListObj a) (on_klists (set_head a v))"
  "touches CurrentObj (\<lambda>k. k\<lparr>current_task := t\<rparr>)"
  by (intro touchesI; simp add: put_back_def setters fun_upd_twist)+

lemma touches_undone:
  assumes "touches ob f" "ob \<in> logged s"
  shows "roll_back_recs (p_undo s) (f k) = roll_back_recs (p_undo s) k"
proof -
  have "Some ob \<in> obj_of ` set us \<Longrightarrow> roll_back_recs us (f k) = roll_back_recs us k" for us
    using assms(1) by (induction us arbitrary: k) (auto simp: roll_back_recs_def touches_def)
  then show ?thesis using assms(2) by (simp add: logged_def)
qed

text \<open>\<open>revocable p s\<close>: whenever power fails during \<open>p\<close>, undoing the journal gives what undoing it before \<open>p\<close> gave,
  and no record is lost.\<close>

definition revocable :: "(plain, 'a) prog \<Rightarrow> plain \<Rightarrow> bool" where
  "revocable p s \<longleftrightarrow> (\<forall>t\<in>set (states p s). undone t = undone s \<and> logged s \<subseteq> logged t)"

named_theorems undoing

lemma revocable_simps [undoing]:
  "revocable (Return a) s" "revocable (Fail e) s"
  "revocable (g s) s \<Longrightarrow> revocable (Read g) s"
  "revocable (h (pmem s)) s \<Longrightarrow> revocable (with_lists h) s"
  by (simp_all add: revocable_def with_lists_def)

lemma final_in_states: "exec p s = Inr (a, t) \<Longrightarrow> t \<in> set (states p s)"
  using last_state [of p s] exec_final [of p s a t] by (metis last_in_set states_not_Nil)

lemma revocable_bind:
  assumes "revocable p s" "\<And>a u. exec p s = Inr (a, u) \<Longrightarrow> logged s \<subseteq> logged u \<Longrightarrow> revocable (f a) u"
  shows "revocable (bind p f) s"
  unfolding revocable_def
proof
  fix t
  assume "t \<in> set (states (bind p f) s)"
  then show "undone t = undone s \<and> logged s \<subseteq> logged t"
  proof (cases rule: states_bind_cases)
    case 1
    then show ?thesis using assms(1) by (simp add: revocable_def)
  next
    case (2 a u)
    then have "undone u = undone s" "logged s \<subseteq> logged u"
      using assms(1) final_in_states [OF 2(1)] unfolding revocable_def by auto
    then show ?thesis using assms(2) [OF 2(1)] 2(2) unfolding revocable_def by auto
  qed
qed

lemma revocable_seq [undoing]:
  "revocable p s \<Longrightarrow> (\<And>u. logged s \<subseteq> logged u \<Longrightarrow> revocable q u) \<Longrightarrow> revocable (seq p q) s"
  unfolding seq_def by (rule revocable_bind) auto

lemma put_back_current: "put_back (node_rec a k) k = k" "put_back (list_rec l k) k = k"
    "put_back (CurrentRec (current_task k)) k = k" "put_back StatusRec k = k"
  by (simp_all add: put_back_def node_rec_def list_rec_def setters Let_def)

lemma revocable_append_rec:
  assumes "\<And>k. put_back (f k) k = k"
  shows "revocable (append_rec f) s"
  using assms by (auto simp: revocable_def append_rec_def Let_def roll_back_recs_def logged_def)

lemma revocable_log [undoing]:
  "revocable (as_mut a) s" "revocable (borrow_list l) s"
  by (simp_all add: as_mut_def borrow_list_def revocable_append_rec put_back_current)

lemma logged_append_rec:
  "exec (append_rec f) s = Inr (x, u) \<Longrightarrow> logged u = {ob. Some ob = obj_of (f (pk s))} \<union> logged s"
  by (auto simp: append_rec_def Let_def logged_def split: if_splits)

text \<open>After a mutable reference has been taken, the object is logged.\<close>

lemma revocable_then:
  "(\<And>u. insert (NodeObj a) (logged s) \<subseteq> logged u \<Longrightarrow> revocable p u) \<Longrightarrow> revocable (seq (as_mut a) p) s"
  "(\<And>u. insert (ListObj l) (logged s) \<subseteq> logged u \<Longrightarrow> revocable p u) \<Longrightarrow> revocable (seq (borrow_list l) p) s"
  unfolding seq_def as_mut_def borrow_list_def
  by (rule revocable_bind, rule revocable_append_rec, rule put_back_current,
      simp add: logged_append_rec node_rec_def list_rec_def Let_def)+

text \<open>Stores to logged objects.\<close>

definition guards :: "obj set \<Rightarrow> (item lmem \<Rightarrow> item lmem) \<Rightarrow> bool" where
  "guards L f \<longleftrightarrow> (\<exists>ob\<in>L. touches ob (on_klists f))"

lemma revocable_pstores [undoing]:
  "\<forall>f\<in>set fs. guards (logged s) f \<Longrightarrow> revocable (pstores fs) s"
proof (induction fs arbitrary: s)
  case (Cons f fs)
  then have "logged (lstore f s) = logged s" "undone (lstore f s) = undone s"
    using touches_undone [of _ "on_klists f" s "pk s"] by (auto simp: lstore_def logged_def guards_def)
  moreover from this have "revocable (pstores fs) (lstore f s)" using Cons by simp
  ultimately show ?case by (auto simp: revocable_def pstores_def)
qed (simp add: revocable_def pstores_def)

lemma guards_setters:
  "NodeObj a \<in> L \<Longrightarrow> guards L (set_next a v)" "NodeObj a \<in> L \<Longrightarrow> guards L (set_prev a v)"
  "NodeObj a \<in> L \<Longrightarrow> guards L (set_owner a v)" "ListObj a \<in> L \<Longrightarrow> guards L (set_len a n)"
  "ListObj a \<in> L \<Longrightarrow> guards L (set_cursor a v)" "ListObj a \<in> L \<Longrightarrow> guards L (set_head a v)"
  unfolding guards_def using touches_setters by blast+

lemma revocable_if [undoing]: "(b \<Longrightarrow> revocable p s) \<Longrightarrow> (\<not> b \<Longrightarrow> revocable q s) \<Longrightarrow> revocable (if b then p else q) s"
  by simp

lemma revocable_option [undoing]:
  "(r = None \<Longrightarrow> revocable p s) \<Longrightarrow> (\<And>x. r = Some x \<Longrightarrow> revocable (q x) s) \<Longrightarrow> revocable (case r of None \<Rightarrow> p | Some x \<Rightarrow> q x) s"
  by (cases r) simp_all

lemma revocable_sum [undoing]:
  "(\<And>x. revocable (p x) s) \<Longrightarrow> (\<And>x. revocable (q x) s) \<Longrightarrow> revocable (case r of Inl x \<Rightarrow> p x | Inr x \<Rightarrow> q x) s"
  by (cases r) simp_all

text \<open>Every operation is revocable once the list it is applied to has been borrowed; those that get the node by
  reference also want the node logged.\<close>

lemma revocable_insert_before_cursor_impl:
  "ListObj l \<in> logged s \<Longrightarrow> NodeObj n \<in> logged s \<Longrightarrow> revocable (plain_insert_before_cursor_impl l n) s"
  unfolding plain_insert_before_cursor_impl_def by (rule revocable_then undoing | (simp; blast intro: guards_setters)[1])+

lemma revocable_remove_impl:
  "ListObj l \<in> logged s \<Longrightarrow> NodeObj n \<in> logged s \<Longrightarrow> revocable (plain_remove_impl l n) s"
  unfolding plain_remove_impl_def by (rule revocable_then undoing | (simp; blast intro: guards_setters)[1])+

lemma revocable_insert_sorted_impl:
  "ListObj l \<in> logged s \<Longrightarrow> NodeObj n \<in> logged s \<Longrightarrow> revocable (plain_insert_sorted_impl gt l n) s"
  unfolding plain_insert_sorted_impl_def by (rule revocable_then undoing | (simp; blast intro: guards_setters)[1])+

lemma revocable_list_ops:
  "ListObj l \<in> logged s \<Longrightarrow> revocable (plain_insert_before_cursor l n) s"
  "ListObj l \<in> logged s \<Longrightarrow> revocable (plain_insert_sorted gt l n) s"
  "ListObj l \<in> logged s \<Longrightarrow> revocable (plain_insert_front l n) s"
  "ListObj l \<in> logged s \<Longrightarrow> revocable (plain_remove l n) s"
  "ListObj l \<in> logged s \<Longrightarrow> revocable (plain_pop_front l) s"
  "ListObj l \<in> logged s \<Longrightarrow> revocable (plain_next l) s"
  unfolding plain_insert_before_cursor_def plain_insert_sorted_def plain_insert_front_def plain_remove_def
    plain_pop_front_def plain_next_def
  by (rule revocable_then undoing revocable_insert_before_cursor_impl revocable_insert_sorted_impl revocable_remove_impl
      | (simp; blast intro: guards_setters)[1])+

section \<open>The logged operations compute what the operations of \<open>PList\<close> compute\<close>

lemma rec_sizes [simp]:
  "rec_size (NodeRec a nx pv ow v) = 28" "rec_size (ListRec l n c h) = 20" "rec_size (CurrentRec t) = 12" "rec_size StatusRec = 12"
  by (simp_all add: rec_size_def aligned_size_def arch_addr_align_up_def ARCH_ALIGN_def)

lemma log_size_simps [simp]: "log_size [] = 0" "log_size (r # us) = rec_size r + log_size us"
  by (simp_all add: log_size_def)

text \<open>\<open>agrees p q n\<close>: with \<open>n\<close> bytes left in the journal \<open>p\<close> returns the result or fault of \<open>q\<close> and leaves the same
  lists, and it uses no more than these bytes.\<close>

definition agrees :: "(plain, 'a) prog \<Rightarrow> (item lmem, 'a) prog \<Rightarrow> nat \<Rightarrow> bool" where
  "agrees p q n \<longleftrightarrow> (\<forall>s. log_size (p_undo s) + n \<le> JOURNAL_SIZE \<longrightarrow> (case exec q (pmem s) of
     Inl e \<Rightarrow> exec p s = Inl e
   | Inr (a, m) \<Rightarrow> \<exists>u. exec p s = Inr (a, u) \<and> pk u = (pk s)\<lparr>k_lists := m\<rparr> \<and>
       log_size (p_undo u) \<le> log_size (p_undo s) + n))"

lemma exec_as_mut: "log_size (p_undo s) + 28 \<le> JOURNAL_SIZE \<Longrightarrow>
    exec (as_mut a) s = Inr ((), s\<lparr>p_undo := node_rec a (pk s) # p_undo s\<rparr>)"
  by (simp add: as_mut_def append_rec_def node_rec_def Let_def)

lemma exec_borrow_list: "log_size (p_undo s) + 20 \<le> JOURNAL_SIZE \<Longrightarrow>
    exec (borrow_list l) s = Inr ((), s\<lparr>p_undo := list_rec l (pk s) # p_undo s\<rparr>)"
  by (simp add: borrow_list_def append_rec_def list_rec_def Let_def)

lemma rec_size_recs [simp]: "rec_size (node_rec a k) = 28" "rec_size (list_rec l k) = 20"
  by (simp_all add: node_rec_def list_rec_def Let_def)

lemmas agree_simps = plain_ops list_simps exec_seq exec_as_mut lstore_def

lemma agrees_remove_impl: "agrees (plain_remove_impl l n) (remove_impl l n) 56"
  unfolding agrees_def by (auto simp: agree_simps split: option.splits)

lemma agrees_insert_before_cursor_impl: "agrees (plain_insert_before_cursor_impl l n) (insert_before_cursor l n) 56"
  unfolding agrees_def by (auto simp: agree_simps fun_upd_idem split: option.splits)

lemma agrees_pop_front: "agrees (plain_pop_front l) (pop_front l) 56"
  unfolding agrees_def by (auto simp: agree_simps split: option.splits)

lemma agrees_insert_front: "agrees (plain_insert_front l n) (insert_front l n) 56"
  unfolding agrees_def by (auto simp: agree_simps split: option.splits)

lemma agrees_insert_sorted_impl: "agrees (plain_insert_sorted_impl gt l n) (insert_sorted gt l n) 56"
  unfolding agrees_def by (auto simp: agree_simps split: option.splits sum.splits)

lemma agrees_next: "agrees (plain_next l) (seq (plist_next l) Halt) 0"
  unfolding agrees_def by (auto simp: agree_simps split: option.splits)

lemma agrees_append_rec:
  assumes "agrees p q n" "\<And>k. rec_size (f k) = b"
  shows "agrees (seq (append_rec f) p) q (b + n)"
  unfolding agrees_def
proof (intro allI impI)
  fix s :: plain
  assume room: "log_size (p_undo s) + (b + n) \<le> JOURNAL_SIZE"
  let ?s = "s\<lparr>p_undo := f (pk s) # p_undo s\<rparr>"
  have "exec (seq (append_rec f) p) s = exec p ?s"
    using room assms(2) by (simp add: exec_seq append_rec_def Let_def)
  then show "case exec q (pmem s) of Inl e \<Rightarrow> exec (seq (append_rec f) p) s = Inl e
     | Inr (a, m) \<Rightarrow> \<exists>u. exec (seq (append_rec f) p) s = Inr (a, u) \<and> pk u = (pk s)\<lparr>k_lists := m\<rparr> \<and>
       log_size (p_undo u) \<le> log_size (p_undo s) + (b + n)"
    using assms(1) [unfolded agrees_def, THEN spec, of ?s] room assms(2) by (auto split: sum.splits)
qed

lemma agrees_after:
  assumes "agrees p q n"
  shows "agrees (seq (as_mut a) p) q (28 + n)" "agrees (seq (borrow_list l) p) q (20 + n)"
  using assms by (simp_all add: as_mut_def borrow_list_def agrees_append_rec)

lemma agrees_with_node:
  "agrees (plain_insert_sorted gt l n) (insert_sorted gt l n) 84"
  "agrees (plain_insert_before_cursor l n) (insert_before_cursor l n) 84"
  "agrees (plain_remove l n) (remove_impl l n) 84"
  using agrees_after(1) [OF agrees_insert_sorted_impl] agrees_after(1) [OF agrees_insert_before_cursor_impl]
    agrees_after(1) [OF agrees_remove_impl]
  by (simp_all add: plain_insert_sorted_def plain_insert_before_cursor_def plain_remove_def)

section \<open>What they do to well-formed lists\<close>

lemma lmicro_irrelevant [simp]:
  "linear (m\<lparr>lmicro := w\<rparr>) l xs = linear m l xs" "circular (m\<lparr>lmicro := w\<rparr>) l xs = circular m l xs"
  "only_list l m (m'\<lparr>lmicro := w\<rparr>) = only_list l m m'"
  by (simp_all add: linear_def circular_def only_list_def)

text \<open>A result about an operation with an operation log, without the log entry.\<close>

lemma without_log:
  assumes "exec p m = map_sum id (map_prod id (\<lambda>m. m\<lparr>lmicro := w\<rparr>)) (exec q m)" "exec p m = Inr (a, m1)"
  obtains m2 where "exec q m = Inr (a, m2)" "m1 = m2\<lparr>lmicro := w\<rparr>"
  using assms by (cases "exec q m") (auto simp: map_prod_def split: prod.splits)

lemma pop_front_linear:
  assumes "linear m l (x # xs)"
  shows "\<exists>m'. exec (pop_front l) m = Inr (Some x, m') \<and> linear m' l xs \<and> lowner m' x = None \<and> only_list l m m'"
proof -
  have "lhead m l \<noteq> None" using assms by (simp add: linear_def)
  from without_log [OF pop_front_equiv [OF this]] optimized_pop_front_linear [OF assms] show ?thesis by fastforce
qed

lemma remove_linear:
  assumes "linear m l (xs @ n # ys)"
  shows "\<exists>m'. exec (remove_impl l n) m = Inr ((), m') \<and> linear m' l (xs @ ys) \<and> lowner m' n = None \<and> only_list l m m'"
  using without_log [OF remove_equiv] optimized_remove_linear [OF assms] by fastforce

lemma remove_circular:
  assumes "circular m l (xs @ n # ys)"
  shows "\<exists>m'. exec (remove_impl l n) m = Inr ((), m') \<and> circular m' l (xs @ ys) \<and> lowner m' n = None \<and> only_list l m m'"
  using without_log [OF remove_equiv] optimized_remove_circular [OF assms] by fastforce

lemma insert_before_cursor_circular:
  assumes "circular m l xs" "lowner m n = None" "length xs < 4095"
  shows "\<exists>m'. exec (insert_before_cursor l n) m = Inr ((), m') \<and> circular m' l (xs @ [n]) \<and> only_list l m m'"
  using without_log [OF insert_before_cursor_equiv [OF assms(1,2)]] optimized_insert_before_cursor_circular [OF assms]
  by fastforce

lemma insert_sorted_linear:
  assumes "linear m l xs" "lowner m n = None" "length xs < 4095"
  shows "\<exists>m'. exec (insert_sorted gt l n) m = Inr ((), m') \<and>
     linear m' l (insert_at (\<lambda>a. gt (lvalue m n) (lvalue m a)) n xs) \<and> only_list l m m'"
proof -
  let ?m = "start_op_log InvalidOp l m"
  have "linear ?m l xs" "lowner ?m n = None" using assms by (simp_all add: start_op_log_def)
  from optimized_insert_sorted_linear [OF this assms(3), of gt] obtain m1 where
    m1: "exec (sorted_insert InvalidOp gt l n) m = Inr ((), m1)"
      "linear m1 l (insert_at (\<lambda>a. gt (lvalue m n) (lvalue m a)) n xs)" "only_list l ?m m1"
    by (auto simp: sorted_insert_def start_op_log_def)
  obtain m2 where "exec (insert_sorted gt l n) m = Inr ((), m2)" "m1 = m2\<lparr>lmicro := micro_op_old_len InvalidOp (llen m l)\<rparr>"
    using without_log [OF insert_sorted_equiv [OF assms(1,2)] m1(1)] by metis
  then show ?thesis using m1(2,3) by (auto simp: only_list_def start_op_log_def)
qed

text \<open>How the changed lists are found after a logged operation.\<close>

lemma agrees_exec:
  assumes "agrees p q n" "exec q (pmem s) = Inr (a, m)" "log_size (p_undo s) + n \<le> JOURNAL_SIZE"
  obtains u where "exec p s = Inr (a, u)" "pk u = (pk s)\<lparr>k_lists := m\<rparr>" "log_size (p_undo u) \<le> log_size (p_undo s) + n"
  using assms unfolding agrees_def by fastforce

end
