(* ===== verification/PlainSched.thy ===== *)
theory PlainSched
  imports PlainList
begin

text \<open>
  The scheduler in the build without the feature \<open>opt_list\<close> (\<open>src/task.rs\<close>): the moves of a task between the
  lists, the tick handler, the delay of the current task and the choice of the next one, as transactions whose changes
  are undone from the journal after a power failure. The tick handler and the context switch run in the boot
  transaction, counted by \<open>IN_CONTEXT_SWITCH_TX\<close>; a delay is a system transaction of the current task. It is shown
  that this build's tick handler and context switch do to the lists what the default build's do, and that the tick handler
  survives power failures. What the two builds do not share is the state of a task: \<open>set_status\<close> of
  this build changes a copy.
\<close>

section \<open>Moving a task between the scheduler's lists\<close>

text \<open>\<open>&mut unsafe { *self.status.get() }\<close> is a reference to a copy of the (copyable) variable on the stack. The copy is
  logged and set; the task keeps its status.\<close>

definition plain_set_status :: "tid \<Rightarrow> TaskState \<Rightarrow> (plain, unit) prog" where
  "plain_set_status t st = append_rec (\<lambda>k. StatusRec)"

definition plain_sched_list :: "tid \<Rightarrow> (addr \<Rightarrow> (plain, 'a) prog) \<Rightarrow> (plain, 'a) prog" where
  "plain_sched_list t f = Read (\<lambda>s. let p = unat (prio_value (prio_of (pk s) t)) in
     if p < NUM_PRIORITY_LEVELS then f p else Fail Panic)"

definition plain_add_node_to_delayed_list :: "tid \<Rightarrow> addr \<Rightarrow> (plain, unit) prog" where
  "plain_add_node_to_delayed_list t n = seq (plain_set_status t Blocked)
     (seq (borrow_list DELAYED_TASK_LIST) (seq (plain_insert_sorted_impl sched_gt DELAYED_TASK_LIST n)
       (Read (\<lambda>s. let w = get_wakeup_time (pk s) t in if w < next_unblock_time (pk s)
          then writes [\<lambda>s. s\<lparr>pk := set_next_unblock_time w (pk s)\<rparr>] else Halt))))"

definition plain_add_to_delayed_list :: "tid \<Rightarrow> (plain, unit) prog" where
  "plain_add_to_delayed_list t = seq (as_mut (sched_node t)) (plain_add_node_to_delayed_list t (sched_node t))"

definition plain_remove_from_delayed_list :: "tid \<Rightarrow> (plain, addr) prog" where
  "plain_remove_from_delayed_list t = seq (borrow_list DELAYED_TASK_LIST)
     (seq (plain_remove DELAYED_TASK_LIST (sched_node t)) (Return (sched_node t)))"

definition plain_add_node_to_ready_list :: "tid \<Rightarrow> addr \<Rightarrow> (plain, unit) prog" where
  "plain_add_node_to_ready_list t n = seq (plain_sched_list t (\<lambda>l. seq (borrow_list l) (plain_insert_before_cursor_impl l n)))
     (plain_set_status t Ready)"

definition plain_add_to_ready_list :: "tid \<Rightarrow> (plain, unit) prog" where
  "plain_add_to_ready_list t = seq (as_mut (sched_node t)) (plain_add_node_to_ready_list t (sched_node t))"

definition plain_remove_from_ready_list :: "tid \<Rightarrow> (plain, addr) prog" where
  "plain_remove_from_ready_list t = plain_sched_list t (\<lambda>l.
     seq (borrow_list l) (seq (plain_remove l (sched_node t)) (Return (sched_node t))))"

text \<open>\<open>block_reader\<close> and \<open>block_writer\<close> of a queue, which differ in the wait list, and waking its first waiter.\<close>

definition plain_block_on :: "addr \<Rightarrow> (plain, addr) prog" where
  "plain_block_on wl = Read (\<lambda>s. let t = current_task (pk s) in
     bind (plain_remove_from_ready_list t) (\<lambda>n. seq (borrow_list wl)
       (seq (plain_insert_sorted (blocked_gt (prio_of (pk s))) wl (event_node t)) (Return n))))"

definition plain_wakeup_blocked_task :: "addr \<Rightarrow> (plain, unit) prog" where
  "plain_wakeup_blocked_task wl = seq (borrow_list wl) (bind (plain_pop_front wl) (\<lambda>r. case r of
     None \<Rightarrow> Halt
   | Some n \<Rightarrow> with_lists (\<lambda>m. let t = item_task (lvalue m n) in
       bind (plain_remove_from_delayed_list t) (plain_add_node_to_ready_list t))))"

section \<open>The transactions\<close>

text \<open>What the tick handler does for the first delayed task.\<close>

definition plain_wake_first :: "(plain, unit) prog" where
  "plain_wake_first = seq (borrow_list DELAYED_TASK_LIST) (bind (plain_pop_front DELAYED_TASK_LIST) (\<lambda>r.
     unwrap_unchecked r (\<lambda>h. with_lists (\<lambda>m. let t = item_task (lvalue m h) in
       seq (case lowner m (event_node t) of
          None \<Rightarrow> Halt
        | Some wl \<Rightarrow> seq (borrow_list wl) (plain_remove wl (event_node t)))
       (plain_add_node_to_ready_list t h)))))"

definition plain_delay_current :: "tid \<Rightarrow> time \<Rightarrow> (plain, unit) prog" where
  "plain_delay_current t nticks = Read (\<lambda>s. case expiry (pk s) nticks of
     None \<Rightarrow> Fail Panic
   | Some w \<Rightarrow> seq (plain_set_status t Blocked) (seq (writes [\<lambda>s. s\<lparr>pk := set_wakeup_time t w (pk s)\<rparr>])
       (bind (plain_remove_from_ready_list t) (plain_add_node_to_delayed_list t))))"

definition plain_store_current :: "tid \<Rightarrow> (plain, unit) prog" where
  "plain_store_current t = seq (append_rec (\<lambda>k. CurrentRec (current_task k)))
     (writes [\<lambda>s. s\<lparr>pk := (pk s)\<lparr>current_task := t\<rparr>\<rparr>])"

definition plain_switch_to :: "tid \<Rightarrow> tid \<Rightarrow> addr \<Rightarrow> (plain, unit) prog" where
  "plain_switch_to t prev i = seq (plain_set_status t Running)
     (seq (Read (\<lambda>s. if status (tasks (pk s) prev) \<noteq> Blocked then plain_set_status prev Ready else Halt))
     (seq (borrow_list i) (seq (plain_next i) (plain_store_current t))))"

text \<open>The kernel's persistent state with the boot transaction and the system transactions of the tasks.\<close>

record psys =
  ps_kernel :: kernel
  boot_undo :: "undo_rec list"
  boot_txc :: txc
  task_undo :: "tid \<Rightarrow> undo_rec list"
  task_txc :: "tid \<Rightarrow> txc"
  ctx_cnt :: usize
  nest_cnt :: usize
  irq_on :: bool

definition on_boot_journal :: "(plain, 'a) prog \<Rightarrow> (psys, 'a) prog" where
  "on_boot_journal p = lift (\<lambda>s. \<lparr>pk = ps_kernel s, p_undo = boot_undo s\<rparr>)
     (\<lambda>x s. s\<lparr>ps_kernel := pk x, boot_undo := p_undo x\<rparr>) p"

definition on_task_journal :: "tid \<Rightarrow> (plain, 'a) prog \<Rightarrow> (psys, 'a) prog" where
  "on_task_journal t p = lift (\<lambda>s. \<lparr>pk = ps_kernel s, p_undo = task_undo s t\<rparr>)
     (\<lambda>x s. s\<lparr>ps_kernel := pk x, task_undo := (task_undo s)(t := p_undo x)\<rparr>) p"

definition on_task_txc :: "tid \<Rightarrow> (txc, 'a) prog \<Rightarrow> (psys, 'a) prog" where
  "on_task_txc t p = lift (\<lambda>s. task_txc s t) (\<lambda>c s. s\<lparr>task_txc := (task_txc s)(t := c)\<rparr>) p"

definition plain_run_no_ctx :: "(plain, 'a) prog \<Rightarrow> (psys, 'a) prog" where
  "plain_run_no_ctx f = seq (writes [\<lambda>s. s\<lparr>ctx_cnt := ctx_cnt s + 1\<rparr>, \<lambda>s. s\<lparr>boot_txc := clear_commit_flag (boot_txc s)\<rparr>])
     (bind (on_boot_journal f) (\<lambda>r. seq (writes [\<lambda>s. s\<lparr>boot_txc := commit_no_replay (boot_txc s)\<rparr>,
        \<lambda>s. s\<lparr>boot_undo := []\<rparr>, \<lambda>s. s\<lparr>ctx_cnt := ctx_cnt s - 1\<rparr>]) (Return r)))"

definition plain_run_sys :: "tid \<Rightarrow> (plain, unit) prog \<Rightarrow> (psys, unit) prog" where
  "plain_run_sys t f = bind (on_task_txc t (try_retrieve_result 0)) (\<lambda>r. case r of
     Inr _ \<Rightarrow> Halt
   | Inl _ \<Rightarrow> seq (on_task_txc t (writes [clear_commit_flag])) (seq (on_task_journal t f)
       (seq (on_task_txc t (cache_result [])) (writes [\<lambda>s. s\<lparr>task_undo := (task_undo s)(t := [])\<rparr>]))))"

definition plain_critical :: "(psys, 'a) prog \<Rightarrow> (psys, 'a) prog" where
  "plain_critical f = seq (writes [\<lambda>s. s\<lparr>irq_on := False\<rparr>, \<lambda>s. s\<lparr>nest_cnt := nest_cnt s + 1\<rparr>]) (bind f (\<lambda>v.
     Write (\<lambda>s. s\<lparr>nest_cnt := nest_cnt s - 1\<rparr>) (Read (\<lambda>s.
       seq (if nest_cnt s = 0 then writes [\<lambda>s. s\<lparr>irq_on := True\<rparr>] else Halt) (Return v)))))"

primrec plain_wake_loop :: "nat \<Rightarrow> time \<Rightarrow> (psys, unit) prog" where
  "plain_wake_loop 0 cur_ticks = Fail Diverges"
| "plain_wake_loop (Suc n) cur_ticks = Read (\<lambda>s. case peek_front DELAYED_TASK_LIST (k_lists (ps_kernel s)) of
     None \<Rightarrow> Halt
   | Some i \<Rightarrow> if wakeup_time i > cur_ticks then Halt
       else seq (plain_run_no_ctx plain_wake_first) (plain_wake_loop n cur_ticks))"

definition plain_wake_up :: "time \<Rightarrow> (psys, unit) prog" where
  "plain_wake_up cur_ticks = seq (plain_wake_loop 4096 cur_ticks) (Read (\<lambda>s.
     let nx = (case peek_front DELAYED_TASK_LIST (k_lists (ps_kernel s)) of
        None \<Rightarrow> MAX_DELAY_TIME | Some i \<Rightarrow> wakeup_time i) in
     writes [\<lambda>s. s\<lparr>ps_kernel := set_next_unblock_time nx (ps_kernel s)\<rparr>]))"

definition plain_process_tick :: "(psys, unit) prog" where
  "plain_process_tick = plain_critical (Write (\<lambda>s. s\<lparr>ps_kernel := inc_tick (ps_kernel s)\<rparr>) (Read (\<lambda>s.
     let cur_ticks = tick_counter (ps_kernel s) in
     if cur_ticks \<ge> next_unblock_time (ps_kernel s) then plain_wake_up cur_ticks else Halt)))"

definition plain_task_delay :: "time \<Rightarrow> (psys, unit) prog" where
  "plain_task_delay nticks = plain_critical (Read (\<lambda>s. let t = current_task (ps_kernel s) in
     plain_run_sys t (plain_delay_current t nticks)))"

primrec plain_switch_loop :: "(tid \<Rightarrow> (psys, unit) prog) \<Rightarrow> tid \<Rightarrow> nat list \<Rightarrow> (psys, bool) prog" where
  "plain_switch_loop jit prev [] = Return False"
| "plain_switch_loop jit prev (i # is) = Read (\<lambda>s. case peek_next i (k_lists (ps_kernel s)) of
     None \<Rightarrow> plain_switch_loop jit prev is
   | Some x \<Rightarrow> let t = item_task x in
       seq (jit t) (seq (if t \<noteq> prev then plain_run_no_ctx (plain_switch_to t prev i) else Halt) (Return True)))"

definition plain_task_switch :: "(tid \<Rightarrow> (psys, unit) prog) \<Rightarrow> (psys, unit) prog" where
  "plain_task_switch jit = Write (\<lambda>s. s\<lparr>ctx_cnt := ctx_cnt s + 1\<rparr>) (Read (\<lambda>s.
     bind (plain_switch_loop jit (current_task (ps_kernel s)) [0..<NUM_PRIORITY_LEVELS]) (\<lambda>ok.
       Write (\<lambda>s. s\<lparr>ctx_cnt := ctx_cnt s - 1\<rparr>) (if ok then Halt else Fail Panic))))"

section \<open>The recovery\<close>

definition boot_roll_back :: "(psys, unit) prog" where
  "boot_roll_back = Read (\<lambda>s. if is_committed (boot_txc s) then writes [\<lambda>s. s\<lparr>boot_undo := []\<rparr>]
     else on_boot_journal plain_recover)"

definition task_roll_back :: "tid \<Rightarrow> (psys, unit) prog" where
  "task_roll_back t = Read (\<lambda>s. if is_committed (task_txc s t) then writes [\<lambda>s. s\<lparr>task_undo := (task_undo s)(t := [])\<rparr>]
     else on_task_journal t plain_recover)"

definition plain_kernel_recovery :: "(psys, unit) prog" where
  "plain_kernel_recovery = Read (\<lambda>s. if ctx_cnt s > 0 then seq boot_roll_back (writes [\<lambda>s. s\<lparr>ctx_cnt := 0\<rparr>])
     else if nest_cnt s > 0 then seq (task_roll_back (current_task (ps_kernel s))) (writes [\<lambda>s. s\<lparr>nest_cnt := 0\<rparr>])
     else Halt)"

interpretation boot_journal: lens "\<lambda>s. \<lparr>pk = ps_kernel s, p_undo = boot_undo s\<rparr>"
    "\<lambda>x s. s\<lparr>ps_kernel := pk x, boot_undo := p_undo x\<rparr>"
  by unfold_locales simp_all

interpretation task_journal: lens "\<lambda>s. \<lparr>pk = ps_kernel s, p_undo = task_undo s t\<rparr>"
    "\<lambda>x s. s\<lparr>ps_kernel := pk x, task_undo := (task_undo s)(t := p_undo x)\<rparr>" for t
  by unfold_locales simp_all

interpretation task_cache: lens "\<lambda>s. task_txc s t" "\<lambda>c s. s\<lparr>task_txc := (task_txc s)(t := c)\<rparr>" for t
  by unfold_locales simp_all

section \<open>The moves refine moves on the abstract lists\<close>

text \<open>\<open>moved s u m n\<close>: from \<open>s\<close> to \<open>u\<close> only the lists changed, to \<open>m\<close>, and at most \<open>n\<close> bytes were logged.\<close>

definition moved :: "plain \<Rightarrow> plain \<Rightarrow> item lmem \<Rightarrow> nat \<Rightarrow> bool" where
  "moved s u m n \<longleftrightarrow> pk u = (pk s)\<lparr>k_lists := m\<rparr> \<and> log_size (p_undo u) \<le> log_size (p_undo s) + n"

abbreviation journal_room :: "plain \<Rightarrow> nat \<Rightarrow> bool" where
  "journal_room s n \<equiv> log_size (p_undo s) + n \<le> JOURNAL_SIZE"

lemma agrees_moved:
  assumes "agrees p q n" "exec q (pmem s) = Inr (a, m)" "journal_room s (20 + n)"
  obtains u where "exec (seq (borrow_list l) p) s = Inr (a, u)" "moved s u m (20 + n)"
  by (rule agrees_exec [OF agrees_after(2) [OF assms(1)] assms(2,3)]) (auto simp: moved_def)

lemma exec_set_status: "journal_room s 12 \<Longrightarrow> exec (plain_set_status t st) s = Inr ((), s\<lparr>p_undo := StatusRec # p_undo s\<rparr>)"
  by (simp add: plain_set_status_def append_rec_def Let_def)

lemma plain_remove_ready:
  assumes "sched_rel (pk s) A" "prio_nat (pk s) t = p" "p < 8" "t \<in> set (ready A p)" "journal_room s 104"
  shows "\<exists>u m. exec (plain_remove_from_ready_list t) s = Inr (sched_node t, u) \<and> moved s u m 104 \<and>
    lowner m (sched_node t) = None \<and> only_list p (pmem s) m \<and>
    lists_rel m (A\<lparr>ready := (ready A)(p := remove1 t (ready A p))\<rparr>)"
proof -
  obtain as bs where s: "ready A p = as @ t # bs" "remove1 t (ready A p) = as @ bs"
    using map_split_at assms lists_rel_distinct by metis
  have "circular (pmem s) p (map sched_node as @ sched_node t # map sched_node bs)"
    using assms(1,3) s(1) by (auto simp: lists_rel_def)
  from remove_circular [OF this] obtain m where m: "exec (remove_impl p (sched_node t)) (pmem s) = Inr ((), m)"
    "circular m p (map sched_node (as @ bs))" "lowner m (sched_node t) = None" "only_list p (pmem s) m" by auto
  obtain u where "exec (seq (borrow_list p) (plain_remove p (sched_node t))) s = Inr ((), u)" "moved s u m 104"
    using agrees_moved [OF agrees_with_node(3) m(1)] assms(5) by auto
  moreover from this have "exec (plain_remove_from_ready_list t) s = Inr (sched_node t, u)" using assms(2,3)
    by (auto simp: plain_remove_from_ready_list_def plain_sched_list_def NUM_PRIORITY_LEVELS_def exec_seq split: sum.splits)
  ultimately show ?thesis using m lists_rel_ready [OF assms(1) m(4) assms(3) m(2)] s(2) by auto
qed

lemma plain_add_ready:
  assumes "sched_rel (pk s) A" "prio_nat (pk s) t = p" "p < 8" "lowner (pmem s) (sched_node t) = None"
    "length (ready A p) < 4095" "journal_room s 88"
  shows "\<exists>u m. exec (plain_add_node_to_ready_list t (sched_node t)) s = Inr ((), u) \<and> moved s u m 88 \<and>
    only_list p (pmem s) m \<and> lists_rel m (A\<lparr>ready := (ready A)(p := ready A p @ [t])\<rparr>)"
proof -
  have "circular (pmem s) p (map sched_node (ready A p))" using assms by (simp add: lists_rel_def)
  from insert_before_cursor_circular [OF this assms(4)] assms(5) obtain m where
    m: "exec (insert_before_cursor p (sched_node t)) (pmem s) = Inr ((), m)"
    "circular m p (map sched_node (ready A p @ [t]))" "only_list p (pmem s) m" by auto
  obtain u where u: "exec (seq (borrow_list p) (plain_insert_before_cursor_impl p (sched_node t))) s = Inr ((), u)"
    "moved s u m 76"
    using agrees_moved [OF agrees_insert_before_cursor_impl m(1)] assms(6) by auto
  then have "exec (plain_add_node_to_ready_list t (sched_node t)) s = Inr ((), u\<lparr>p_undo := StatusRec # p_undo u\<rparr>)"
    using assms(2,3,6) by (simp add: plain_add_node_to_ready_list_def plain_sched_list_def NUM_PRIORITY_LEVELS_def
        exec_seq exec_set_status moved_def)
  moreover have "moved s (u\<lparr>p_undo := StatusRec # p_undo u\<rparr>) m 88" using u(2) by (simp add: moved_def)
  ultimately show ?thesis using m lists_rel_ready [OF assms(1) m(3) assms(3) m(2)] by blast
qed

lemma plain_pop_delayed:
  assumes "sched_rel (pk s) A" "delayed A = t # ts" "journal_room s 76"
  shows "\<exists>u m. exec (seq (borrow_list 8) (plain_pop_front 8)) s = Inr (Some (sched_node t), u) \<and> moved s u m 76 \<and>
    lowner m (sched_node t) = None \<and> only_list 8 (pmem s) m \<and> lists_rel m (A\<lparr>delayed := ts\<rparr>)"
proof -
  have "linear (pmem s) 8 (sched_node t # map sched_node ts)" using assms by (auto simp: lists_rel_def)
  from pop_front_linear [OF this] obtain m where m: "exec (pop_front 8) (pmem s) = Inr (Some (sched_node t), m)"
    "linear m 8 (map sched_node ts)" "lowner m (sched_node t) = None" "only_list 8 (pmem s) m" by auto
  obtain u where "exec (seq (borrow_list 8) (plain_pop_front 8)) s = Inr (Some (sched_node t), u)" "moved s u m 76"
    using agrees_moved [OF agrees_pop_front m(1)] assms(3) by auto
  then show ?thesis using m lists_rel_delayed [OF assms(1) m(4,2)] by blast
qed

lemma plain_remove_waiting:
  assumes "sched_rel (pk s) A" "w > 8" "t \<in> set (waiting A w)" "journal_room s 104"
  shows "\<exists>u m. exec (seq (borrow_list w) (plain_remove w (event_node t))) s = Inr ((), u) \<and> moved s u m 104 \<and>
    only_list w (pmem s) m \<and> lists_rel m (A\<lparr>waiting := (waiting A)(w := remove1 t (waiting A w))\<rparr>)"
proof -
  obtain as bs where s: "waiting A w = as @ t # bs" "remove1 t (waiting A w) = as @ bs"
    using map_split_at assms lists_rel_distinct by metis
  have "linear (pmem s) w (map event_node as @ event_node t # map event_node bs)"
    using assms(1,2) s(1) by (auto simp: lists_rel_def)
  from remove_linear [OF this] obtain m where m: "exec (remove_impl w (event_node t)) (pmem s) = Inr ((), m)"
    "linear m w (map event_node (as @ bs))" "only_list w (pmem s) m" by auto
  obtain u where "exec (seq (borrow_list w) (plain_remove w (event_node t))) s = Inr ((), u)" "moved s u m 104"
    using agrees_moved [OF agrees_with_node(3) m(1)] assms(4) by auto
  then show ?thesis using m lists_rel_waiting [OF assms(1) m(3) assms(2) m(2)] s(2) by auto
qed

lemma seq_bind_assoc: "seq p (bind q f) = bind (seq p q) f" "seq (seq p q) r = seq p (seq q r)"
  by (simp_all add: seq_def bind_assoc)

lemma moved_trans: "moved s u m n \<Longrightarrow> moved u v m' n' \<Longrightarrow> moved s v m' (n + n')"
  by (simp add: moved_def)

text \<open>A task that is woken by the clock leaves the wait list it may be in.\<close>

lemma plain_leave_waiting:
  assumes "sched_rel (pk s) A" "journal_room s 104" "lowner (pmem s) (sched_node t) = None"
  shows "\<exists>u m. exec (case lowner (pmem s) (event_node t) of None \<Rightarrow> Halt
      | Some w \<Rightarrow> seq (borrow_list w) (plain_remove w (event_node t))) s = Inr ((), u) \<and> moved s u m 104 \<and>
    lowner m (sched_node t) = None \<and> lvalue m = lvalue (pmem s) \<and>
    lists_rel m (A\<lparr>waiting := \<lambda>w. remove1 t (waiting A w)\<rparr>)"
proof (cases "lowner (pmem s) (event_node t)")
  case None
  then have "\<And>w. w > 8 \<Longrightarrow> t \<notin> set (waiting A w)"
    using lists_rel_owner(3) [OF assms(1), of _ "event_node t"] by auto
  then have "lists_rel (pmem s) (A\<lparr>waiting := \<lambda>w. remove1 t (waiting A w)\<rparr>)"
    using lists_rel_waiting_cong [of "pmem s" "waiting A" A] assms(1) by (simp add: remove1_idem)
  moreover have "moved s s (pmem s) 104" by (simp add: moved_def)
  ultimately show ?thesis using None assms(3) by auto
next
  case (Some w)
  have w: "8 < w" "t \<in> set (waiting A w)" using event_node_owner [OF assms(1) Some] by auto
  obtain u m where u: "exec (seq (borrow_list w) (plain_remove w (event_node t))) s = Inr ((), u)" "moved s u m 104"
    "only_list w (pmem s) m" "lists_rel m (A\<lparr>waiting := (waiting A)(w := remove1 t (waiting A w))\<rparr>)"
    using plain_remove_waiting [OF assms(1) w assms(2)] by auto
  have "v > 8 \<Longrightarrow> v \<noteq> w \<Longrightarrow> t \<notin> set (waiting A v)" for v
    using lists_rel_owner(3) [OF assms(1), of v "event_node t"] Some by auto
  then have "lists_rel m (A\<lparr>waiting := \<lambda>w. remove1 t (waiting A w)\<rparr>)"
    by (intro lists_rel_waiting_cong [OF u(4)]) (auto simp: remove1_idem)
  moreover have "lowner m (sched_node t) \<noteq> Some v" for v
    using u(3) w(1) assms(3) sched_node_owner [OF u(4), of t v] by (cases "v = w") (auto simp: only_list_def)
  ultimately show ?thesis using u Some by (auto simp: only_list_def)
qed

text \<open>One transaction of the tick handler wakes the first delayed task, and needs at most 268 of the journal's 1024 bytes.\<close>

lemma plain_wake_first_refines:
  assumes "sched_rel (pk s) A" "delayed A = t # ts" "prio_nat (pk s) t < 8" "length (ready A (prio_nat (pk s) t)) < 4095"
    "journal_room s 268"
  shows "\<exists>u m. exec plain_wake_first s = Inr ((), u) \<and> moved s u m 268 \<and> lvalue m = lvalue (pmem s) \<and>
    lists_rel m (wake_task (prio_nat (pk s)) t A)"
proof -
  let ?p = "prio_nat (pk s) t" and ?A1 = "A\<lparr>delayed := ts\<rparr>"
  let ?A2 = "?A1\<lparr>waiting := \<lambda>w. remove1 t (waiting A w)\<rparr>"
  obtain u1 m1 where 1: "exec (seq (borrow_list 8) (plain_pop_front 8)) s = Inr (Some (sched_node t), u1)"
    "moved s u1 m1 76" "lowner m1 (sched_node t) = None" "only_list 8 (pmem s) m1" "lists_rel m1 ?A1"
    using plain_pop_delayed [OF assms(1,2)] assms(5) by auto
  have t: "item_task (lvalue m1 (sched_node t)) = t" using own_items_task(1) 1(5) by (simp add: lists_rel_def)
  obtain u2 m2 where 2: "exec (case lowner m1 (event_node t) of None \<Rightarrow> Halt
      | Some w \<Rightarrow> seq (borrow_list w) (plain_remove w (event_node t))) u1 = Inr ((), u2)" "moved u1 u2 m2 104"
    "lowner m2 (sched_node t) = None" "lvalue m2 = lvalue m1" "lists_rel m2 ?A2"
    using plain_leave_waiting [of u1 ?A1 t] 1 assms(5) by (auto simp: moved_def)
  obtain u3 m3 where 3: "exec (plain_add_node_to_ready_list t (sched_node t)) u2 = Inr ((), u3)" "moved u2 u3 m3 88"
    "only_list ?p m2 m3" "lists_rel m3 (?A2\<lparr>ready := (ready A)(?p := ready A ?p @ [t])\<rparr>)"
    using plain_add_ready [of u2 ?A2 t ?p] 1(2) 2(2,3,5) assms(3-5) by (auto simp: moved_def prio_of_def)
  have "exec plain_wake_first s = Inr ((), u3)" using 1(1,2) 2(1) 3(1) t
    by (simp add: plain_wake_first_def DELAYED_TASK_LIST_def seq_bind_assoc(1) exec_bind [of "seq p q" for p q] exec_seq [of "case x of None \<Rightarrow> p | Some y \<Rightarrow> q y" for x p q]
        unwrap_unchecked_def with_lists_def moved_def)
  moreover have "moved s u3 m3 268" using moved_trans [OF moved_trans [OF 1(2) 2(2)] 3(2)] by simp
  moreover have "lvalue m3 = lvalue (pmem s)" using 1(4) 2(4) 3(3) by (simp add: only_list_def)
  ultimately show ?thesis using 3(4) assms(2) by (auto simp: wake_task_def)
qed

section \<open>The tick handler agrees with the default build's\<close>

lemma exec_run_no_ctx:
  assumes "exec f \<lparr>pk = ps_kernel s, p_undo = boot_undo s\<rparr> = Inr (a, u)"
  shows "exec (plain_run_no_ctx f) s = Inr (a, s\<lparr>ps_kernel := pk u, boot_undo := [],
    boot_txc := commit_no_replay (clear_commit_flag (boot_txc s))\<rparr>)"
  using assms by (simp add: plain_run_no_ctx_def on_boot_journal_def exec_seq exec_bind boot_journal.exec_lift)

lemma plain_wake_loop_refines:
  assumes "sched_rel (ps_kernel s) A" "roomy (ps_kernel s) A" "length (delayed A) < n" "boot_undo s = []"
  shows "\<exists>m c. exec (plain_wake_loop n now) s = Inr ((), s\<lparr>ps_kernel := (ps_kernel s)\<lparr>k_lists := m\<rparr>, boot_txc := c\<rparr>) \<and>
    lvalue m = lvalue (k_lists (ps_kernel s)) \<and> lists_rel m (wake_due (ps_kernel s) now A)"
  using assms
proof (induction n arbitrary: s A)
  case (Suc n)
  let ?k = "ps_kernel s"
  note peek = peek_front_delayed [OF Suc.prems(1)]
  show ?case
  proof (cases "delayed A")
    case Nil
    then show ?thesis using Suc.prems(1) peek
      by (intro exI [of _ "k_lists ?k"] exI [of _ "boot_txc s"]) (simp add: wake_due_def)
  next
    case (Cons t ts)
    then have pf: "peek_front DELAYED_TASK_LIST (k_lists ?k) = Some (lvalue (k_lists ?k) (sched_node t))"
      using peek by simp
    show ?thesis
    proof (cases "get_wakeup_time ?k t \<le> now")
      case False
      then show ?thesis using Suc.prems(1) pf Cons
        by (intro exI [of _ "k_lists ?k"] exI [of _ "boot_txc s"]) (auto simp: wake_due_def get_wakeup_time_def not_le)
    next
      case True
      let ?A = "wake_task (prio_nat ?k) t A"
      have p: "prio_nat ?k t < 8" using Suc.prems(2) Cons by (simp add: roomy_def)
      then have len: "length (ready A (prio_nat ?k t)) < 4095" using Suc.prems(2) Cons by (fastforce simp: roomy_def)
      obtain u m where u: "exec plain_wake_first \<lparr>pk = ?k, p_undo = boot_undo s\<rparr> = Inr ((), u)"
          "pk u = ?k\<lparr>k_lists := m\<rparr>" "lvalue m = lvalue (k_lists ?k)" "lists_rel m ?A"
        using plain_wake_first_refines [of "\<lparr>pk = ?k, p_undo = boot_undo s\<rparr>" A t ts] Suc.prems(1,4) Cons p len
        by (auto simp: moved_def JOURNAL_SIZE_def)
      define s1 where "s1 = s\<lparr>ps_kernel := ?k\<lparr>k_lists := m\<rparr>, boot_undo := [],
        boot_txc := commit_no_replay (clear_commit_flag (boot_txc s))\<rparr>"
      have step: "exec (plain_run_no_ctx plain_wake_first) s = Inr ((), s1)"
        using exec_run_no_ctx [OF u(1)] u(2) by (simp add: s1_def)
      have w: "get_wakeup_time (ps_kernel s1) = get_wakeup_time ?k" "prio_of (ps_kernel s1) = prio_of ?k"
        using u(3) by (simp_all add: s1_def get_wakeup_time_def [abs_def] prio_of_def [abs_def])
      have "roomy (ps_kernel s1) ?A" using Suc.prems(2) w(2) Cons by (auto simp: roomy_def wake_task_def)
      moreover have "sched_rel (ps_kernel s1) ?A" "boot_undo s1 = []" using u(4) by (simp_all add: s1_def)
      moreover have "length (delayed ?A) < n" using Suc.prems(3) Cons by (simp add: wake_task_def)
      ultimately obtain m2 c where m2:
          "exec (plain_wake_loop n now) s1 = Inr ((), s1\<lparr>ps_kernel := (ps_kernel s1)\<lparr>k_lists := m2\<rparr>, boot_txc := c\<rparr>)"
          "lvalue m2 = lvalue (k_lists (ps_kernel s1))" "lists_rel m2 (wake_due (ps_kernel s1) now ?A)"
        using Suc.IH by blast
      have "wake_due (ps_kernel s1) now ?A = wake_due ?k now A"
        using wake_due_Cons [OF Cons True] w by (simp add: wake_due_def)
      moreover have "exec (plain_wake_loop (Suc n) now) s = exec (plain_wake_loop n now) s1"
        using pf True step by (auto simp: get_wakeup_time_def exec_seq)
      moreover have "s1\<lparr>ps_kernel := (ps_kernel s1)\<lparr>k_lists := m2\<rparr>, boot_txc := c\<rparr> =
          s\<lparr>ps_kernel := ?k\<lparr>k_lists := m2\<rparr>, boot_txc := c\<rparr>"
        using Suc.prems(4) by (cases s) (simp add: s1_def)
      ultimately show ?thesis using m2 u(3) by (auto simp: s1_def)
    qed
  qed
qed simp

text \<open>The lists and the next wake-up time after a tick.\<close>

definition ticked :: "kernel \<Rightarrow> sched \<Rightarrow> sched" where
  "ticked k A = (if next_unblock_time k \<le> tick_counter k + 1 then wake_due k (tick_counter k + 1) A else A)"

definition next_alarm :: "kernel \<Rightarrow> sched \<Rightarrow> time" where
  "next_alarm k A = (if next_unblock_time k \<le> tick_counter k + 1
     then (case delayed (ticked k A) of [] \<Rightarrow> MAX_DELAY_TIME | t # ts \<Rightarrow> get_wakeup_time k t) else next_unblock_time k)"

lemma tick_wakes:
  assumes "sched_rel k A" "roomy k A" "next_unblock_time k \<le> tick_counter k + 1"
  shows "sched_rel (inc_tick k) A" "roomy (inc_tick k) A" "get_wakeup_time (inc_tick k) = get_wakeup_time k"
    "wake_due (inc_tick k) (tick_counter k + 1) A = ticked k A" "length (delayed A) < 4096"
  using assms by (fastforce simp: inc_tick_def roomy_def get_wakeup_time_def [abs_def] prio_of_def [abs_def]
      wake_due_def ticked_def)+

text \<open>The tick handler of both builds on the same kernel data.\<close>

lemma default_tick:
  assumes "sched_rel k A" "roomy k A"
  shows "\<exists>k'. exec process_tick k = Inr ((), k') \<and> sched_rel k' (ticked k A) \<and> tick_counter k' = tick_counter k + 1 \<and>
    get_wakeup_time k' = get_wakeup_time k \<and> next_unblock_time k' = next_alarm k A"
proof (cases "next_unblock_time k \<le> tick_counter k + 1")
  case True
  note t = tick_wakes [OF assms True]
  obtain k1 where k1: "exec (wake_loop 4096 (tick_counter k + 1)) (inc_tick k) = Inr ((), k1)" "sched_rel k1 (ticked k A)"
    "get_wakeup_time k1 = get_wakeup_time k" "tick_counter k1 = tick_counter k + 1"
    using wake_loop_refines [OF t(1,2,5), of "tick_counter k + 1"] t(3,4) by (auto simp: inc_tick_def)
  have "next_alarm k A = (case peek_front DELAYED_TASK_LIST (k_lists k1) of None \<Rightarrow> MAX_DELAY_TIME | Some i \<Rightarrow> wakeup_time i)"
    using True peek_front_delayed [OF k1(2)] fun_cong [OF k1(3)]
    by (simp add: next_alarm_def get_wakeup_time_def split: list.split)
  then have "exec process_tick k = Inr ((), set_next_unblock_time (next_alarm k A) k1)"
    using True k1(1) by (simp add: process_tick_def inc_tick_def exec_seq Let_def)
  then show ?thesis using k1 by (simp add: set_next_unblock_time_def get_wakeup_time_def [abs_def])
next
  case False
  then have "exec process_tick k = Inr ((), inc_tick k)" by (simp add: process_tick_def inc_tick_def Let_def)
  then show ?thesis using False assms(1) by (simp add: inc_tick_def ticked_def next_alarm_def get_wakeup_time_def [abs_def])
qed

lemma plain_tick:
  assumes "sched_rel (ps_kernel s) A" "roomy (ps_kernel s) A" "boot_undo s = []" "nest_cnt s = 0"
  defines "k \<equiv> ps_kernel s"
  shows "\<exists>m c. exec plain_process_tick s = Inr ((), s\<lparr>ps_kernel := k\<lparr>k_lists := m, tick_counter := tick_counter k + 1,
      next_unblock_time := next_alarm k A\<rparr>, boot_txc := c, irq_on := True\<rparr>) \<and>
    lists_rel m (ticked k A) \<and> lvalue m = lvalue (k_lists k)"
proof (cases "next_unblock_time k \<le> tick_counter k + 1")
  case True
  note t = tick_wakes [OF assms(1,2), folded k_def, OF True]
  define s1 where "s1 = s\<lparr>irq_on := False, nest_cnt := 1, ps_kernel := inc_tick k\<rparr>"
  have f: "ps_kernel s1 = inc_tick k" "boot_undo s1 = []" using assms(3) by (simp_all add: s1_def)
  obtain m c where m: "exec (plain_wake_loop 4096 (tick_counter k + 1)) s1 =
      Inr ((), s1\<lparr>ps_kernel := (inc_tick k)\<lparr>k_lists := m\<rparr>, boot_txc := c\<rparr>)"
    "lvalue m = lvalue (k_lists k)" "lists_rel m (ticked k A)"
    using plain_wake_loop_refines [of s1 A 4096 "tick_counter k + 1"] t f by (auto simp: inc_tick_def)
  have "sched_rel (k\<lparr>k_lists := m\<rparr>) (ticked k A)" using m(3) by simp
  note peek = peek_front_delayed [OF this]
  have nx: "next_alarm k A = (case peek_front DELAYED_TASK_LIST m of None \<Rightarrow> MAX_DELAY_TIME | Some i \<Rightarrow> wakeup_time i)"
    using True peek m(2) by (simp add: next_alarm_def get_wakeup_time_def split: list.split)
  have "exec plain_process_tick s = Inr ((), s\<lparr>ps_kernel := k\<lparr>k_lists := m, tick_counter := tick_counter k + 1,
      next_unblock_time := next_alarm k A\<rparr>, boot_txc := c, irq_on := True\<rparr>)"
    unfolding nx using True m(1) assms(4)
    by (cases s) (simp add: plain_process_tick_def plain_wake_up_def plain_critical_def exec_seq exec_bind s1_def inc_tick_def k_def
          set_next_unblock_time_def Let_def)
  then show ?thesis using m(2,3) by blast
next
  case False
  have "exec plain_process_tick s = Inr ((), s\<lparr>ps_kernel := inc_tick k, irq_on := True\<rparr>)"
    using False assms(4) by (cases s) (simp add: plain_process_tick_def plain_critical_def exec_seq exec_bind inc_tick_def k_def Let_def)
  moreover have "s\<lparr>ps_kernel := inc_tick k, irq_on := True\<rparr> = s\<lparr>ps_kernel := k\<lparr>k_lists := k_lists k,
      tick_counter := tick_counter k + 1, next_unblock_time := next_alarm k A\<rparr>, boot_txc := boot_txc s, irq_on := True\<rparr>"
    using False by (cases s) (simp add: inc_tick_def next_alarm_def k_def)
  moreover have "lists_rel (k_lists k) (ticked k A)" using False assms(1) by (simp add: ticked_def k_def)
  ultimately show ?thesis by metis
qed

text \<open>Claim C30. The tick handler of the build without the feature \<open>opt_list\<close>, whose list operations log to the journal,
  agrees with the default build's: from the same kernel data, with no transaction open, both end with the same ready, delay
  and wait lists, the same clock, the same wake-up times and the same next wake-up time. In this build the journal is empty
  afterwards and no task's state has changed, not even that of a woken task.\<close>

theorem plain_tick_agrees:
  assumes "sched_rel (ps_kernel s) A" "roomy (ps_kernel s) A" "boot_undo s = []" "nest_cnt s = 0"
  shows "\<exists>k' s' A'. exec process_tick (ps_kernel s) = Inr ((), k') \<and> exec plain_process_tick s = Inr ((), s') \<and>
    sched_rel k' A' \<and> sched_rel (ps_kernel s') A' \<and>
    tick_counter (ps_kernel s') = tick_counter k' \<and> get_wakeup_time (ps_kernel s') = get_wakeup_time k' \<and>
    next_unblock_time (ps_kernel s') = next_unblock_time k' \<and>
    boot_undo s' = [] \<and> ctx_cnt s' = ctx_cnt s \<and> tasks (ps_kernel s') = tasks (ps_kernel s)"
proof -
  obtain k' where k': "exec process_tick (ps_kernel s) = Inr ((), k')" "sched_rel k' (ticked (ps_kernel s) A)"
    "tick_counter k' = tick_counter (ps_kernel s) + 1" "get_wakeup_time k' = get_wakeup_time (ps_kernel s)"
    "next_unblock_time k' = next_alarm (ps_kernel s) A"
    using default_tick [OF assms(1,2)] by blast
  obtain m c where m: "lists_rel m (ticked (ps_kernel s) A)" "lvalue m = lvalue (k_lists (ps_kernel s))"
    and e: "exec plain_process_tick s = Inr ((), s\<lparr>ps_kernel := (ps_kernel s)\<lparr>k_lists := m,
      tick_counter := tick_counter (ps_kernel s) + 1, next_unblock_time := next_alarm (ps_kernel s) A\<rparr>, boot_txc := c, irq_on := True\<rparr>)"
    using plain_tick [OF assms] by blast
  show ?thesis
    by (rule exI, rule exI, rule exI [of _ "ticked (ps_kernel s) A"], intro conjI, rule k'(1), rule e)
      (use k' m assms(3) in \<open>simp_all add: get_wakeup_time_def [abs_def]\<close>)
qed

text \<open>The kernel of \<open>demo_waiting\<close> one tick before task 2 is woken, with no transaction open.\<close>

definition demo_plain :: psys where
  "demo_plain = \<lparr>ps_kernel = demo_waiting\<lparr>tick_counter := 49, next_unblock_time := 50\<rparr>, boot_undo = [],
     boot_txc = \<lparr>c_bytes = \<lambda>_. 0, c_ptr = 0, c_tail = TX_COMMITTED\<rparr>, task_undo = \<lambda>_. [],
     task_txc = \<lambda>_. \<lparr>c_bytes = \<lambda>_. 0, c_ptr = 0, c_tail = 0\<rparr>, ctx_cnt = 0, nest_cnt = 0, irq_on = True\<rparr>"

abbreviation demo_plain_sched :: sched where
  "demo_plain_sched \<equiv> \<lparr>ready = (\<lambda>_. [])(1 := [1]), delayed = [2], waiting = (\<lambda>_. [])(20 := [2])\<rparr>"

lemma demo_plain_ok: "sched_rel (ps_kernel demo_plain) demo_plain_sched" "roomy (ps_kernel demo_plain) demo_plain_sched"
    "boot_undo demo_plain = []" "nest_cnt demo_plain = 0" "ctx_cnt demo_plain = 0" "\<forall>t. task_undo demo_plain t = []"
  using demo_waiting_rel
  by (auto simp: demo_plain_def roomy_def demo_waiting_def demo_kernel_def prio_of_def)

theorem plain_tick_agrees_witness:
  "\<exists>k' s' A'. exec process_tick (ps_kernel demo_plain) = Inr ((), k') \<and> exec plain_process_tick demo_plain = Inr ((), s') \<and>
    sched_rel k' A' \<and> sched_rel (ps_kernel s') A' \<and>
    tick_counter (ps_kernel s') = tick_counter k' \<and> get_wakeup_time (ps_kernel s') = get_wakeup_time k' \<and>
    next_unblock_time (ps_kernel s') = next_unblock_time k' \<and>
    boot_undo s' = [] \<and> ctx_cnt s' = ctx_cnt demo_plain \<and> tasks (ps_kernel s') = tasks (ps_kernel demo_plain)"
  by (rule plain_tick_agrees [OF demo_plain_ok(1-4)])

section \<open>Choosing the next task\<close>

lemma plain_advance:
  assumes "sched_rel (pk s) A" "p < 8" "ready A p = c # cs" "journal_room s 20"
  shows "\<exists>u m. exec (seq (borrow_list p) (plain_next p)) s = Inr ((), u) \<and> moved s u m 20 \<and>
    lists_rel m (A\<lparr>ready := (ready A)(p := cs @ [c])\<rparr>)"
proof -
  have "circular (pmem s) p (sched_node c # map sched_node cs)" using assms by (auto simp: lists_rel_def)
  from plist_next_circular [OF this] obtain m where m: "exec (seq (plist_next p) Halt) (pmem s) = Inr ((), m)"
    "circular m p (map sched_node (cs @ [c]))" "only_list p (pmem s) m" by (auto simp: exec_seq)
  obtain u where "exec (seq (borrow_list p) (plain_next p)) s = Inr ((), u)" "moved s u m 20"
    using agrees_moved [OF agrees_next m(1)] assms(4) by auto
  then show ?thesis using lists_rel_ready [OF assms(1) m(3) assms(2) m(2)] by blast
qed

lemma plain_switch_to_refines:
  assumes "sched_rel (pk s) A" "p < 8" "ready A p = c # cs" "journal_room s 56"
  shows "\<exists>u m. exec (plain_switch_to t prev p) s = Inr ((), u) \<and> pk u = (pk s)\<lparr>k_lists := m, current_task := t\<rparr> \<and>
    lists_rel m (A\<lparr>ready := (ready A)(p := cs @ [c])\<rparr>)"
proof -
  obtain us where us: "exec (seq (plain_set_status t Running)
      (Read (\<lambda>s. if status (tasks (pk s) prev) \<noteq> Blocked then plain_set_status prev Ready else Halt))) s =
      Inr ((), s\<lparr>p_undo := us\<rparr>)" "log_size us \<le> log_size (p_undo s) + 24"
    using assms(4) by (cases "status (tasks (pk s) prev) = Blocked") (auto simp: exec_seq exec_set_status)
  obtain u m where u: "exec (seq (borrow_list p) (plain_next p)) (s\<lparr>p_undo := us\<rparr>) = Inr ((), u)"
    "moved (s\<lparr>p_undo := us\<rparr>) u m 20" "lists_rel m (A\<lparr>ready := (ready A)(p := cs @ [c])\<rparr>)"
    using plain_advance [of "s\<lparr>p_undo := us\<rparr>" A p c cs] assms us(2) by auto
  have "exec (plain_store_current t) u = Inr ((), u\<lparr>pk := (pk u)\<lparr>current_task := t\<rparr>,
      p_undo := CurrentRec (current_task (pk u)) # p_undo u\<rparr>)"
    using u(2) us(2) assms(4) by (simp add: plain_store_current_def exec_seq append_rec_def moved_def Let_def)
  moreover have "plain_switch_to t prev p = seq (seq (plain_set_status t Running)
      (Read (\<lambda>s. if status (tasks (pk s) prev) \<noteq> Blocked then plain_set_status prev Ready else Halt)))
      (seq (seq (borrow_list p) (plain_next p)) (plain_store_current t))"
    by (simp add: plain_switch_to_def seq_bind_assoc)
  ultimately show ?thesis using us(1) u by (auto simp: exec_seq [of _ "seq p q" for p q] exec_seq [of "seq p q" for p q] moved_def)
qed

text \<open>Like the default build's, this scheduler switches to the member after the cursor of the most important ready list that
  is not empty; the states of the tasks stay as they are.\<close>

theorem plain_switch_picks_highest:
  assumes "sched_rel (ps_kernel s) A" "p < 8" "ready A p = c # cs" "\<forall>i<p. ready A i = []" "t = hd (cs @ [c])"
    and "t \<noteq> current_task (ps_kernel s)" "boot_undo s = []"
    and jit: "\<And>s. \<exists>s'. exec (jit t) s = Inr ((), s') \<and> ps_kernel s' = ps_kernel s \<and> boot_undo s' = boot_undo s"
  shows "\<exists>s'. exec (plain_task_switch jit) s = Inr ((), s') \<and> current_task (ps_kernel s') = t \<and>
    sched_rel (ps_kernel s') (A\<lparr>ready := (ready A)(p := cs @ [c])\<rparr>) \<and> tasks (ps_kernel s') = tasks (ps_kernel s) \<and>
    boot_undo s' = []"
proof -
  let ?k = "ps_kernel s" and ?s = "s\<lparr>ctx_cnt := ctx_cnt s + 1\<rparr>"
  have circ: "circular (k_lists ?k) i (map sched_node (ready A i))" if "i < 8" for i
    using assms(1) that by (simp add: lists_rel_def)
  have empty: "peek_next i (k_lists ?k) = None" if "i < p" for i
    using circ [of i] assms(2,4) that by (simp add: circular_def peek_next_def)
  have "own_items (k_lists ?k)" using assms(1) by (simp add: lists_rel_def)
  moreover have "peek_next p (k_lists ?k) = Some (lvalue (k_lists ?k) (sched_node t))"
    using circ [OF assms(2)] assms(3,5) by (cases cs) (auto simp: circular_def peek_next_def)
  ultimately obtain x where here: "peek_next p (k_lists ?k) = Some x" "item_task x = t" using own_items_task(1) by auto
  obtain s1 where s1: "exec (jit t) ?s = Inr ((), s1)" "ps_kernel s1 = ?k" "boot_undo s1 = []"
    using jit [of ?s] assms(7) by auto
  obtain u m where u: "exec (plain_switch_to t (current_task ?k) p) \<lparr>pk = ?k, p_undo = []\<rparr> = Inr ((), u)"
    "pk u = ?k\<lparr>k_lists := m, current_task := t\<rparr>" "lists_rel m (A\<lparr>ready := (ready A)(p := cs @ [c])\<rparr>)"
    using plain_switch_to_refines [of "\<lparr>pk = ?k, p_undo = []\<rparr>" A p c cs t "current_task ?k"] assms(1-3)
    by (auto simp: JOURNAL_SIZE_def)
  define s2 where "s2 = s1\<lparr>ps_kernel := pk u, boot_undo := [], boot_txc := commit_no_replay (clear_commit_flag (boot_txc s1))\<rparr>"
  have "exec (plain_run_no_ctx (plain_switch_to t (current_task ?k) p)) s1 = Inr ((), s2)"
    unfolding s2_def by (rule exec_run_no_ctx) (use u(1) s1 in simp)
  then have loop: "exec (plain_switch_loop jit (current_task ?k) (is @ p # js)) ?s = Inr (True, s2)"
      if "\<forall>i\<in>set is. i < p" for "is" js
    using that by (induction "is") (use here s1(1) assms(6) in \<open>auto simp: empty exec_seq Let_def\<close>)
  have "[0..<NUM_PRIORITY_LEVELS] = [0..<p] @ p # [Suc p..<8]"
    unfolding NUM_PRIORITY_LEVELS_def using assms(2) upt_conv_Cons [OF assms(2)]
    by (metis le_add_diff_inverse less_imp_le_nat upt_add_eq_append zero_le)
  then have "exec (plain_task_switch jit) s = Inr ((), s2\<lparr>ctx_cnt := ctx_cnt s2 - 1\<rparr>)"
    using loop [of "[0..<p]"] by (simp add: plain_task_switch_def exec_bind)
  then show ?thesis using u(2,3) by (simp add: s2_def)
qed

section \<open>Delaying the current task\<close>

lemma plain_add_delayed:
  assumes "sched_rel (pk s) A" "lowner (pmem s) (sched_node t) = None" "length (delayed A) < 4095" "journal_room s 88"
  shows "\<exists>u m. exec (plain_add_node_to_delayed_list t (sched_node t)) s = Inr ((), u) \<and>
    pk u = (pk s)\<lparr>k_lists := m, next_unblock_time := min (next_unblock_time (pk s)) (get_wakeup_time (pk s) t)\<rparr> \<and>
    lists_rel m (A\<lparr>delayed := insert_at (wakes_later (pk s) t) t (delayed A)\<rparr>)"
proof -
  let ?s = "s\<lparr>p_undo := StatusRec # p_undo s\<rparr>"
  have "linear (pmem s) 8 (map sched_node (delayed A))" using assms(1) by (simp add: lists_rel_def)
  from insert_sorted_linear [OF this assms(2), of sched_gt] assms(3) obtain m where
    m: "exec (insert_sorted sched_gt 8 (sched_node t)) (pmem ?s) = Inr ((), m)"
    "linear m 8 (insert_at (\<lambda>a. sched_gt (lvalue (pmem s) (sched_node t)) (lvalue (pmem s) a)) (sched_node t)
        (map sched_node (delayed A)))" "only_list 8 (pmem s) m" by auto
  have l: "linear m 8 (map sched_node (insert_at (wakes_later (pk s) t) t (delayed A)))"
    using m(2) by (simp add: insert_at_map sched_gt_def wakes_later_def [abs_def] get_wakeup_time_def [abs_def])
  obtain u where u: "exec (seq (borrow_list 8) (plain_insert_sorted_impl sched_gt 8 (sched_node t))) ?s = Inr ((), u)"
    "moved ?s u m 76"
    using agrees_moved [OF agrees_insert_sorted_impl m(1)] assms(4) by auto
  have w: "get_wakeup_time (pk u) t = get_wakeup_time (pk s) t" "next_unblock_time (pk u) = next_unblock_time (pk s)"
    using u(2) m(3) by (simp_all add: moved_def get_wakeup_time_def only_list_def)
  define v where "v = (if get_wakeup_time (pk s) t < next_unblock_time (pk s)
     then u\<lparr>pk := set_next_unblock_time (get_wakeup_time (pk s) t) (pk u)\<rparr> else u)"
  have "exec (plain_add_node_to_delayed_list t (sched_node t)) s = Inr ((), v)"
    using u(1) w assms(4) by (simp add: plain_add_node_to_delayed_list_def exec_seq [of "plain_set_status t st" for st]
        exec_set_status DELAYED_TASK_LIST_def seq_bind_assoc(2) [symmetric] exec_seq v_def Let_def split: sum.splits)
  moreover have "pk v = (pk s)\<lparr>k_lists := m, next_unblock_time := min (next_unblock_time (pk s)) (get_wakeup_time (pk s) t)\<rparr>"
    using u(2) w by (auto simp: v_def moved_def set_next_unblock_time_def min_def)
  ultimately show ?thesis using lists_rel_delayed [OF assms(1) m(3) l] by blast
qed

lemma plain_delay_current_refines:
  assumes "sched_rel (pk s) A" "prio_nat (pk s) t = p" "p < 8" "t \<in> set (ready A p)" "length (delayed A) < 4095"
    and "expiry (pk s) n = Some w" "journal_room s 204"
  shows "\<exists>u m. exec (plain_delay_current t n) s = Inr ((), u) \<and>
    pk u = (pk s)\<lparr>k_lists := m, next_unblock_time := min (next_unblock_time (pk s)) w\<rparr> \<and>
    lists_rel m (A\<lparr>ready := (ready A)(p := remove1 t (ready A p)),
      delayed := insert_at (wakes_later (set_wakeup_time t w (pk s)) t) t (delayed A)\<rparr>)"
proof -
  let ?s = "s\<lparr>p_undo := StatusRec # p_undo s, pk := set_wakeup_time t w (pk s)\<rparr>"
  have rel: "sched_rel (pk ?s) A" using assms(1) 
    by (auto simp: set_wakeup_time_def lists_rel_def own_items_def circular_def linear_def)
  have p: "prio_nat (pk ?s) t = p" using assms(2) by (simp add: set_wakeup_time_def prio_of_def)
  obtain u1 m1 where 1: "exec (plain_remove_from_ready_list t) ?s = Inr (sched_node t, u1)" "moved ?s u1 m1 104"
    "lowner m1 (sched_node t) = None" "only_list p (pmem ?s) m1" "lists_rel m1 (A\<lparr>ready := (ready A)(p := remove1 t (ready A p))\<rparr>)"
    using plain_remove_ready [OF rel p assms(3,4)] assms(7) by auto
  have w: "get_wakeup_time (pk u1) = get_wakeup_time (pk ?s)" "get_wakeup_time (pk ?s) t = w"
    using 1(2,4) by (auto simp: moved_def get_wakeup_time_def [abs_def] only_list_def set_wakeup_time_def)
  obtain u2 m2 where 2: "exec (plain_add_node_to_delayed_list t (sched_node t)) u1 = Inr ((), u2)"
    "pk u2 = (pk u1)\<lparr>k_lists := m2, next_unblock_time := min (next_unblock_time (pk u1)) (get_wakeup_time (pk u1) t)\<rparr>"
    "lists_rel m2 (A\<lparr>ready := (ready A)(p := remove1 t (ready A p)), delayed := insert_at (wakes_later (pk u1) t) t (delayed A)\<rparr>)"
    using plain_add_delayed [of u1 "A\<lparr>ready := (ready A)(p := remove1 t (ready A p))\<rparr>" t] 1 assms(5,7) by (auto simp: moved_def)
  have "exec (plain_delay_current t n) s = Inr ((), u2)" using 1(1) 2(1) assms(6,7)
    by (simp add: plain_delay_current_def exec_seq exec_bind exec_set_status)
  moreover have "wakes_later (pk u1) t = wakes_later (set_wakeup_time t w (pk s)) t" using w by (simp add: wakes_later_def [abs_def])
  ultimately show ?thesis using 1(2) 2(2,3) w by (auto simp: moved_def set_wakeup_time_def)
qed

text \<open>Claim C40. A task that delays itself in the build without the feature \<open>opt_list\<close> leaves its ready list for the delay
  list, at the place its wake-up time asks for, but its state is not set to \<open>Blocked\<close>: \<open>set_status\<close> changes a copy. A task
  that was schedulable still counts as schedulable while it is delayed, so that the recovery after a power failure resumes it instead of
  rescheduling.\<close>

theorem plain_delay_keeps_state:
  assumes "sched_rel (ps_kernel s) A" "current_task (ps_kernel s) = t" "prio_nat (ps_kernel s) t = p" "p < 8"
    and "t \<in> set (ready A p)" "length (delayed A) < 4095" "expiry (ps_kernel s) n = Some w"
    and "task_undo s t = []" "\<not> tx_id (c_ptr (task_txc s t)) < tx_id (c_tail (task_txc s t))"
  shows "\<exists>s'. exec (plain_task_delay n) s = Inr ((), s') \<and>
    sched_rel (ps_kernel s') (A\<lparr>ready := (ready A)(p := remove1 t (ready A p)),
      delayed := insert_at (wakes_later (set_wakeup_time t w (ps_kernel s)) t) t (delayed A)\<rparr>) \<and>
    next_unblock_time (ps_kernel s') = min (next_unblock_time (ps_kernel s)) w \<and>
    status (tasks (ps_kernel s') t) = status (tasks (ps_kernel s) t) \<and>
    is_schedulable (ps_kernel s') t = is_schedulable (ps_kernel s) t \<and> task_undo s' t = []"
proof -
  let ?k = "ps_kernel s"
  let ?s = "s\<lparr>irq_on := False, nest_cnt := nest_cnt s + 1, task_txc := (task_txc s)(t := clear_commit_flag (task_txc s t))\<rparr>"
  obtain u m where u: "exec (plain_delay_current t n) \<lparr>pk = ?k, p_undo = []\<rparr> = Inr ((), u)"
    "pk u = ?k\<lparr>k_lists := m, next_unblock_time := min (next_unblock_time ?k) w\<rparr>"
    "lists_rel m (A\<lparr>ready := (ready A)(p := remove1 t (ready A p)),
      delayed := insert_at (wakes_later (set_wakeup_time t w ?k) t) t (delayed A)\<rparr>)"
    using plain_delay_current_refines [of "\<lparr>pk = ?k, p_undo = []\<rparr>" A t p n w] assms(1,3-7) by (auto simp: JOURNAL_SIZE_def)
  have "exec (plain_run_sys t (plain_delay_current t n)) (s\<lparr>irq_on := False, nest_cnt := nest_cnt s + 1\<rparr>) =
      exec (seq (on_task_journal t (plain_delay_current t n)) (seq (on_task_txc t (cache_result []))
        (writes [\<lambda>s. s\<lparr>task_undo := (task_undo s)(t := [])\<rparr>]))) ?s"
    using assms(9) by (simp add: plain_run_sys_def exec_bind exec_seq on_task_txc_def task_cache.exec_lift try_retrieve_result_def
        fun_upd_idem)
  also have "\<dots> = Inr ((), ?s\<lparr>ps_kernel := pk u, task_undo := (task_undo s)(t := []),
      task_txc := (task_txc s)(t := final (cache_result []) (clear_commit_flag (task_txc s t)))\<rparr>)"
    using u(1) assms(8) by (simp add: exec_seq on_task_journal_def task_journal.exec_lift on_task_txc_def task_cache.exec_lift
        cache_result_def commit_no_ret_value_def)
  finally show ?thesis using u(2,3) assms(2)
    by (auto simp: plain_task_delay_def plain_critical_def exec_seq exec_bind is_schedulable_def prog_simps)
qed

theorem plain_delay_keeps_state_witness:
  "\<exists>s'. exec (plain_task_delay 5) demo_plain = Inr ((), s') \<and>
    sched_rel (ps_kernel s') \<lparr>ready = (\<lambda>_. [])(1 := []), delayed = [2, 1], waiting = (\<lambda>_. [])(20 := [2])\<rparr> \<and>
    is_schedulable (ps_kernel s') 1"
proof -
  have "prio_nat (ps_kernel demo_plain) 1 = 1" "current_task (ps_kernel demo_plain) = 1"
    "expiry (ps_kernel demo_plain) 5 = Some 54" "task_undo demo_plain 1 = []"
    "\<not> tx_id (c_ptr (task_txc demo_plain 1)) < tx_id (c_tail (task_txc demo_plain 1))"
    by (simp_all add: demo_plain_def demo_waiting_def demo_kernel_def prio_of_def expiry_def)
  from plain_delay_keeps_state [OF demo_plain_ok(1) this(2,1) _ _ _ this(3-5)] show ?thesis
    by (auto simp: insert_at_def wakes_later_def get_wakeup_time_def set_wakeup_time_def demo_plain_def demo_waiting_def demo_kernel_def
        sched_node_def is_schedulable_def)
qed

end
