(* ===== verification/PlainCrash.thy ===== *)
theory PlainCrash
  imports PlainSched
begin

text \<open>
  Power failures in the build without the feature \<open>opt_list\<close>: every move of a task changes only what it has logged
  before, so the journal undoes it, and the tick handler, whose transactions wake one task each, is left after any number
  of power failures with some of the due tasks woken and the others still delayed.
\<close>

section \<open>The moves can be undone\<close>

lemma revocable_logged: "revocable p s \<Longrightarrow> exec p s = Inr (a, u) \<Longrightarrow> logged s \<subseteq> logged u"
  using final_in_states by (fastforce simp: revocable_def)

lemma revocable_set_status [undoing]: "revocable (plain_set_status t st) s"
  by (simp add: plain_set_status_def revocable_append_rec put_back_current)

lemma pop_front_logged:
  assumes "ListObj l \<in> logged s" "exec (plain_pop_front l) s = Inr (Some h, u)"
  shows "NodeObj h \<in> logged u"
  using assms(2)
  by (auto simp: plain_ops exec_seq as_mut_def append_rec_def logged_def node_rec_def lstore_def Let_def
      split: if_splits option.splits sum.splits)

lemma remove_logged:
  assumes "ListObj l \<in> logged s" "exec (plain_remove l n) s = Inr (a, u)"
  shows "NodeObj n \<in> logged u"
proof -
  obtain v where v: "exec (as_mut n) s = Inr ((), v)" "exec (plain_remove_impl l n) v = Inr (a, u)"
    using assms(2) by (auto simp: plain_remove_def exec_seq split: sum.splits)
  have "insert (NodeObj n) (logged s) \<subseteq> logged v"
    using logged_append_rec [of "node_rec n" s "()" v] v(1) by (simp add: as_mut_def node_rec_def Let_def)
  then show ?thesis using revocable_logged [OF revocable_remove_impl v(2)] assms(1) by auto
qed

lemma revocable_add_ready [undoing]:
  "NodeObj n \<in> logged s \<Longrightarrow> revocable (plain_add_node_to_ready_list t n) s"
  unfolding plain_add_node_to_ready_list_def plain_sched_list_def Let_def
  by (rule revocable_then undoing revocable_insert_before_cursor_impl | (blast | (simp; blast))[1])+

lemma revocable_wake_first: "revocable plain_wake_first s"
  unfolding plain_wake_first_def
proof (rule revocable_then, rule revocable_bind)
  fix u
  assume u: "insert (ListObj DELAYED_TASK_LIST) (logged s) \<subseteq> logged u"
  then show "revocable (plain_pop_front DELAYED_TASK_LIST) u" by (intro revocable_list_ops) simp
  fix r v
  assume v: "exec (plain_pop_front DELAYED_TASK_LIST) u = Inr (r, v)"
  show "revocable (unwrap_unchecked r (\<lambda>h. with_lists (\<lambda>m. let t = item_task (lvalue m h) in
       seq (case lowner m (event_node t) of None \<Rightarrow> Halt
        | Some wl \<Rightarrow> seq (borrow_list wl) (plain_remove wl (event_node t)))
       (plain_add_node_to_ready_list t h)))) v"
  proof (cases r)
    case (Some h)
    then have "NodeObj h \<in> logged v" using pop_front_logged [of DELAYED_TASK_LIST u] u v by simp
    then show ?thesis unfolding Some unwrap_unchecked_def Let_def option.case
      by - (rule revocable_then undoing revocable_list_ops(4) | (blast | (simp; blast))[1])+
  qed (simp add: unwrap_unchecked_def revocable_simps)
qed

lemma revocable_remove_delayed: "revocable (plain_remove_from_delayed_list t) s"
  unfolding plain_remove_from_delayed_list_def
  by (rule revocable_then undoing revocable_list_ops(4) | blast)+

lemma remove_delayed_logged:
  assumes "exec (plain_remove_from_delayed_list t) s = Inr (n, u)"
  shows "NodeObj n \<in> logged u"
proof -
  obtain v where v: "exec (borrow_list DELAYED_TASK_LIST) s = Inr ((), v)"
    "exec (plain_remove DELAYED_TASK_LIST (sched_node t)) v = Inr ((), u)" "n = sched_node t"
    using assms by (auto simp: plain_remove_from_delayed_list_def exec_seq split: sum.splits)
  have "ListObj DELAYED_TASK_LIST \<in> logged v"
    using logged_append_rec [of "list_rec DELAYED_TASK_LIST" s "()" v] v(1)
    by (simp add: borrow_list_def list_rec_def Let_def)
  then show ?thesis using remove_logged v(2,3) by simp
qed

text \<open>The transactions that switch tasks and that block a task on a queue or wake one of its waiters.\<close>

lemma revocable_store_current [undoing]: "revocable (plain_store_current t) s"
  unfolding plain_store_current_def seq_def
proof (rule revocable_bind)
  show "revocable (append_rec (\<lambda>k. CurrentRec (current_task k))) s"
    by (simp add: revocable_append_rec put_back_current)
  fix a u
  assume "exec (append_rec (\<lambda>k. CurrentRec (current_task k))) s = Inr (a, u)"
  then have "CurrentObj \<in> logged u" by (auto dest: logged_append_rec)
  then show "revocable (writes [\<lambda>s. s\<lparr>pk := (pk s)\<lparr>current_task := t\<rparr>\<rparr>]) u"
    using touches_undone [OF touches_setters(8), of u t "pk u"] by (auto simp: revocable_def logged_def)
qed

lemma revocable_switch_to: "revocable (plain_switch_to t prev i) s"
  unfolding plain_switch_to_def
  by (rule revocable_then undoing revocable_list_ops(6) | (blast | (simp; blast))[1])+

lemma revocable_remove_ready: "revocable (plain_remove_from_ready_list t) s"
  unfolding plain_remove_from_ready_list_def plain_sched_list_def Let_def
  by (rule revocable_then undoing revocable_list_ops(4) | blast)+

lemma revocable_block_on: "revocable (plain_block_on wl) s"
  unfolding plain_block_on_def Let_def
  by (rule revocable_bind revocable_remove_ready revocable_then undoing revocable_list_ops(2) | blast)+

lemma revocable_wakeup_blocked_task: "revocable (plain_wakeup_blocked_task wl) s"
  unfolding plain_wakeup_blocked_task_def Let_def
  by (rule revocable_then revocable_bind revocable_remove_delayed revocable_add_ready undoing revocable_list_ops(5)
      | (erule remove_delayed_logged)[1] | blast)+

section \<open>The recovery of a journal\<close>

lemma restore_touches: "w \<in> set (restore r) \<Longrightarrow> \<exists>ob. obj_of r = Some ob \<and> touches ob w"
  by (cases r) (auto intro: touches_setters)

lemma undo_prefix:
  fixes s :: plain
  assumes "set ws \<subseteq> set (concat (map restore (p_undo s)))"
  shows "roll_back_recs (p_undo s) (fold (\<lambda>w. w) ws k) = roll_back_recs (p_undo s) k"
  using assms
proof (induction ws arbitrary: k)
  case (Cons w ws)
  then obtain r where "r \<in> set (p_undo s)" "w \<in> set (restore r)" by auto
  then obtain ob where "touches ob w" "ob \<in> logged s" using restore_touches by (force simp: logged_def)
  then show ?case using Cons touches_undone by simp
qed simp

lemma undone_fold: "undone (s :: plain) = fold (\<lambda>w. w) (concat (map restore (p_undo s))) (pk s)"
proof -
  have "roll_back_recs us k = fold (\<lambda>w. w) (concat (map restore us)) k" for us k
    by (induction us arbitrary: k) (simp_all add: roll_back_recs_def put_back_def)
  then show ?thesis by simp
qed

lemma fold_pk: "fold (\<lambda>w. w) (map (\<lambda>f s. s\<lparr>pk := f (pk s)\<rparr>) ws) s = s\<lparr>pk := fold (\<lambda>w. w) ws (pk s)\<rparr>"
  by (induction ws arbitrary: s) simp_all

lemma exec_recover: "exec plain_recover s = Inr ((), s\<lparr>pk := undone s, p_undo := []\<rparr>)"
  by (simp add: plain_recover_def exec_seq exec_writes fold_pk undone_fold)

lemma recover_states:
  assumes "t \<in> set (states plain_recover s)"
  shows "undone t = undone s"
proof -
  let ?ws = "concat (map restore (p_undo s))"
  have "t \<in> set (states (seq (writes (map (\<lambda>f s. s\<lparr>pk := f (pk s)\<rparr>) ?ws)) (writes [\<lambda>s. s\<lparr>p_undo := []\<rparr>])) s)"
    using assms by (simp add: plain_recover_def)
  then show ?thesis unfolding seq_def
  proof (cases rule: states_bind_cases)
    case 1
    then obtain k where "t = s\<lparr>pk := fold (\<lambda>w. w) (take k ?ws) (pk s)\<rparr>"
      using states_writes by (fastforce simp: take_map fold_pk)
    then show ?thesis using undo_prefix [of "take k ?ws" s "pk s"] set_take_subset [of k ?ws] by simp
  next
    case (2 a u)
    then have u: "u = s\<lparr>pk := undone s\<rparr>" by (simp add: exec_writes fold_pk undone_fold)
    have "roll_back_recs (p_undo s) (undone s) = undone s"
      using undo_prefix [of ?ws s "pk s"] by (simp add: undone_fold)
    then show ?thesis using 2(2) u by (auto simp: roll_back_recs_def)
  qed
qed

section \<open>Power failures in the tick handler\<close>

text \<open>The kernel data that a recovery would establish: the data as they are if the boot transaction has committed, what
  undoing its journal gives otherwise.\<close>

definition settled :: "psys \<Rightarrow> kernel" where
  "settled s = (if is_committed (boot_txc s) then ps_kernel s else roll_back_recs (boot_undo s) (ps_kernel s))"

text \<open>The lists are settled in one of the arrangements \<open>AA\<close>, and an open journal can be seen from the counter of
  context-switch transactions.\<close>

definition tick_inv :: "sched set \<Rightarrow> psys \<Rightarrow> bool" where
  "tick_inv AA s \<longleftrightarrow> (\<exists>A\<in>AA. sched_rel (settled s) A) \<and> (\<forall>t. task_undo s t = []) \<and> (ctx_cnt s = 0 \<longrightarrow> boot_undo s = [])"

definition tick_done :: "sched set \<Rightarrow> psys \<Rightarrow> bool" where
  "tick_done AA s \<longleftrightarrow> (\<exists>A\<in>AA. sched_rel (ps_kernel s) A) \<and> (\<forall>t. task_undo s t = []) \<and> boot_undo s = [] \<and> ctx_cnt s = 0"

lemma commit_flags [simp]: "\<not> is_committed (clear_commit_flag c)" "is_committed (commit_no_replay c)"
  by (simp_all add: is_committed_def and_committed clear_commit_flag_def commit_no_replay_def bit_simps)

lemma settled_no_journal: "boot_undo s = [] \<Longrightarrow> settled s = ps_kernel s"
  by (simp add: settled_def roll_back_recs_def)

lemma tick_inv_rest:
  "boot_undo s = [] \<Longrightarrow> \<forall>t. task_undo s t = [] \<Longrightarrow> sched_rel (ps_kernel s) A \<Longrightarrow> A \<in> AA \<Longrightarrow> tick_inv AA s"
  by (auto simp: tick_inv_def settled_no_journal)

lemma states_on_boot:
  "t \<in> set (states (on_boot_journal p) s) \<longleftrightarrow> (\<exists>x\<in>set (states p \<lparr>pk = ps_kernel s, p_undo = boot_undo s\<rparr>).
     t = s\<lparr>ps_kernel := pk x, boot_undo := p_undo x\<rparr>)"
  by (auto simp: on_boot_journal_def boot_journal.states_lift)

lemma boot_roll_back_states:
  assumes "t \<in> set (states boot_roll_back s)"
  shows "settled t = settled s" "task_undo t = task_undo s" "ctx_cnt t = ctx_cnt s"
proof -
  have "settled t = settled s \<and> task_undo t = task_undo s \<and> ctx_cnt t = ctx_cnt s"
  proof (cases "is_committed (boot_txc s)")
    case False
    then obtain x where "x \<in> set (states plain_recover \<lparr>pk = ps_kernel s, p_undo = boot_undo s\<rparr>)"
      "t = s\<lparr>ps_kernel := pk x, boot_undo := p_undo x\<rparr>"
      using assms by (auto simp: boot_roll_back_def states_on_boot)
    with recover_states [OF this(1)] False show ?thesis by (simp add: settled_def)
  qed (use assms in \<open>auto simp: boot_roll_back_def settled_def\<close>)
  then show "settled t = settled s" "task_undo t = task_undo s" "ctx_cnt t = ctx_cnt s" by simp_all
qed

lemma exec_boot_roll_back: "exec boot_roll_back s = Inr ((), s\<lparr>ps_kernel := settled s, boot_undo := []\<rparr>)"
  by (simp add: boot_roll_back_def on_boot_journal_def boot_journal.exec_lift exec_recover settled_def)

lemma task_roll_back_nothing:
  assumes "task_undo s t = []"
  shows "exec (task_roll_back t) s = Inr ((), s)" "set (states (task_roll_back t) s) \<subseteq> {s}"
proof -
  have f: "(task_undo s)(t := []) = task_undo s" using assms by auto
  have s: "s\<lparr>ps_kernel := ps_kernel s, task_undo := task_undo s\<rparr> = s" by (cases s) simp
  show "exec (task_roll_back t) s = Inr ((), s)" using assms f s
    by (simp add: task_roll_back_def on_task_journal_def task_journal.exec_lift exec_recover roll_back_recs_def)
  show "set (states (task_roll_back t) s) \<subseteq> {s}" using assms f s
    by (simp add: task_roll_back_def on_task_journal_def task_journal.states_lift plain_recover_def seq_simps)
qed

lemma task_states:
  assumes "t \<in> set (states (seq (task_roll_back c) (writes [w])) s)" "\<forall>c. task_undo s c = []"
  shows "t = s \<or> t = w s"
  using assms(1) unfolding seq_def
proof (cases rule: states_bind_cases)
  case 1
  then show ?thesis using task_roll_back_nothing(2) [of s c] assms(2) by auto
next
  case (2 a u)
  then show ?thesis using task_roll_back_nothing(1) [of s c] assms(2) by auto
qed

interpretation tick_recovery: roll_back tick_inv "\<lambda>_. plain_kernel_recovery" tick_done
proof
  fix AA s t
  assume inv: "tick_inv AA s"
  { assume t: "t \<in> set (states plain_kernel_recovery s)"
    show "tick_inv AA t"
    proof (cases "ctx_cnt s > 0")
      case True
      then have "t \<in> set (states (seq boot_roll_back (writes [\<lambda>s. s\<lparr>ctx_cnt := 0\<rparr>])) s)"
        using t by (simp add: plain_kernel_recovery_def)
      then show ?thesis unfolding seq_def
      proof (cases rule: states_bind_cases)
        case 1
        then show ?thesis using boot_roll_back_states [OF 1] inv True by (auto simp: tick_inv_def)
      next
        case (2 a u)
        then have "u = s\<lparr>ps_kernel := settled s, boot_undo := []\<rparr>" by (simp add: exec_boot_roll_back)
        then show ?thesis using 2(2) inv by (auto simp: tick_inv_def settled_no_journal)
      qed
    next
      case False
      then have "boot_undo s = []" "\<forall>t. task_undo s t = []" using inv by (simp_all add: tick_inv_def word_gt_0)
      moreover from this have "t = s \<or> t = s\<lparr>nest_cnt := 0\<rparr>"
        using t False task_states by (auto simp: plain_kernel_recovery_def split: if_splits)
      ultimately show ?thesis using inv by (auto simp: tick_inv_def settled_no_journal)
    qed }
  show "\<exists>b t. exec plain_kernel_recovery s = Inr (b, t) \<and> tick_done AA t"
  proof (cases "ctx_cnt s > 0")
    case True
    then show ?thesis using inv
      by (simp add: plain_kernel_recovery_def exec_seq exec_boot_roll_back tick_done_def tick_inv_def)
  next
    case False
    then have "boot_undo s = []" "\<forall>t. task_undo s t = []" "ctx_cnt s = 0" using inv by (simp_all add: tick_inv_def word_gt_0)
    then show ?thesis using False inv task_roll_back_nothing(1) [of s "current_task (ps_kernel s)"]
      by (auto simp: plain_kernel_recovery_def exec_seq tick_done_def tick_inv_def settled_no_journal)
  qed
qed

text \<open>The arrangement after the first \<open>i\<close> of the due tasks have been woken.\<close>

definition woken_first :: "kernel \<Rightarrow> time \<Rightarrow> sched \<Rightarrow> nat \<Rightarrow> sched" where
  "woken_first k now A i = fold (wake_task (prio_nat k)) (take i (takeWhile (\<lambda>t. get_wakeup_time k t \<le> now) (delayed A))) A"

lemma woken_first_0: "woken_first k now A 0 = A"
  by (simp add: woken_first_def)

lemma woken_first_Suc:
  "delayed A = t # ts \<Longrightarrow> get_wakeup_time k t \<le> now \<Longrightarrow> woken_first k now (wake_task (prio_nat k) t A) i = woken_first k now A (Suc i)"
  by (simp add: woken_first_def wake_task_def)

lemma run_no_ctx_states:
  assumes "t \<in> set (states (plain_run_no_ctx f) s)"
    and rest: "boot_undo s = []" "ctx_cnt s = 0" "\<forall>t. task_undo s t = []"
    and f: "revocable f \<lparr>pk = ps_kernel s, p_undo = []\<rparr>" "exec f \<lparr>pk = ps_kernel s, p_undo = []\<rparr> = Inr (a, u)"
    and A: "sched_rel (ps_kernel s) A" "A \<in> AA" "sched_rel (pk u) A'" "A' \<in> AA"
  shows "tick_inv AA t"
proof -
  let ?s = "s\<lparr>ctx_cnt := 1, boot_txc := clear_commit_flag (boot_txc s)\<rparr>"
  let ?g = "\<lambda>r. seq (writes [\<lambda>s. s\<lparr>boot_txc := commit_no_replay (boot_txc s)\<rparr>,
        \<lambda>s. s\<lparr>boot_undo := []\<rparr>, \<lambda>s. s\<lparr>ctx_cnt := ctx_cnt s - 1\<rparr>]) (Return r)"
  have "t = s \<or> t = s\<lparr>ctx_cnt := 1\<rparr> \<or> t \<in> set (states (bind (on_boot_journal f) ?g) ?s)"
    using assms(1) rest(2) by (auto simp: plain_run_no_ctx_def prog_simps)
  then consider "t = s" | "t = s\<lparr>ctx_cnt := 1\<rparr>" | "t \<in> set (states (bind (on_boot_journal f) ?g) ?s)" by blast
  then show ?thesis
  proof cases
    case 3
    then show ?thesis
    proof (cases rule: states_bind_cases)
      case 1
      then obtain x where x: "x \<in> set (states f \<lparr>pk = ps_kernel s, p_undo = []\<rparr>)"
        "t = ?s\<lparr>ps_kernel := pk x, boot_undo := p_undo x\<rparr>" using rest(1) by (auto simp: states_on_boot)
      then have "undone x = ps_kernel s" using f(1) by (auto simp: revocable_def roll_back_recs_def)
      then show ?thesis using x(2) A(1,2) rest(3) by (auto simp: tick_inv_def settled_def)
    next
      case (2 b v)
      then have v: "v = ?s\<lparr>ps_kernel := pk u, boot_undo := p_undo u\<rparr>" "b = a" using f(2) rest(1)
        by (auto simp: on_boot_journal_def boot_journal.exec_lift)
      let ?v = "v\<lparr>boot_txc := commit_no_replay (boot_txc v)\<rparr>"
      have "t = v \<or> t = ?v \<or> t = ?v\<lparr>boot_undo := []\<rparr> \<or> t = ?v\<lparr>boot_undo := [], ctx_cnt := 0\<rparr>"
        using 2(2) v by (auto simp: prog_simps)
      moreover have "undone u = ps_kernel s"
        using f final_in_states by (fastforce simp: revocable_def roll_back_recs_def)
      ultimately show ?thesis using v A rest(3) by (auto simp: tick_inv_def settled_def)
    qed
  qed (use A(1,2) rest in \<open>auto intro: tick_inv_rest\<close>)
qed

lemma wake_loop_states:
  assumes "t \<in> set (states (plain_wake_loop n now) s)" "sched_rel (ps_kernel s) B" "roomy (ps_kernel s) B"
    and "boot_undo s = []" "ctx_cnt s = 0" "\<forall>t. task_undo s t = []" "\<And>i. woken_first (ps_kernel s) now B i \<in> AA"
  shows "tick_inv AA t"
  using assms
proof (induction n arbitrary: s B)
  case 0
  then have "B \<in> AA" using woken_first_0 [of "ps_kernel s" now B] by metis
  then show ?case using 0 by (auto intro: tick_inv_rest)
next
  case (Suc n)
  let ?k = "ps_kernel s"
  have B: "B \<in> AA" using Suc.prems(7) [of 0] by (simp add: woken_first_0)
  note here = tick_inv_rest [OF Suc.prems(4,6,2) B]
  note peek = peek_front_delayed [OF Suc.prems(2)]
  show ?case
  proof (cases "delayed B")
    case Nil
    then show ?thesis using Suc.prems(1) peek here by simp
  next
    case (Cons x xs)
    then have pf: "peek_front DELAYED_TASK_LIST (k_lists ?k) = Some (lvalue (k_lists ?k) (sched_node x))" using peek by simp
    show ?thesis
    proof (cases "get_wakeup_time ?k x \<le> now")
      case False
      then show ?thesis using Suc.prems(1) pf here by (simp add: get_wakeup_time_def not_le)
    next
      case True
      let ?B = "wake_task (prio_nat ?k) x B"
      have p: "prio_nat ?k x < 8" using Suc.prems(3) Cons by (simp add: roomy_def)
      then have len: "length (ready B (prio_nat ?k x)) < 4095" using Suc.prems(3) Cons by (fastforce simp: roomy_def)
      obtain u m where u: "exec plain_wake_first \<lparr>pk = ?k, p_undo = boot_undo s\<rparr> = Inr ((), u)"
          "pk u = ?k\<lparr>k_lists := m\<rparr>" "lvalue m = lvalue (k_lists ?k)" "lists_rel m ?B"
        using plain_wake_first_refines [of "\<lparr>pk = ?k, p_undo = boot_undo s\<rparr>" B x xs] Suc.prems(2,4) Cons p len
        by (auto simp: moved_def JOURNAL_SIZE_def)
      have next_B: "woken_first ?k now ?B i \<in> AA" for i using woken_first_Suc [OF Cons True] Suc.prems(7) by simp
      then have B': "?B \<in> AA" using woken_first_0 by metis
      have "t \<in> set (states (seq (plain_run_no_ctx plain_wake_first) (plain_wake_loop n now)) s)"
        using Suc.prems(1) pf True by (auto simp: get_wakeup_time_def split: if_splits)
      then show ?thesis unfolding seq_def
      proof (cases rule: states_bind_cases)
        case 1
        show ?thesis
          by (rule run_no_ctx_states [OF 1 Suc.prems(4-6) revocable_wake_first _ Suc.prems(2) B _ B'])
            (use u Suc.prems(4) in auto)
      next
        case (2 b v)
        then have v: "v = s\<lparr>ps_kernel := ?k\<lparr>k_lists := m\<rparr>, boot_undo := [],
            boot_txc := commit_no_replay (clear_commit_flag (boot_txc s))\<rparr>"
          using exec_run_no_ctx [OF u(1)] u(2) by simp
        have w: "get_wakeup_time (ps_kernel v) = get_wakeup_time ?k" "prio_of (ps_kernel v) = prio_of ?k"
          using u(3) v by (simp_all add: get_wakeup_time_def [abs_def] prio_of_def [abs_def])
        have "woken_first (ps_kernel v) now ?B i \<in> AA" for i using next_B [of i] w by (simp add: woken_first_def)
        moreover have "roomy (ps_kernel v) ?B" using Suc.prems(3) w(2) Cons by (auto simp: roomy_def wake_task_def)
        ultimately show ?thesis using Suc.IH [OF 2(2)] u(4) Suc.prems(5,6) v by simp
      qed
    qed
  qed
qed

lemma wake_up_states:
  assumes "t \<in> set (states (plain_wake_up now) s)" "sched_rel (ps_kernel s) A" "roomy (ps_kernel s) A"
    and "boot_undo s = []" "ctx_cnt s = 0" "\<forall>t. task_undo s t = []" "\<And>i. woken_first (ps_kernel s) now A i \<in> AA"
  shows "tick_inv AA t"
  using assms(1) unfolding plain_wake_up_def seq_def
proof (cases rule: states_bind_cases)
  case 1
  then show ?thesis by (rule wake_loop_states [OF _ assms(2-7)])
next
  case (2 a u)
  have "length (delayed A) < 4096" using assms(3) by (fastforce simp: roomy_def)
  then obtain m c where m: "exec (plain_wake_loop 4096 now) s = Inr ((), s\<lparr>ps_kernel := (ps_kernel s)\<lparr>k_lists := m\<rparr>, boot_txc := c\<rparr>)"
    "lists_rel m (wake_due (ps_kernel s) now A)"
    using plain_wake_loop_refines [OF assms(2,3) _ assms(4), of 4096 now] by auto
  have "wake_due (ps_kernel s) now A = woken_first (ps_kernel s) now A (length (delayed A))"
    by (simp add: wake_due_def woken_first_def length_takeWhile_le)
  then have "wake_due (ps_kernel s) now A \<in> AA" using assms(7) by simp
  then show ?thesis using 2 m assms(4,6) by (auto simp: Let_def set_next_unblock_time_def intro!: tick_inv_rest)
qed

text \<open>What holds throughout the body of a critical section holds throughout the section, if interrupts do not matter.\<close>

lemma critical_states:
  assumes "t \<in> set (states (plain_critical f) s)" "I s" "\<And>u n b. I u \<Longrightarrow> I (u\<lparr>nest_cnt := n, irq_on := b\<rparr>)"
    and "\<And>u. u \<in> set (states f (s\<lparr>irq_on := False, nest_cnt := nest_cnt s + 1\<rparr>)) \<Longrightarrow> I u"
  shows "I t"
proof -
  have irq: "I (u\<lparr>irq_on := b\<rparr>)" "I (u\<lparr>nest_cnt := n\<rparr>)" "I (u\<lparr>irq_on := b, nest_cnt := n\<rparr>)" if "I u" for u n b
    using assms(3) [OF that, of b "nest_cnt u"] assms(3) [OF that, of "irq_on u" n] assms(3) [OF that, of b n]
    by (cases u, simp)+
  let ?exit = "\<lambda>v. Write (\<lambda>s. s\<lparr>nest_cnt := nest_cnt s - 1\<rparr>) (Read (\<lambda>s.
       seq (if nest_cnt s = 0 then writes [\<lambda>s. s\<lparr>irq_on := True\<rparr>] else Halt) (Return v)))"
  have "t = s \<or> t = s\<lparr>irq_on := False\<rparr> \<or> t \<in> set (states (bind f ?exit) (s\<lparr>irq_on := False, nest_cnt := nest_cnt s + 1\<rparr>))"
    using assms(1) by (auto simp: plain_critical_def prog_simps)
  then show ?thesis
  proof (elim disjE)
    assume "t \<in> set (states (bind f ?exit) (s\<lparr>irq_on := False, nest_cnt := nest_cnt s + 1\<rparr>))"
    then show ?thesis
    proof (cases rule: states_bind_cases)
      case (2 v u)
      then have "I u" using assms(4) final_in_states by metis
      then show ?thesis using 2(2) irq by (auto simp: prog_simps split: if_splits)
    qed (rule assms(4))
  qed (use irq assms(2) in auto)
qed

lemma tick_states:
  assumes "t \<in> set (states plain_process_tick s)" "sched_rel (ps_kernel s) A" "roomy (ps_kernel s) A"
    and "boot_undo s = []" "ctx_cnt s = 0" "\<forall>t. task_undo s t = []"
  shows "tick_inv (range (woken_first (ps_kernel s) (tick_counter (ps_kernel s) + 1) A)) t"
  using assms(1) unfolding plain_process_tick_def
proof (rule critical_states)
  let ?k = "ps_kernel s" and ?AA = "range (woken_first (ps_kernel s) (tick_counter (ps_kernel s) + 1) A)"
  let ?s = "s\<lparr>irq_on := False, nest_cnt := nest_cnt s + 1, ps_kernel := inc_tick ?k\<rparr>"
  have A: "A \<in> ?AA" using woken_first_0 [of ?k "tick_counter ?k + 1" A] by (metis rangeI)
  show "tick_inv ?AA s" using tick_inv_rest assms A by blast
  show "tick_inv ?AA (u\<lparr>nest_cnt := n, irq_on := b\<rparr>)" if "tick_inv ?AA u" for u n b
    using that by (simp add: tick_inv_def settled_def split: if_splits)
  have same: "woken_first (inc_tick ?k) (tick_counter ?k + 1) A i = woken_first ?k (tick_counter ?k + 1) A i" "roomy (inc_tick ?k) A" for i
    using assms(3) by (simp_all add: woken_first_def roomy_def inc_tick_def get_wakeup_time_def prio_of_def)
  have "tick_inv ?AA u" if "u \<in> set (states (plain_wake_up (tick_counter ?k + 1)) ?s)" for u
    by (rule wake_up_states [OF that, of A]) (use assms same in \<open>simp_all add: inc_tick_def\<close>)
  moreover have "tick_inv ?AA ?s" "tick_inv ?AA (s\<lparr>irq_on := False, nest_cnt := nest_cnt s + 1\<rparr>)"
    using assms A by (auto intro!: tick_inv_rest simp: inc_tick_def)
  ultimately show "tick_inv ?AA u" if "u \<in> set (states (Write (\<lambda>s. s\<lparr>ps_kernel := inc_tick (ps_kernel s)\<rparr>) (Read (\<lambda>s.
     let cur_ticks = tick_counter (ps_kernel s) in
     if cur_ticks \<ge> next_unblock_time (ps_kernel s) then plain_wake_up cur_ticks else Halt)))
       (s\<lparr>irq_on := False, nest_cnt := nest_cnt s + 1\<rparr>))" for u
    using that by (auto simp: Let_def inc_tick_def split: if_splits)
qed



text \<open>What the recovery misses: after a failure inside the tick handler's transaction it empties the journal, but not the
  counter of nested critical sections, which is persistent. From then on no critical section enables interrupts again.\<close>

theorem failed_tick_leaves_interrupts_off:
  assumes "ctx_cnt s > 0" "nest_cnt s > 0" "exec plain_kernel_recovery s = Inr ((), t)"
    and f: "\<And>s v u. exec f s = Inr (v, u) \<Longrightarrow> nest_cnt u = nest_cnt s \<and> irq_on u = irq_on s"
    and "exec (plain_critical f) t = Inr (v, u)"
  shows "nest_cnt t = nest_cnt s \<and> nest_cnt u = nest_cnt s \<and> \<not> irq_on u"
proof -
  have t: "nest_cnt t = nest_cnt s"
    using assms(1,3) by (auto simp: plain_kernel_recovery_def exec_seq exec_boot_roll_back)
  obtain w where w: "exec f (t\<lparr>irq_on := False, nest_cnt := nest_cnt t + 1\<rparr>) = Inr (v, w)"
    "u = w\<lparr>nest_cnt := nest_cnt w - 1\<rparr> \<or> nest_cnt w = 1"
    using assms(5) by (auto simp: plain_critical_def exec_seq exec_bind prog_simps split: sum.splits if_splits)
  from f [OF w(1)] have w2: "nest_cnt w = nest_cnt s + 1" "\<not> irq_on w" using t by simp_all
  then show ?thesis using w(2) t assms(2) by auto
qed

theorem failed_tick_leaves_interrupts_off_witness:
  "\<exists>t. exec plain_kernel_recovery (crash plain_process_tick 5 demo_plain) = Inr ((), t) \<and> nest_cnt t = 1 \<and>
    (\<forall>u. exec (plain_critical Halt) t = Inr ((), u) \<longrightarrow> \<not> irq_on u)"
proof -
  let ?s = "crash plain_process_tick 5 demo_plain"
  have five: "(5 :: nat) = Suc (Suc (Suc (Suc (Suc 0))))" by simp
  note loop = plain_wake_loop.simps(2) [of 4095, simplified]
  have s: "ctx_cnt ?s = 1" "nest_cnt ?s = 1"
    unfolding five by (simp_all add: loop demo_plain_def demo_waiting_def demo_kernel_def plain_process_tick_def plain_wake_up_def plain_critical_def prog_simps Let_def
      inc_tick_def peek_front_def DELAYED_TASK_LIST_def plain_run_no_ctx_def on_boot_journal_def
      plain_wake_first_def borrow_list_def append_rec_def log_size_def JOURNAL_SIZE_def list_rec_def sched_node_def)
  obtain t where t: "exec plain_kernel_recovery ?s = Inr ((), t)"
    using s by (auto simp: plain_kernel_recovery_def exec_seq exec_boot_roll_back)
  have main: "nest_cnt t = 1 \<and> \<not> irq_on u" if "exec (plain_critical Halt) t = Inr ((), u)" for u
    using failed_tick_leaves_interrupts_off [OF _ _ t _ that] s by simp
  obtain u where "exec (plain_critical Halt) t = Inr ((), u)"
    by (cases "nest_cnt t = 0") (simp_all add: plain_critical_def exec_seq exec_bind)
  then show ?thesis using t main by blast
qed

end
